(* ===== verification/Jio_Prelude.thy ===== *)
theory Jio_Prelude
  imports Main "HOL-Library.Word"
begin

text \<open>
  Shared vocabulary of the development: the machine integers of the C sources, the result
  of a call that may fail, abort or leave defined behaviour, bounds-checked array access,
  and the generic lemmas on words, lists and results that the component theories rely on.
\<close>

unbundle bit_operations_syntax

section \<open>Machine integers and results\<close>

type_synonym u8 = "8 word"
type_synonym u16 = "16 word"
type_synonym u32 = "32 word"
type_synonym u64 = "64 word"
type_synonym bytes = "8 word list"

text \<open>
  What can end a call early: a negative return code, a failing \<open>assert\<close>, an access
  outside an array or object, and a dereference of a null pointer.  The last two are
  undefined behaviour in C; the model stops there instead of inventing a value.
\<close>

datatype fault = Errno int | AssertFail | OutOfBounds | NullDeref

datatype 'a res = Ok 'a | Fail fault

fun res_bind :: "'a res \<Rightarrow> ('a \<Rightarrow> 'b res) \<Rightarrow> 'b res" where
  "res_bind (Ok x) f = f x"
| "res_bind (Fail e) f = Fail e"

fun res_map :: "('a \<Rightarrow> 'b) \<Rightarrow> 'a res \<Rightarrow> 'b res" where
  "res_map f (Ok x) = Ok (f x)"
| "res_map f (Fail e) = Fail e"

text \<open>The error numbers the sources return.\<close>

definition EPERM :: int where "EPERM = 1"
definition E2BIG :: int where "E2BIG = 7"
definition ENOMEM :: int where "ENOMEM = 12"
definition EACCES :: int where "EACCES = 13"
definition EINVAL :: int where "EINVAL = 22"
definition EBADMSG :: int where "EBADMSG = 74"
definition ENOTSUP :: int where "ENOTSUP = 95"
definition ENOBUFS :: int where "ENOBUFS = 105"

lemmas errno_defs = EPERM_def E2BIG_def ENOMEM_def EACCES_def EINVAL_def EBADMSG_def
  ENOTSUP_def ENOBUFS_def

named_theorems res_elims \<comment> \<open>inversion of a successful composite call\<close>
named_theorems layout_simps \<comment> \<open>sizes and offsets of the on-disk structures\<close>

lemma res_bind_Ok_iff [res_elims]:
  "res_bind r f = Ok y \<longleftrightarrow> (\<exists>x. r = Ok x \<and> f x = Ok y)"
  by (cases r) auto

lemma res_map_Ok_iff [res_elims]: "res_map f r = Ok y \<longleftrightarrow> (\<exists>x. r = Ok x \<and> y = f x)"
  by (cases r) auto

lemma res_bind_assoc: "res_bind (res_bind r f) g = res_bind r (\<lambda>x. res_bind (f x) g)"
  by (cases r) auto

lemma res_bind_cong [fundef_cong]:
  "r = r' \<Longrightarrow> (\<And>x. r' = Ok x \<Longrightarrow> f x = g x) \<Longrightarrow> res_bind r f = res_bind r' g"
  by (cases r') auto

definition assert_that :: "bool \<Rightarrow> unit res" where
  "assert_that b = (if b then Ok () else Fail AssertFail)"

lemma assert_that_simps [simp]:
  "assert_that True = Ok ()" "assert_that False = Fail AssertFail"
  by (simp_all add: assert_that_def)

lemma assert_that_Ok_iff [res_elims]: "assert_that b = Ok u \<longleftrightarrow> b"
  by (simp add: assert_that_def)

section \<open>Arrays and memory\<close>

text \<open>Fixed-size C arrays: an index outside the array is a fault, never a default value.\<close>

definition arr_get :: "'a list \<Rightarrow> nat \<Rightarrow> 'a res" where
  "arr_get xs i = (if i < length xs then Ok (xs ! i) else Fail OutOfBounds)"

definition arr_upd :: "'a list \<Rightarrow> nat \<Rightarrow> ('a \<Rightarrow> 'a) \<Rightarrow> 'a list res" where
  "arr_upd xs i f = (if i < length xs then Ok (xs[i := f (xs ! i)]) else Fail OutOfBounds)"

lemma arr_get_in [simp]: "i < length xs \<Longrightarrow> arr_get xs i = Ok (xs ! i)"
  by (simp add: arr_get_def)

lemma arr_upd_in [simp]: "i < length xs \<Longrightarrow> arr_upd xs i f = Ok (xs[i := f (xs ! i)])"
  by (simp add: arr_upd_def)

lemma arr_get_Ok_iff [res_elims]: "arr_get xs i = Ok x \<longleftrightarrow> i < length xs \<and> x = xs ! i"
  by (auto simp: arr_get_def)

lemma arr_upd_Ok_iff [res_elims]:
  "arr_upd xs i f = Ok ys \<longleftrightarrow> i < length xs \<and> ys = xs[i := f (xs ! i)]"
  by (auto simp: arr_upd_def)

lemma arr_upd_out: "length xs \<le> i \<Longrightarrow> arr_upd xs i f = Fail OutOfBounds"
  by (simp add: arr_upd_def)

lemma sum_list_update_add:
  fixes xs :: "'a::comm_monoid_add list"
  assumes "i < length xs"
  shows "sum_list (xs[i := xs ! i + d]) = sum_list xs + d"
  using assms by (induction xs arbitrary: i) (auto simp: ac_simps split: nat.splits)

text \<open>\<open>segment off n xs\<close>: the \<open>n\<close> elements from position \<open>off\<close> on, as many as there are.\<close>

definition segment :: "nat \<Rightarrow> nat \<Rightarrow> 'a list \<Rightarrow> 'a list" where
  "segment off n xs = take n (drop off xs)"

lemma length_segment [simp]: "length (segment off n xs) = min n (length xs - off)"
  by (simp add: segment_def)

lemma segment_segment: "i + k \<le> n \<Longrightarrow> segment i k (segment off n xs) = segment (off + i) k xs"
  by (simp add: segment_def drop_take min_def add.commute)

lemma segment_append_left: "i + k \<le> length xs \<Longrightarrow> segment i k (xs @ ys) = segment i k xs"
  by (simp add: segment_def)

lemma take_segment: "k \<le> n \<Longrightarrow> take k (segment off n xs) = segment off k xs"
  by (simp add: segment_def min_def)

text \<open>\<open>memcpy\<close> out of an object of known bytes: reading outside it is a fault.\<close>

definition mem_read :: "bytes \<Rightarrow> nat \<Rightarrow> nat \<Rightarrow> bytes res" where
  "mem_read m off n = (if off + n \<le> length m then Ok (segment off n m) else Fail OutOfBounds)"

lemma mem_read_in: "off + n \<le> length m \<Longrightarrow> mem_read m off n = Ok (segment off n m)"
  by (simp add: mem_read_def)

lemma mem_read_Ok_iff [res_elims]:
  "mem_read m off n = Ok bs \<longleftrightarrow> off + n \<le> length m \<and> bs = segment off n m"
  by (auto simp: mem_read_def)

section \<open>Words\<close>

lemma and_not_mask_push_drop:
  fixes x :: "'a::len word"
  shows "x AND NOT (mask n) = push_bit n (drop_bit n x)"
  by (rule bit_eqI)
    (auto simp: bit_and_iff bit_not_iff bit_mask_iff bit_push_bit_iff bit_drop_bit_eq)

lemma unat_and_not_mask:
  fixes x :: "'a::len word"
  shows "unat (x AND NOT (mask n)) = unat x div 2 ^ n * 2 ^ n"
proof -
  have "unat (push_bit n (drop_bit n x)) = take_bit LENGTH('a) (push_bit n (drop_bit n (unat x)))"
    by (simp only: unsigned_push_bit_eq unsigned_drop_bit_eq)
      (simp add: take_bit_nat_eq_self)
  moreover have "unat x div 2 ^ n * 2 ^ n < 2 ^ LENGTH('a)"
    by (rule le_less_trans [OF div_times_less_eq_dividend]) simp
  ultimately show ?thesis
    by (simp add: and_not_mask_push_drop take_bit_nat_eq_self push_bit_eq_mult drop_bit_eq_div
      del: push_bit_of_nat)
qed

lemma unat_and_mask:
  fixes x :: "'a::len word"
  shows "unat (x AND mask n) = unat x mod 2 ^ n"
  by (simp only: take_bit_eq_mask [symmetric] unsigned_take_bit_eq)
    (simp add: take_bit_eq_mod)

lemma unat_u64_less: "unat (w :: u64) < 2 ^ 64"
  using unsigned_less [of w] by simp

lemma unat_add_no_wrap:
  fixes x y :: "'a::len word"
  shows "unat x + unat y < 2 ^ LENGTH('a) \<Longrightarrow> unat (x + y) = unat x + unat y"
  by (simp add: unat_word_ariths)

section \<open>Text\<close>

definition newline :: string where "newline = [CHR 0x0A]"

end
