(* ===== verification/Endian.thy ===== *)
theory Endian
  imports Jio_Prelude
begin

text \<open>
  Byte order: \<^verbatim>\<open>upstream/sparse-endian.h\<close> and \<^verbatim>\<open>upstream/unaligned.h\<close>.  The host's byte
  order, \<open>__BYTE_ORDER\<close> in the source, is the argument \<open>be\<close> (\<open>True\<close> for a big-endian host).
  The theorems show that reading a little-endian field with a native load and \<open>le*toh\<close>
  gives the same value on either host.
\<close>

unbundle bit_operations_syntax

section \<open>Words and their bytes\<close>

text \<open>The value of a byte string, least significant byte first.\<close>

fun le_word :: "bytes \<Rightarrow> 'a::len word" where
  "le_word [] = 0"
| "le_word (b # bs) = ucast b OR push_bit 8 (le_word bs)"

lemma le_word_replicate_0 [simp]: "le_word (replicate n 0) = 0"
  by (induction n) simp_all

text \<open>The \<open>n\<close> lowest bytes of a word, least significant first.\<close>

fun word_bytes :: "nat \<Rightarrow> 'a::len word \<Rightarrow> bytes" where
  "word_bytes 0 x = []"
| "word_bytes (Suc n) x = ucast x # word_bytes n (drop_bit 8 x)"

lemma length_word_bytes [simp]: "length (word_bytes n x) = n"
  by (induction n arbitrary: x) auto

lemma bit_le_word:
  "bit (le_word bs :: 'a::len word) i \<longleftrightarrow>
     i < LENGTH('a) \<and> i div 8 < length bs \<and> bit (bs ! (i div 8)) (i mod 8)"
proof (induction bs arbitrary: i)
  case Nil
  then show ?case by simp
next
  case (Cons b bs)
  show ?case
  proof (cases "i < 8")
    case True
    have div: "i div 8 = 0" and mod: "i mod 8 = i"
      using True by simp_all
    have "bit (le_word (b # bs) :: 'a word) i = bit (ucast b :: 'a word) i"
      using True by (simp add: bit_or_iff bit_push_bit_iff)
    also have "\<dots> = (i < LENGTH('a) \<and> bit b i)"
      by (simp only: bit_unsigned_iff possible_bit_word)
    also have "\<dots> = (i < LENGTH('a) \<and> i div 8 < length (b # bs) \<and> bit ((b # bs) ! (i div 8)) (i mod 8))"
      by (simp add: div mod)
    finally show ?thesis .
  next
    case False
    then have "8 \<le> i" by simp
    then have div: "i div 8 = Suc ((i - 8) div 8)" and mod: "i mod 8 = (i - 8) mod 8"
      by (simp_all add: le_div_geq le_mod_geq)
    have no: "\<not> bit (ucast b :: 'a word) i"
      using False by (auto simp: bit_unsigned_iff dest: bit_imp_le_length)
    have "bit (le_word (b # bs) :: 'a word) i = (i < LENGTH('a) \<and> bit (le_word bs :: 'a word) (i - 8))"
      using False no by (simp add: bit_or_iff bit_push_bit_iff)
    also have "\<dots> = (i < LENGTH('a) \<and> (i - 8) div 8 < length bs \<and>
        bit (bs ! ((i - 8) div 8)) ((i - 8) mod 8))"
      by (simp only: Cons.IH) (use False in auto)
    also have "\<dots> = (i < LENGTH('a) \<and> i div 8 < length (b # bs) \<and> bit ((b # bs) ! (i div 8)) (i mod 8))"
      by (simp add: div mod del: bit_or_iff)
    finally show ?thesis .
  qed
qed

lemma nth_word_bytes: "i < n \<Longrightarrow> word_bytes n x ! i = ucast (drop_bit (8 * i) x)"
proof (induction n arbitrary: x i)
  case 0
  then show ?case by simp
next
  case (Suc n)
  then show ?case
    by (cases i) (auto simp: drop_bit_drop_bit add.commute)
qed

lemma word_bytes_le_word:
  assumes "length bs = n" and "8 * n \<le> LENGTH('a::len)"
  shows "word_bytes n (le_word bs :: 'a word) = bs"
proof (rule nth_equalityI)
  show "length (word_bytes n (le_word bs :: 'a word)) = length bs"
    using assms by simp
next
  fix i
  assume "i < length (word_bytes n (le_word bs :: 'a word))"
  then have i: "i < n" by simp
  have "word_bytes n (le_word bs :: 'a word) ! i = ucast (drop_bit (8 * i) (le_word bs :: 'a word))"
    using i by (rule nth_word_bytes)
  also have "\<dots> = bs ! i"
  proof (rule bit_word_eqI)
    fix j
    assume j: "j < LENGTH(8)"
    have "(8 * i + j) div 8 = i" "(8 * i + j) mod 8 = j" "8 * i + j < LENGTH('a)"
      using i j assms by auto
    then show "bit (ucast (drop_bit (8 * i) (le_word bs :: 'a word)) :: u8) j = bit (bs ! i) j"
      using i j assms by (simp add: bit_simps bit_drop_bit_eq bit_le_word)
  qed
  finally show "word_bytes n (le_word bs :: 'a word) ! i = bs ! i" .
qed

lemma le_word_word_bytes:
  fixes x :: "'a::len word"
  assumes "8 * n = LENGTH('a)"
  shows "(le_word (word_bytes n x) :: 'a word) = x"
proof (rule bit_word_eqI)
  fix j
  assume j: "j < LENGTH('a)"
  then have "j div 8 < n" and "8 * (j div 8) + j mod 8 = j"
    using assms by auto
  then show "bit (le_word (word_bytes n x) :: 'a word) j = bit x j"
    using j by (simp add: bit_le_word nth_word_bytes bit_simps bit_drop_bit_eq)
qed

section \<open>Native loads and stores, byte swapping\<close>

definition load_native :: "bool \<Rightarrow> bytes \<Rightarrow> 'a::len word" where
  "load_native be bs = le_word (if be then rev bs else bs)"

definition store_native :: "bool \<Rightarrow> nat \<Rightarrow> 'a::len word \<Rightarrow> bytes" where
  "store_native be n x = (if be then rev (word_bytes n x) else word_bytes n x)"

text \<open>\<open>__bswap_16\<close>, \<open>__bswap_32\<close> and \<open>__bswap_64\<close> of \<^verbatim>\<open><byteswap.h>\<close>.\<close>

definition bswap_16 :: "u16 \<Rightarrow> u16" where "bswap_16 x = le_word (rev (word_bytes 2 x))"
definition bswap_32 :: "u32 \<Rightarrow> u32" where "bswap_32 x = le_word (rev (word_bytes 4 x))"
definition bswap_64 :: "u64 \<Rightarrow> u64" where "bswap_64 x = le_word (rev (word_bytes 8 x))"

definition bswap_16_on_be :: "bool \<Rightarrow> u16 \<Rightarrow> u16" where
  "bswap_16_on_be be x = (if be then bswap_16 x else x)"
definition bswap_32_on_be :: "bool \<Rightarrow> u32 \<Rightarrow> u32" where
  "bswap_32_on_be be x = (if be then bswap_32 x else x)"
definition bswap_64_on_be :: "bool \<Rightarrow> u64 \<Rightarrow> u64" where
  "bswap_64_on_be be x = (if be then bswap_64 x else x)"
definition bswap_16_on_le :: "bool \<Rightarrow> u16 \<Rightarrow> u16" where
  "bswap_16_on_le be x = (if be then x else bswap_16 x)"
definition bswap_32_on_le :: "bool \<Rightarrow> u32 \<Rightarrow> u32" where
  "bswap_32_on_le be x = (if be then x else bswap_32 x)"
definition bswap_64_on_le :: "bool \<Rightarrow> u64 \<Rightarrow> u64" where
  "bswap_64_on_le be x = (if be then x else bswap_64 x)"

definition htole16 :: "bool \<Rightarrow> u16 \<Rightarrow> u16" where "htole16 be v = bswap_16_on_be be v"
definition htole32 :: "bool \<Rightarrow> u32 \<Rightarrow> u32" where "htole32 be v = bswap_32_on_be be v"
definition htole64 :: "bool \<Rightarrow> u64 \<Rightarrow> u64" where "htole64 be v = bswap_64_on_be be v"
definition htobe16 :: "bool \<Rightarrow> u16 \<Rightarrow> u16" where "htobe16 be v = bswap_16_on_le be v"
definition htobe32 :: "bool \<Rightarrow> u32 \<Rightarrow> u32" where "htobe32 be v = bswap_32_on_le be v"
definition htobe64 :: "bool \<Rightarrow> u64 \<Rightarrow> u64" where "htobe64 be v = bswap_64_on_le be v"
definition le16toh :: "bool \<Rightarrow> u16 \<Rightarrow> u16" where "le16toh be v = bswap_16_on_be be v"
definition le32toh :: "bool \<Rightarrow> u32 \<Rightarrow> u32" where "le32toh be v = bswap_32_on_be be v"
definition le64toh :: "bool \<Rightarrow> u64 \<Rightarrow> u64" where "le64toh be v = bswap_64_on_be be v"
definition be16toh :: "bool \<Rightarrow> u16 \<Rightarrow> u16" where "be16toh be v = bswap_16_on_le be v"
definition be32toh :: "bool \<Rightarrow> u32 \<Rightarrow> u32" where "be32toh be v = bswap_32_on_le be v"
definition be64toh :: "bool \<Rightarrow> u64 \<Rightarrow> u64" where "be64toh be v = bswap_64_on_le be v"

text \<open>\<^verbatim>\<open>unaligned.h\<close>: reads of a packed field at any address, and the writes.\<close>

definition unaligned_read_le16 :: "bool \<Rightarrow> bytes \<Rightarrow> u16" where
  "unaligned_read_le16 be p = le16toh be (load_native be (take 2 p))"
definition unaligned_read_le32 :: "bool \<Rightarrow> bytes \<Rightarrow> u32" where
  "unaligned_read_le32 be p = le32toh be (load_native be (take 4 p))"
definition unaligned_read_le64 :: "bool \<Rightarrow> bytes \<Rightarrow> u64" where
  "unaligned_read_le64 be p = le64toh be (load_native be (take 8 p))"
definition unaligned_read_be16 :: "bool \<Rightarrow> bytes \<Rightarrow> u16" where
  "unaligned_read_be16 be p = be16toh be (load_native be (take 2 p))"
definition unaligned_read_be32 :: "bool \<Rightarrow> bytes \<Rightarrow> u32" where
  "unaligned_read_be32 be p = be32toh be (load_native be (take 4 p))"
definition unaligned_read_be64 :: "bool \<Rightarrow> bytes \<Rightarrow> u64" where
  "unaligned_read_be64 be p = be64toh be (load_native be (take 8 p))"
definition unaligned_write_le16 :: "bool \<Rightarrow> bytes \<Rightarrow> u16 \<Rightarrow> bytes" where
  "unaligned_write_le16 be u a = store_native be 2 (le16toh be a) @ drop 2 u"
definition unaligned_write_le32 :: "bool \<Rightarrow> bytes \<Rightarrow> u32 \<Rightarrow> bytes" where
  "unaligned_write_le32 be u a = store_native be 4 (le32toh be a) @ drop 4 u"
definition unaligned_write_le64 :: "bool \<Rightarrow> bytes \<Rightarrow> u64 \<Rightarrow> bytes" where
  "unaligned_write_le64 be u a = store_native be 8 (le64toh be a) @ drop 8 u"
definition unaligned_write_be16 :: "bool \<Rightarrow> bytes \<Rightarrow> u16 \<Rightarrow> bytes" where
  "unaligned_write_be16 be u a = store_native be 2 (be16toh be a) @ drop 2 u"
definition unaligned_write_be32 :: "bool \<Rightarrow> bytes \<Rightarrow> u32 \<Rightarrow> bytes" where
  "unaligned_write_be32 be u a = store_native be 4 (be32toh be a) @ drop 4 u"
definition unaligned_write_be64 :: "bool \<Rightarrow> bytes \<Rightarrow> u64 \<Rightarrow> bytes" where
  "unaligned_write_be64 be u a = store_native be 8 (be64toh be a) @ drop 8 u"

lemmas leNtoh_defs = le16toh_def le32toh_def le64toh_def
  bswap_16_on_be_def bswap_32_on_be_def bswap_64_on_be_def
lemmas beNtoh_defs = be16toh_def be32toh_def be64toh_def
  bswap_16_on_le_def bswap_32_on_le_def bswap_64_on_le_def
lemmas bswap_defs = bswap_16_def bswap_32_def bswap_64_def

lemma bswap_load:
  "length bs = 2 \<Longrightarrow> bswap_16 (le_word bs) = le_word (rev bs)"
  "length bs = 4 \<Longrightarrow> bswap_32 (le_word bs) = le_word (rev bs)"
  "length bs = 8 \<Longrightarrow> bswap_64 (le_word bs) = le_word (rev bs)"
  by (simp_all add: bswap_defs word_bytes_le_word)

lemma bswap_invol [simp]:
  "bswap_16 (bswap_16 x) = x" "bswap_32 (bswap_32 y) = y" "bswap_64 (bswap_64 z) = z"
  by (simp_all add: bswap_defs word_bytes_le_word le_word_word_bytes)

text \<open>The host's byte order cancels: the value read is the little-endian one.\<close>

lemma le16toh_load: "length bs = 2 \<Longrightarrow> le16toh be (load_native be bs) = le_word bs"
  by (simp add: leNtoh_defs load_native_def bswap_load)

lemma le32toh_load: "length bs = 4 \<Longrightarrow> le32toh be (load_native be bs) = le_word bs"
  by (simp add: leNtoh_defs load_native_def bswap_load)

lemma le64toh_load: "length bs = 8 \<Longrightarrow> le64toh be (load_native be bs) = le_word bs"
  by (simp add: leNtoh_defs load_native_def bswap_load)

lemma leNtoh_htoleN [simp]:
  "le16toh be (htole16 be x) = x" "le32toh be (htole32 be y) = y" "le64toh be (htole64 be z) = z"
  by (simp_all add: leNtoh_defs htole16_def htole32_def htole64_def)

lemma be64toh_load: "length bs = 8 \<Longrightarrow> be64toh be (load_native be bs) = le_word (rev bs)"
  by (simp add: beNtoh_defs load_native_def bswap_load)

lemma be16toh_load: "length bs = 2 \<Longrightarrow> be16toh be (load_native be bs) = le_word (rev bs)"
  by (simp add: beNtoh_defs load_native_def bswap_load)

lemma be32toh_load: "length bs = 4 \<Longrightarrow> be32toh be (load_native be bs) = le_word (rev bs)"
  by (simp add: beNtoh_defs load_native_def bswap_load)

lemma unaligned_reads:
  "2 \<le> length p \<Longrightarrow> unaligned_read_le16 be p = le_word (take 2 p)"
  "4 \<le> length p \<Longrightarrow> unaligned_read_le32 be p = le_word (take 4 p)"
  "8 \<le> length p \<Longrightarrow> unaligned_read_le64 be p = le_word (take 8 p)"
  "2 \<le> length p \<Longrightarrow> unaligned_read_be16 be p = le_word (rev (take 2 p))"
  "4 \<le> length p \<Longrightarrow> unaligned_read_be32 be p = le_word (rev (take 4 p))"
  "8 \<le> length p \<Longrightarrow> unaligned_read_be64 be p = le_word (rev (take 8 p))"
  by (simp_all add: unaligned_read_le16_def unaligned_read_le32_def unaligned_read_le64_def
    unaligned_read_be16_def unaligned_read_be32_def unaligned_read_be64_def
    le16toh_load le32toh_load le64toh_load be16toh_load be32toh_load be64toh_load)

text \<open>The bytes written are those of the value, least or most significant first, on every host.\<close>

lemma unaligned_writes:
  "unaligned_write_le16 be u a = word_bytes 2 a @ drop 2 u"
  "unaligned_write_le32 be u b = word_bytes 4 b @ drop 4 u"
  "unaligned_write_le64 be u c = word_bytes 8 c @ drop 8 u"
  "unaligned_write_be16 be u a = rev (word_bytes 2 a) @ drop 2 u"
  "unaligned_write_be32 be u b = rev (word_bytes 4 b) @ drop 4 u"
  "unaligned_write_be64 be u c = rev (word_bytes 8 c) @ drop 8 u"
  by (simp_all add: unaligned_write_le16_def unaligned_write_le32_def unaligned_write_le64_def
    unaligned_write_be16_def unaligned_write_be32_def unaligned_write_be64_def
    store_native_def leNtoh_defs beNtoh_defs bswap_defs word_bytes_le_word)

lemmas unaligned_read_le64_eq = unaligned_reads(3)
lemmas unaligned_write_le64_bytes = unaligned_writes(3)
lemmas unaligned_write_be64_bytes = unaligned_writes(6)

section \<open>Interface: a byte order\<close>

text \<open>
  What the readers of on-disk fields rely on: \<open>dec\<close> undoes \<open>enc\<close>, and the conversion after a
  native load is the field's value whatever the host is.
\<close>

locale field_codec =
  fixes width :: nat
    and toh :: "bool \<Rightarrow> 'a::len word \<Rightarrow> 'a word"
    and hto :: "bool \<Rightarrow> 'a::len word \<Rightarrow> 'a word"
  assumes width_len: "8 * width = LENGTH('a)"
    and toh_load: "\<And>be bs. length bs = width \<Longrightarrow> toh be (load_native be bs) = le_word bs"
    and toh_hto: "\<And>be x. toh be (hto be x) = x"
begin

lemma toh_load_host_independent:
  "length bs = width \<Longrightarrow> toh be (load_native be bs) = toh be' (load_native be' bs)"
  by (simp add: toh_load)

lemma load_stored: "toh be (load_native be (word_bytes width x)) = x"
  by (simp add: toh_load le_word_word_bytes width_len)

lemma load_store_hto: "toh be (load_native be (store_native be width (hto be x))) = x"
  by (simp add: load_native_def store_native_def le_word_word_bytes width_len toh_hto)

end

interpretation codec16: field_codec 2 le16toh htole16
  by unfold_locales (simp_all add: le16toh_load)

interpretation codec32: field_codec 4 le32toh htole32
  by unfold_locales (simp_all add: le32toh_load)

interpretation codec64: field_codec 8 le64toh htole64
  by unfold_locales (simp_all add: le64toh_load)

text \<open>C31: What a write of \<open>unaligned.h\<close> stores a read of the same width and order gives back, on hosts
  of either byte order, and also when the reader's host differs from the writer's; beyond the field the
  memory keeps its bytes.\<close>

theorem unaligned_roundtrip:
  "unaligned_read_le16 be (unaligned_write_le16 be' u a) = a \<and> drop 2 (unaligned_write_le16 be' u a) = drop 2 u \<and>
   unaligned_read_le32 be (unaligned_write_le32 be' u b) = b \<and> drop 4 (unaligned_write_le32 be' u b) = drop 4 u \<and>
   unaligned_read_le64 be (unaligned_write_le64 be' u c) = c \<and> drop 8 (unaligned_write_le64 be' u c) = drop 8 u \<and>
   unaligned_read_be16 be (unaligned_write_be16 be' u a) = a \<and> drop 2 (unaligned_write_be16 be' u a) = drop 2 u \<and>
   unaligned_read_be32 be (unaligned_write_be32 be' u b) = b \<and> drop 4 (unaligned_write_be32 be' u b) = drop 4 u \<and>
   unaligned_read_be64 be (unaligned_write_be64 be' u c) = c \<and> drop 8 (unaligned_write_be64 be' u c) = drop 8 u"
  by (simp add: unaligned_reads unaligned_writes le_word_word_bytes)

end
