(* ===== verification/Journal_Def.thy ===== *)
theory Journal_Def
  imports Endian
begin

text \<open>
  The on-disk format as \<^verbatim>\<open>upstream/journal-def.h\<close> declares it: the object types and journal
  states, the packed structures with their offsets and sizes, \<open>ALIGN64\<close>, and the structures
  as they appear after being read into memory (\<open>..._of_mem\<close>: native loads, not yet swapped).
  \<open>parse_...\<close> is the specification: the little-endian value of every field.
\<close>

unbundle bit_operations_syntax

section \<open>Enumerations\<close>

datatype ObjectType =
    OBJECT_UNUSED
  | OBJECT_DATA
  | OBJECT_FIELD
  | OBJECT_ENTRY
  | OBJECT_DATA_HASH_TABLE
  | OBJECT_FIELD_HASH_TABLE
  | OBJECT_ENTRY_ARRAY
  | OBJECT_TAG

definition OBJECT_TYPE_MAX :: nat where "OBJECT_TYPE_MAX = 8"

fun object_type_code :: "ObjectType \<Rightarrow> nat" where
  "object_type_code OBJECT_UNUSED = 0"
| "object_type_code OBJECT_DATA = 1"
| "object_type_code OBJECT_FIELD = 2"
| "object_type_code OBJECT_ENTRY = 3"
| "object_type_code OBJECT_DATA_HASH_TABLE = 4"
| "object_type_code OBJECT_FIELD_HASH_TABLE = 5"
| "object_type_code OBJECT_ENTRY_ARRAY = 6"
| "object_type_code OBJECT_TAG = 7"

definition object_types :: "ObjectType list" where
  "object_types = [OBJECT_UNUSED, OBJECT_DATA, OBJECT_FIELD, OBJECT_ENTRY,
     OBJECT_DATA_HASH_TABLE, OBJECT_FIELD_HASH_TABLE, OBJECT_ENTRY_ARRAY, OBJECT_TAG]"

text \<open>The enumerator a \<open>type\<close> byte stands for in a \<open>switch\<close> or comparison, if any.\<close>

definition object_type_of :: "u8 \<Rightarrow> ObjectType option" where
  "object_type_of t = (if unat t < OBJECT_TYPE_MAX then Some (object_types ! unat t) else None)"

datatype JournalState = STATE_OFFLINE | STATE_ONLINE | STATE_ARCHIVED

definition STATE_MAX :: nat where "STATE_MAX = 3"

fun journal_state_code :: "JournalState \<Rightarrow> nat" where
  "journal_state_code STATE_OFFLINE = 0"
| "journal_state_code STATE_ONLINE = 1"
| "journal_state_code STATE_ARCHIVED = 2"

definition OBJECT_COMPRESSED_XZ :: u8 where "OBJECT_COMPRESSED_XZ = push_bit 0 1"
definition OBJECT_COMPRESSED_LZ4 :: u8 where "OBJECT_COMPRESSED_LZ4 = push_bit 1 1"
definition OBJECT_COMPRESSED_ZSTD :: u8 where "OBJECT_COMPRESSED_ZSTD = push_bit 2 1"
definition OBJECT_COMPRESSION_MASK :: u8 where
  "OBJECT_COMPRESSION_MASK =
     (OBJECT_COMPRESSED_XZ OR OBJECT_COMPRESSED_LZ4 OR OBJECT_COMPRESSED_ZSTD)"

definition HEADER_INCOMPATIBLE_KEYED_HASH :: u32 where
  "HEADER_INCOMPATIBLE_KEYED_HASH = push_bit 2 1"

instantiation ObjectType :: enum
begin

definition "enum_ObjectType = object_types"
definition "enum_all_ObjectType P = list_all P object_types"
definition "enum_ex_ObjectType P = list_ex P object_types"

instance
proof
  show "(UNIV :: ObjectType set) = set enum_class.enum"
    unfolding enum_ObjectType_def object_types_def using ObjectType.exhaust by auto
  then have univ: "x \<in> set object_types" for x by (metis UNIV_I enum_ObjectType_def)
  show "distinct (enum_class.enum :: ObjectType list)" by (simp add: enum_ObjectType_def object_types_def)
  show "enum_class.enum_all P = Ball UNIV P" for P :: "ObjectType \<Rightarrow> bool"
    using univ by (auto simp: enum_all_ObjectType_def list_all_iff)
  show "enum_class.enum_ex P = Bex UNIV P" for P :: "ObjectType \<Rightarrow> bool"
    using univ by (auto simp: enum_ex_ObjectType_def list_ex_iff)
qed

end

instantiation JournalState :: enum
begin

definition "enum_JournalState = [STATE_OFFLINE, STATE_ONLINE, STATE_ARCHIVED]"
definition "enum_all_JournalState P = (P STATE_OFFLINE \<and> P STATE_ONLINE \<and> P STATE_ARCHIVED)"
definition "enum_ex_JournalState P = (P STATE_OFFLINE \<or> P STATE_ONLINE \<or> P STATE_ARCHIVED)"

instance
proof
  show univ: "(UNIV :: JournalState set) = set enum_class.enum"
    unfolding enum_JournalState_def using JournalState.exhaust by auto
  show "distinct (enum_class.enum :: JournalState list)" by (simp add: enum_JournalState_def)
  show "enum_class.enum_all P = Ball UNIV P" for P :: "JournalState \<Rightarrow> bool"
    unfolding univ by (simp add: enum_JournalState_def enum_all_JournalState_def)
  show "enum_class.enum_ex P = Bex UNIV P" for P :: "JournalState \<Rightarrow> bool"
    unfolding univ by (simp add: enum_JournalState_def enum_ex_JournalState_def)
qed

end

text \<open>The enumerators are numbered in order, and the counts of the two enumerations are theirs.\<close>

lemma enum_codes:
  "map object_type_code enum_class.enum = [0..<OBJECT_TYPE_MAX]"
  "map journal_state_code enum_class.enum = [0..<STATE_MAX]"
  by (simp_all add: enum_ObjectType_def object_types_def enum_JournalState_def OBJECT_TYPE_MAX_def STATE_MAX_def
    upt_conv_Cons)

lemma less_8_cases: "n < (8::nat) \<Longrightarrow> n \<in> {0, 1, 2, 3, 4, 5, 6, 7}"
  by auto

lemma object_type_of_Some_iff: "object_type_of t = Some ty \<longleftrightarrow> unat t = object_type_code ty"
proof
  assume *: "object_type_of t = Some ty"
  then have "unat t < 8" and ty: "ty = object_types ! unat t"
    by (auto simp: object_type_of_def OBJECT_TYPE_MAX_def split: if_splits)
  then show "unat t = object_type_code ty"
    using less_8_cases [of "unat t"] by (auto simp: object_types_def)
next
  assume "unat t = object_type_code ty"
  then show "object_type_of t = Some ty"
    by (cases ty) (auto simp: object_type_of_def OBJECT_TYPE_MAX_def object_types_def)
qed

section \<open>ALIGN64\<close>

definition ALIGN64 :: "u64 \<Rightarrow> u64" where
  "ALIGN64 x = (x + 7) AND NOT 7"

lemma mask3: "(7 :: 'a::len word) = mask 3"
  by (simp add: mask_eq_exp_minus_1)

lemma unat_ALIGN64: "unat (ALIGN64 x) = unat (x + 7) div 8 * 8"
  unfolding ALIGN64_def mask3 unat_and_not_mask by simp

lemma unat_ALIGN64_no_wrap:
  "unat x + 7 < 2 ^ 64 \<Longrightarrow> unat (ALIGN64 x) = (unat x + 7) div 8 * 8"
  by (simp add: unat_ALIGN64 unat_word_ariths)

lemma unat_ALIGN64_bounds:
  assumes "unat x + 7 < 2 ^ 64"
  shows "unat x \<le> unat (ALIGN64 x)" and "unat (ALIGN64 x) < unat x + 8"
  unfolding unat_ALIGN64_no_wrap [OF assms] by linarith+

lemma ALIGN64_wraps_to_0: "2 ^ 64 \<le> unat x + 7 \<Longrightarrow> ALIGN64 x = 0"
proof -
  assume *: "2 ^ 64 \<le> unat x + 7"
  have "unat x < 2 ^ 64" using unsigned_less [of x] by simp
  with * have "(unat x + 7) mod 2 ^ 64 = unat x + 7 - 2 ^ 64"
    by (simp add: mod_if)
  also have "\<dots> < 8" using \<open>unat x < 2 ^ 64\<close> by linarith
  finally have "unat (x + 7) < 8" by (simp add: unat_word_ariths)
  then show ?thesis
    by (metis unat_ALIGN64 div_less mult_0 unat_eq_zero)
qed

lemma ALIGN64_aligned: "unat (ALIGN64 x) mod 8 = 0"
  by (simp add: unat_ALIGN64)

text \<open>The padding \<open>ALIGN64(x) - x\<close> is below 8 even when the sum wraps.\<close>

lemma ALIGN64_padding: "unat (ALIGN64 x - x) < 8"
proof (cases "unat x + 7 < 2 ^ 64")
  case True
  then have "unat x \<le> unat (ALIGN64 x)" "unat (ALIGN64 x) < unat x + 8"
    by (rule unat_ALIGN64_bounds)+
  then show ?thesis
    by (simp add: unat_sub word_le_nat_alt)
next
  case False
  then have "2 ^ 64 \<le> unat x + 7" by simp
  then have z: "ALIGN64 x = 0" by (rule ALIGN64_wraps_to_0)
  have "unat (0 - x) < 8"
    using \<open>2 ^ 64 \<le> unat x + 7\<close> by (simp only: unat_sub_if' word_size) auto
  then show ?thesis by (simp add: z)
qed

section \<open>Structures\<close>

record ObjectHeader =
  o_type :: u8
  o_flags :: u8
  o_reserved :: bytes
  o_size :: u64

record HashedObjectHeader =
  ho_object :: ObjectHeader
  ho_hash :: u64
  ho_next_hash_offset :: u64

record HashItem =
  head_hash_offset :: u64
  tail_hash_offset :: u64

record Header =
  signature :: bytes
  compatible_flags :: u32
  incompatible_flags :: u32
  h_state :: u8
  h_reserved :: bytes
  file_id :: bytes
  machine_id :: bytes
  boot_id :: bytes
  seqnum_id :: bytes
  header_size :: u64
  arena_size :: u64
  data_hash_table_offset :: u64
  data_hash_table_size :: u64
  field_hash_table_offset :: u64
  field_hash_table_size :: u64
  tail_object_offset :: u64
  n_objects :: u64
  n_entries :: u64
  tail_entry_seqnum :: u64
  head_entry_seqnum :: u64
  entry_array_offset :: u64
  head_entry_realtime :: u64
  tail_entry_realtime :: u64
  tail_entry_monotonic :: u64
  n_data :: u64
  n_fields :: u64
  n_tags :: u64
  n_entry_arrays :: u64
  data_hash_chain_depth :: u64
  field_hash_chain_depth :: u64

text \<open>\<open>sizeof\<close> and \<open>offsetof\<close> of the packed structures.\<close>

definition sizeof_ObjectHeader :: nat where [layout_simps]: "sizeof_ObjectHeader = 16"
definition sizeof_HashedObjectHeader :: nat where [layout_simps]: "sizeof_HashedObjectHeader = 32"
definition sizeof_DataObject :: nat where [layout_simps]: "sizeof_DataObject = 64"
definition sizeof_FieldObject :: nat where [layout_simps]: "sizeof_FieldObject = 40"
definition sizeof_HashItem :: nat where [layout_simps]: "sizeof_HashItem = 16"
definition sizeof_EntryItem :: nat where [layout_simps]: "sizeof_EntryItem = 16"
definition sizeof_Header :: nat where [layout_simps]: "sizeof_Header = 256"
definition offsetof_EntryObject_items :: nat where [layout_simps]: "offsetof_EntryObject_items = 64"
definition offsetof_HashTableObject_items :: nat where
  [layout_simps]: "offsetof_HashTableObject_items = 16"
definition offsetof_EntryArrayObject_items :: nat where
  [layout_simps]: "offsetof_EntryArrayObject_items = 24"

definition ld64 :: "bool \<Rightarrow> nat \<Rightarrow> bytes \<Rightarrow> u64" where
  "ld64 be off m = load_native be (segment off 8 m)"
definition ld32 :: "bool \<Rightarrow> nat \<Rightarrow> bytes \<Rightarrow> u32" where
  "ld32 be off m = load_native be (segment off 4 m)"
definition le64_at :: "nat \<Rightarrow> bytes \<Rightarrow> u64" where
  "le64_at off m = le_word (segment off 8 m)"
definition le32_at :: "nat \<Rightarrow> bytes \<Rightarrow> u32" where
  "le32_at off m = le_word (segment off 4 m)"

lemma le64toh_ld64: "off + 8 \<le> length m \<Longrightarrow> le64toh be (ld64 be off m) = le64_at off m"
  unfolding ld64_def le64_at_def by (rule codec64.toh_load) simp

lemma le32toh_ld32: "off + 4 \<le> length m \<Longrightarrow> le32toh be (ld32 be off m) = le32_at off m"
  unfolding ld32_def le32_at_def by (rule codec32.toh_load) simp

lemma le64_at_segment: "i + 8 \<le> n \<Longrightarrow> le64_at i (segment off n m) = le64_at (off + i) m"
  by (simp add: le64_at_def segment_segment)

definition object_header_of_mem :: "bool \<Rightarrow> bytes \<Rightarrow> ObjectHeader" where
  "object_header_of_mem be m =
     \<lparr>o_type = m ! 0, o_flags = m ! 1, o_reserved = segment 2 6 m, o_size = ld64 be 8 m\<rparr>"

definition parse_object_header :: "bytes \<Rightarrow> ObjectHeader" where
  "parse_object_header m =
     \<lparr>o_type = m ! 0, o_flags = m ! 1, o_reserved = segment 2 6 m, o_size = le64_at 8 m\<rparr>"

definition hashed_object_header_of_mem :: "bool \<Rightarrow> bytes \<Rightarrow> HashedObjectHeader" where
  "hashed_object_header_of_mem be m =
     \<lparr>ho_object = object_header_of_mem be m, ho_hash = ld64 be 16 m,
      ho_next_hash_offset = ld64 be 24 m\<rparr>"

definition parse_hashed_object_header :: "bytes \<Rightarrow> HashedObjectHeader" where
  "parse_hashed_object_header m =
     \<lparr>ho_object = parse_object_header m, ho_hash = le64_at 16 m,
      ho_next_hash_offset = le64_at 24 m\<rparr>"

definition hash_item_of_mem :: "bool \<Rightarrow> bytes \<Rightarrow> nat \<Rightarrow> HashItem" where
  "hash_item_of_mem be m i =
     \<lparr>head_hash_offset = ld64 be (16 * i) m, tail_hash_offset = ld64 be (16 * i + 8) m\<rparr>"

definition parse_hash_item :: "bytes \<Rightarrow> nat \<Rightarrow> HashItem" where
  "parse_hash_item m i =
     \<lparr>head_hash_offset = le64_at (16 * i) m, tail_hash_offset = le64_at (16 * i + 8) m\<rparr>"

text \<open>
  The 256-byte file header: \<open>header_with ld32 ld64\<close> fills the structure from memory with the
  given reader of 4- and 8-byte fields.
\<close>

definition header_with :: "(nat \<Rightarrow> u32) \<Rightarrow> (nat \<Rightarrow> u64) \<Rightarrow> bytes \<Rightarrow> Header" where
  "header_with r32 r64 m =
     \<lparr>signature = segment 0 8 m, compatible_flags = r32 8, incompatible_flags = r32 12,
      h_state = m ! 16, h_reserved = segment 17 7 m, file_id = segment 24 16 m,
      machine_id = segment 40 16 m, boot_id = segment 56 16 m, seqnum_id = segment 72 16 m,
      header_size = r64 88, arena_size = r64 96, data_hash_table_offset = r64 104,
      data_hash_table_size = r64 112, field_hash_table_offset = r64 120,
      field_hash_table_size = r64 128, tail_object_offset = r64 136, n_objects = r64 144,
      n_entries = r64 152, tail_entry_seqnum = r64 160, head_entry_seqnum = r64 168,
      entry_array_offset = r64 176, head_entry_realtime = r64 184,
      tail_entry_realtime = r64 192, tail_entry_monotonic = r64 200, n_data = r64 208,
      n_fields = r64 216, n_tags = r64 224, n_entry_arrays = r64 232,
      data_hash_chain_depth = r64 240, field_hash_chain_depth = r64 248\<rparr>"

definition header_of_mem :: "bool \<Rightarrow> bytes \<Rightarrow> Header" where
  "header_of_mem be m = header_with (\<lambda>off. ld32 be off m) (\<lambda>off. ld64 be off m) m"

definition parse_header :: "bytes \<Rightarrow> Header" where
  "parse_header m = header_with (\<lambda>off. le32_at off m) (\<lambda>off. le64_at off m) m"

end
