(* ===== verification/Journal_Buffers.thy ===== *)
theory Journal_Buffers
  imports Journal_Def
begin

text \<open>
  The per-journal read buffers of \<^verbatim>\<open>journals.c\<close> and their least-recently-used order: the
  structures, \<open>buf_used\<close> with its pointer updates, and the proof that the doubly linked list
  it maintains is the list with the used buffer moved to the end.  A pointer to a buffer is
  its index in the journal's \<open>bufs\<close> array; \<open>None\<close> is a null pointer.
\<close>

section \<open>Structures\<close>

definition JOURNAL_BUF_SIZE :: nat where "JOURNAL_BUF_SIZE = 8192"
definition JOURNAL_BUF_CNT :: nat where "JOURNAL_BUF_CNT = 8"

record journal_buf =
  lru_prev :: "nat option"
  lru_next :: "nat option"
  b_offset :: u64
  b_length :: u64
  b_valid :: bool
  b_idx :: nat
  b_data :: bytes

record journal =
  j_name :: string
  j_fd :: int
  j_idx :: nat
  lru_head :: "nat option"
  lru_tail :: "nat option"
  bufs :: "journal_buf list"

definition upd_buf :: "nat \<Rightarrow> (journal_buf \<Rightarrow> journal_buf) \<Rightarrow> journal \<Rightarrow> journal" where
  "upd_buf i f j = j\<lparr>bufs := (bufs j)[i := f (bufs j ! i)]\<rparr>"

lemma upd_buf_sel [simp]:
  "j_name (upd_buf i f j) = j_name j" "j_fd (upd_buf i f j) = j_fd j"
  "j_idx (upd_buf i f j) = j_idx j" "lru_head (upd_buf i f j) = lru_head j"
  "lru_tail (upd_buf i f j) = lru_tail j"
  "length (bufs (upd_buf i f j)) = length (bufs j)"
  by (simp_all add: upd_buf_def)

lemma bufs_upd_buf: "bufs (upd_buf i f j) = (bufs j)[i := f (bufs j ! i)]"
  by (simp add: upd_buf_def)

definition buf_used :: "journal \<Rightarrow> nat \<Rightarrow> journal res" where
  "buf_used j buf =
     (if lru_tail j = Some buf then Ok j
      else
        let j1 = (case lru_prev (bufs j ! buf) of
              Some p \<Rightarrow> upd_buf p (\<lambda>b. b\<lparr>lru_next := lru_next (bufs j ! buf)\<rparr>) j
            | None \<Rightarrow> j\<lparr>lru_head := lru_next (bufs j ! buf)\<rparr>)
        in case lru_next (bufs j1 ! buf) of
             None \<Rightarrow> Fail NullDeref
           | Some n \<Rightarrow>
               let j2 = upd_buf n (\<lambda>b. b\<lparr>lru_prev := lru_prev (bufs j1 ! buf)\<rparr>) j1;
                   j3 = upd_buf buf (\<lambda>b. b\<lparr>lru_next := None\<rparr>) j2
               in case lru_tail j3 of
                    None \<Rightarrow> Fail NullDeref
                  | Some t \<Rightarrow>
                      let j4 = upd_buf t (\<lambda>b. b\<lparr>lru_next := Some buf\<rparr>) j3;
                          j5 = upd_buf buf (\<lambda>b. b\<lparr>lru_prev := lru_tail j4\<rparr>) j4
                      in Ok (j5\<lparr>lru_tail := Some buf\<rparr>))"

section \<open>The list the pointers represent\<close>

fun first_or :: "nat list \<Rightarrow> nat option \<Rightarrow> nat option" where
  "first_or [] n = n"
| "first_or (x # xs) n = Some x"

fun last_or :: "nat option \<Rightarrow> nat list \<Rightarrow> nat option" where
  "last_or p [] = p"
| "last_or p (x # xs) = last_or (Some x) xs"

text \<open>\<open>lseg bs p xs n\<close>: \<open>xs\<close> is a segment of the list, entered from \<open>p\<close> and leaving to \<open>n\<close>.\<close>

fun lseg :: "journal_buf list \<Rightarrow> nat option \<Rightarrow> nat list \<Rightarrow> nat option \<Rightarrow> bool" where
  "lseg bs p [] n = True"
| "lseg bs p (x # xs) n =
     (x < length bs \<and> lru_prev (bs ! x) = p \<and> lru_next (bs ! x) = first_or xs n \<and>
      lseg bs (Some x) xs n)"

definition lru_list :: "journal \<Rightarrow> nat list \<Rightarrow> bool" where
  "lru_list j xs \<longleftrightarrow> lseg (bufs j) None xs None \<and> distinct xs \<and>
     lru_head j = first_or xs None \<and> lru_tail j = last_or None xs"

lemma last_or_append [simp]: "last_or p (xs @ ys) = last_or (last_or p xs) ys"
  by (induction xs arbitrary: p) auto

lemma first_or_append [simp]: "first_or (xs @ ys) n = first_or xs (first_or ys n)"
  by (cases xs) auto

lemma last_or_eq_Some: "last_or None xs = Some t \<Longrightarrow> \<exists>ys. xs = ys @ [t]"
  by (cases xs rule: rev_cases) auto

lemma lseg_append:
  "lseg bs p (xs @ ys) n \<longleftrightarrow> lseg bs p xs (first_or ys n) \<and> lseg bs (last_or p xs) ys n"
  by (induction xs arbitrary: p) auto

lemma lseg_update_outside: "i \<notin> set xs \<Longrightarrow> lseg (bs[i := b]) p xs n = lseg bs p xs n"
  by (induction xs arbitrary: p) auto

lemma lseg_set_next:
  assumes "lseg bs p (xs @ [x]) n" and "x \<notin> set xs"
  shows "lseg (bs[x := (bs ! x)\<lparr>lru_next := n'\<rparr>]) p (xs @ [x]) n'"
  using assms by (auto simp: lseg_append lseg_update_outside)

lemma lseg_set_prev:
  assumes "lseg bs p (x # xs) n" and "x \<notin> set xs"
  shows "lseg (bs[x := (bs ! x)\<lparr>lru_prev := p'\<rparr>]) p' (x # xs) n"
  using assms by (auto simp: lseg_update_outside)

lemma lseg_set: "lseg bs p xs n \<Longrightarrow> set xs \<subseteq> {..<length bs}"
  by (induction xs arbitrary: p) auto

text \<open>
  What \<open>buf_used\<close> does to the links when the buffer is not the tail: unlink it, then append it.
  The first lemma is the unlinking; the second the whole operation.
\<close>

definition unlink_bufs :: "journal_buf list \<Rightarrow> nat \<Rightarrow> journal_buf list" where
  "unlink_bufs bs x =
     (let b1 = (case lru_prev (bs ! x) of Some p \<Rightarrow> bs[p := (bs ! p)\<lparr>lru_next := lru_next (bs ! x)\<rparr>]
                | None \<Rightarrow> bs)
      in case lru_next (b1 ! x) of Some n \<Rightarrow> b1[n := (b1 ! n)\<lparr>lru_prev := lru_prev (b1 ! x)\<rparr>]
         | None \<Rightarrow> b1)"

lemma lseg_unlink:
  assumes "lseg bs None (ys @ x # z # zs) None" and "distinct (ys @ x # z # zs)"
  shows "lseg (unlink_bufs bs x) None (ys @ z # zs) None"
proof (cases ys rule: rev_cases)
  case Nil
  then show ?thesis
    using assms by (auto simp: unlink_bufs_def Let_def lseg_update_outside)
next
  case (snoc us u)
  from assms snoc show ?thesis
    by (auto simp: unlink_bufs_def Let_def lseg_append lseg_update_outside)
qed

lemma lseg_push_back:
  assumes "lseg bs None us None" and "distinct us" and "last_or None us = Some t"
    and "x \<notin> set us" and "x < length bs"
  shows "lseg (((bs[x := (bs ! x)\<lparr>lru_next := None\<rparr>])[t := (bs ! t)\<lparr>lru_next := Some x\<rparr>])
      [x := (bs ! x)\<lparr>lru_next := None, lru_prev := Some t\<rparr>]) None (us @ [x]) None"
proof -
  obtain vs where us: "us = vs @ [t]"
    using last_or_eq_Some [OF assms(3)] by blast
  with assms(4) have "t \<noteq> x" by auto
  then show ?thesis
    using assms unfolding us
    by (auto simp: lseg_append lseg_update_outside list_update_swap nth_list_update)
qed

lemma last_or_nonempty: "us \<noteq> [] \<Longrightarrow> last_or p us = Some (last us)"
  by (induction us arbitrary: p) auto

text \<open>The payload of a buffer: everything but its two links, which is all \<open>buf_used\<close> writes.\<close>

definition payload :: "journal_buf \<Rightarrow> u64 \<times> u64 \<times> bool \<times> nat \<times> bytes" where
  "payload b = (b_offset b, b_length b, b_valid b, b_idx b, b_data b)"

lemma map_payload_update:
  "payload b = payload (bs ! i) \<Longrightarrow> map payload (bs[i := b]) = map payload bs"
  by (cases "i < length bs") (simp_all add: map_update list_update_same_conv list_update_beyond)

lemma payload_links [simp]:
  "payload (b\<lparr>lru_prev := p\<rparr>) = payload b" "payload (b\<lparr>lru_next := n\<rparr>) = payload b"
  by (simp_all add: payload_def)

lemma map_payload_upd_buf:
  "(\<And>b. payload (f b) = payload b) \<Longrightarrow> map payload (bufs (upd_buf i f j)) = map payload (bufs j)"
  by (simp add: bufs_upd_buf map_payload_update)

lemma buf_used_frame:
  assumes "buf_used j x = Ok j'"
  shows "map payload (bufs j') = map payload (bufs j)"
    and "j_name j' = j_name j" and "j_fd j' = j_fd j" and "j_idx j' = j_idx j"
  using assms
  by (auto simp: buf_used_def Let_def map_payload_upd_buf split: if_splits option.splits)

lemma buf_used_move:
  assumes xs: "lru_list j xs" and split: "xs = ys @ x # z # zs"
  shows "\<exists>j'. buf_used j x = Ok j' \<and> lru_list j' (ys @ z # zs @ [x])"
proof -
  let ?us = "ys @ z # zs"
  let ?bs = "unlink_bufs (bufs j) x"
  have seg: "lseg (bufs j) None (ys @ x # z # zs) None" and dist: "distinct (ys @ x # z # zs)"
    and head: "lru_head j = first_or (ys @ x # z # zs) None"
    and tail: "lru_tail j = last_or None (ys @ x # z # zs)"
    using xs split by (auto simp: lru_list_def)
  obtain t where t: "last_or None ?us = Some t" and t_in: "t \<in> set ?us"
    using last_or_nonempty [of ?us None] last_in_set [of ?us] by fastforce
  then have tail_t: "lru_tail j = Some t" and "t \<noteq> x" using tail dist by auto
  have nx: "lru_next (bufs j ! x) = Some z" and px: "lru_prev (bufs j ! x) = last_or None ys"
    and x_len: "x < length (bufs j)"
    using seg by (auto simp: lseg_append)
  have len: "length ?bs = length (bufs j)"
    by (simp add: unlink_bufs_def Let_def split: option.splits)
  have pos: "p \<noteq> x" if "last_or None ys = Some p" for p
    using last_or_eq_Some [OF that] dist by auto
  let ?new = "((?bs[x := (?bs ! x)\<lparr>lru_next := None\<rparr>])[t := (?bs ! t)\<lparr>lru_next := Some x\<rparr>])
      [x := (?bs ! x)\<lparr>lru_next := None, lru_prev := Some t\<rparr>]"
  have seg': "lseg ?new None (?us @ [x]) None"
    by (rule lseg_push_back [OF lseg_unlink [OF seg dist] _ t]) (use dist x_len len in auto)
  obtain j' where "buf_used j x = Ok j'" and "bufs j' = ?new" and "lru_tail j' = Some x"
    and "lru_head j' = first_or (?us @ [x]) None"
  proof (cases "last_or None ys")
    case None
    then have "ys = []" by (cases ys rule: rev_cases) auto
    then show ?thesis
      using that \<open>t \<noteq> x\<close> tail_t nx px x_len dist head
      by (auto simp: buf_used_def Let_def upd_buf_def unlink_bufs_def nth_list_update)
  next
    case (Some p)
    then obtain ys' where ys: "ys = ys' @ [p]" using last_or_eq_Some by blast
    then show ?thesis
      using that \<open>t \<noteq> x\<close> tail_t nx px x_len dist head pos [OF Some] Some
      by (auto simp: buf_used_def Let_def upd_buf_def unlink_bufs_def nth_list_update)
  qed
  then show ?thesis
    using seg' dist by (auto simp: lru_list_def)
qed

text \<open>
  The abstract operation: using a buffer moves it to the end of the list.
\<close>

definition lru_touch :: "nat \<Rightarrow> nat list \<Rightarrow> nat list" where
  "lru_touch x xs = remove1 x xs @ [x]"

lemma buf_used_lru_touch:
  assumes "lru_list j xs" and "x \<in> set xs"
  shows "\<exists>j'. buf_used j x = Ok j' \<and> lru_list j' (lru_touch x xs)"
proof -
  obtain ys rest where xs: "xs = ys @ x # rest" and notin: "x \<notin> set ys"
    using split_list_first [OF assms(2)] by blast
  show ?thesis
  proof (cases rest)
    case Nil
    then have "lru_tail j = Some x" using assms(1) xs by (simp add: lru_list_def)
    then show ?thesis
      using assms(1) xs Nil notin by (simp add: buf_used_def lru_touch_def remove1_append)
  next
    case (Cons z zs)
    then show ?thesis
      using buf_used_move [OF assms(1), of ys x z zs] xs notin
      by (simp add: lru_touch_def remove1_append)
  qed
qed

lemma lru_touch_set [simp]: "x \<in> set xs \<Longrightarrow> distinct xs \<Longrightarrow> set (lru_touch x xs) = set xs"
  by (auto simp: lru_touch_def)

lemma lru_touch_distinct [simp]: "distinct xs \<Longrightarrow> distinct (lru_touch x xs)"
  by (auto simp: lru_touch_def)

lemma lru_touch_length [simp]: "x \<in> set xs \<Longrightarrow> length (lru_touch x xs) = length xs"
  using length_pos_if_in_set [of x xs] by (simp add: lru_touch_def length_remove1)

section \<open>The list as it is set up when a journal is opened\<close>

text \<open>A \<open>_journal_t\<close> as \<open>calloc\<close> leaves it, and the loop of \<open>opened_journal\<close> that links its buffers.\<close>

definition zero_buf :: journal_buf where
  "zero_buf = \<lparr>lru_prev = None, lru_next = None, b_offset = 0, b_length = 0, b_valid = False,
     b_idx = 0, b_data = replicate JOURNAL_BUF_SIZE 0\<rparr>"

definition calloc_journal :: "string \<Rightarrow> journal" where
  "calloc_journal name = \<lparr>j_name = name, j_fd = 0, j_idx = 0, lru_head = None, lru_tail = None,
     bufs = replicate JOURNAL_BUF_CNT zero_buf\<rparr>"

definition link_buf :: "nat \<Rightarrow> journal \<Rightarrow> journal" where
  "link_buf i j =
     (let j1 = (case lru_tail j of Some t \<Rightarrow> upd_buf t (\<lambda>b. b\<lparr>lru_next := Some i\<rparr>) j | None \<Rightarrow> j);
          j2 = upd_buf i (\<lambda>b. b\<lparr>lru_prev := lru_tail j1\<rparr>) j1
      in j2\<lparr>lru_tail := Some i\<rparr>)"

definition link_bufs :: "journal \<Rightarrow> journal" where
  "link_bufs j = fold link_buf [1..<JOURNAL_BUF_CNT] (j\<lparr>lru_head := Some 0, lru_tail := Some 0\<rparr>)"

lemma link_buf_frame:
  "map payload (bufs (link_buf i j)) = map payload (bufs j)"
  "j_name (link_buf i j) = j_name j" "j_fd (link_buf i j) = j_fd j" "j_idx (link_buf i j) = j_idx j"
  by (auto simp: link_buf_def Let_def map_payload_upd_buf split: option.splits)

lemma fold_link_buf_frame:
  "map payload (bufs (fold link_buf is j)) = map payload (bufs j)"
  "j_name (fold link_buf is j) = j_name j" "j_fd (fold link_buf is j) = j_fd j"
  "j_idx (fold link_buf is j) = j_idx j"
  by (induction "is" arbitrary: j) (simp_all add: link_buf_frame)

lemma link_bufs_frame:
  "map payload (bufs (link_bufs j)) = map payload (bufs j)"
  "j_name (link_bufs j) = j_name j" "j_fd (link_bufs j) = j_fd j" "j_idx (link_bufs j) = j_idx j"
  by (simp_all add: link_bufs_def fold_link_buf_frame)

lemma link_buf_append:
  assumes "lru_list j us" and "us \<noteq> []" and "x \<notin> set us" and "x < length (bufs j)"
    and "lru_next (bufs j ! x) = None"
  shows "lru_list (link_buf x j) (us @ [x])"
proof -
  obtain vs t where us: "us = vs @ [t]" using assms(2) by (cases us rule: rev_cases) auto
  then have t: "lru_tail j = Some t" and "t \<noteq> x" using assms(1,3) by (auto simp: lru_list_def)
  then show ?thesis
    using assms us
    by (auto simp: lru_list_def link_buf_def Let_def upd_buf_def lseg_append lseg_update_outside
      list_update_swap nth_list_update)
qed

lemma link_bufs_lru:
  assumes len: "length (bufs j) = JOURNAL_BUF_CNT"
    and nulls: "\<forall>b\<in>set (bufs j). lru_prev b = None \<and> lru_next b = None"
  shows "lru_list (link_bufs j) [0..<JOURNAL_BUF_CNT]"
proof -
  let ?j0 = "j\<lparr>lru_head := Some 0, lru_tail := Some 0\<rparr>"
  have "lru_list (fold link_buf [1..<Suc k] ?j0) [0..<Suc k] \<and>
      length (bufs (fold link_buf [1..<Suc k] ?j0)) = JOURNAL_BUF_CNT \<and>
      (\<forall>i>k. i < JOURNAL_BUF_CNT \<longrightarrow> lru_next (bufs (fold link_buf [1..<Suc k] ?j0) ! i) = None)"
    if "k < JOURNAL_BUF_CNT" for k
    using that
  proof (induction k)
    case 0
    then show ?case
      using len nulls by (auto simp: lru_list_def)
  next
    case (Suc k)
    let ?jk = "fold link_buf [1..<Suc k] ?j0"
    have step: "fold link_buf [1..<Suc (Suc k)] ?j0 = link_buf (Suc k) ?jk" by simp
    have IH: "lru_list ?jk [0..<Suc k]" "length (bufs ?jk) = JOURNAL_BUF_CNT"
        "\<forall>i>k. i < JOURNAL_BUF_CNT \<longrightarrow> lru_next (bufs ?jk ! i) = None"
      using Suc by auto
    then have list: "lru_list (link_buf (Suc k) ?jk) ([0..<Suc k] @ [Suc k])"
      using Suc.prems by (intro link_buf_append) auto
    have tail: "lru_tail ?jk = Some k"
      using IH(1) by (simp add: lru_list_def)
    show ?case
      unfolding step using list IH Suc.prems tail
      by (auto simp: link_buf_def Let_def bufs_upd_buf nth_list_update)
  qed
  from this [of "JOURNAL_BUF_CNT - 1"] show ?thesis
    by (simp add: link_bufs_def JOURNAL_BUF_CNT_def)
qed

end
