(* ===== verification/Journal_Read.thy ===== *)
theory Journal_Read
  imports Journal_Buffers
begin

text \<open>
  \<open>journal_read\<close> and \<open>buf_got_read\<close> of \<^verbatim>\<open>journals.c\<close>: reads served from the buffers, reads
  queued on io_uring into the least recently used buffer, and plain reads that do not fit a
  buffer.  io_uring and libiou are not part of the sources: a host gives the byte order,
  whether \<open>iou_op_new\<close> succeeds, and the result and bytes of a read of a file.
\<close>

section \<open>Issuing and completing a read\<close>

record host =
  host_be :: bool
  host_op_new :: "u64 \<Rightarrow> bool" \<comment> \<open>\<open>iou_op_new\<close> for a read at this offset is not null\<close>
  host_kread :: "nat \<Rightarrow> u64 \<Rightarrow> u64 \<Rightarrow> int \<times> bytes"
    \<comment> \<open>registered file, offset, length: \<open>op->result\<close> and the bytes transferred\<close>

text \<open>The submission queue entry, and the arguments bound in the \<open>buf_got_read\<close> thunk.\<close>

datatype read_op =
    ReadFixed (op_file: nat) (op_dst: nat) (op_len: u64) (op_off: u64) (op_buf_index: nat)
  | ReadPlain (op_file: nat) (op_len: u64) (op_off: u64)

record pending =
  p_op :: read_op
  p_offset :: u64
  p_length :: u64
  p_buf :: "nat option"

datatype read_step =
    Hit journal bytes \<comment> \<open>copied from a buffer, closure dispatched at once\<close>
  | Queued journal pending

definition buf_hit :: "u64 \<Rightarrow> u64 \<Rightarrow> journal_buf \<Rightarrow> bool" where
  "buf_hit offset len b \<longleftrightarrow>
     b_valid b \<and> b_offset b \<le> offset \<and> offset + len \<le> b_offset b + b_length b"

definition find_hit :: "journal \<Rightarrow> u64 \<Rightarrow> u64 \<Rightarrow> nat option" where
  "find_hit j offset len =
     List.find (\<lambda>i. buf_hit offset len (bufs j ! i)) [0..<JOURNAL_BUF_CNT]"

definition journal_read :: "bool \<Rightarrow> journal \<Rightarrow> u64 \<Rightarrow> u64 \<Rightarrow> read_step res" where
  "journal_read op_new j offset len =
     (if len = 0 then Fail AssertFail
      else if unat len \<le> JOURNAL_BUF_SIZE then
        (case find_hit j offset len of
           Some i \<Rightarrow>
             res_bind (buf_used j i) (\<lambda>j'.
             res_bind (mem_read (b_data (bufs j' ! i)) (unat (offset - b_offset (bufs j' ! i)))
                         (unat len)) (\<lambda>dest. Ok (Hit j' dest)))
         | None \<Rightarrow>
             (case lru_head j of
                None \<Rightarrow> Fail AssertFail
              | Some buf \<Rightarrow>
                  res_bind (buf_used j buf) (\<lambda>j1.
                  let j2 = upd_buf buf (\<lambda>b. b\<lparr>b_valid := False\<rparr>) j1 in
                  if \<not> op_new then Fail (Errno (- ENOMEM))
                  else Ok (Queued j2
                    \<lparr>p_op = ReadFixed (j_idx j2) buf (of_nat JOURNAL_BUF_SIZE) offset
                               (b_idx (bufs j2 ! buf)),
                     p_offset = offset, p_length = len, p_buf = Some buf\<rparr>))))
      else if \<not> op_new then Fail (Errno (- ENOMEM))
      else Ok (Queued j
        \<lparr>p_op = ReadPlain (j_idx j) len offset, p_offset = offset, p_length = len, p_buf = None\<rparr>))"

text \<open>The transfer by the kernel: a fixed read fills the start of the buffer's data.\<close>

definition kernel_fill :: "read_op \<Rightarrow> bytes \<Rightarrow> journal \<Rightarrow> journal" where
  "kernel_fill op bs j =
     (case op of
        ReadFixed f dst n off i \<Rightarrow> upd_buf dst (\<lambda>b. b\<lparr>b_data := bs @ drop (length bs) (b_data b)\<rparr>) j
      | ReadPlain f n off \<Rightarrow> j)"

text \<open>
  Completion.  \<open>dest\<close> is what a plain read has put at the destination; the result is what the
  closure finds there.
\<close>

definition buf_got_read :: "int \<Rightarrow> pending \<Rightarrow> bytes \<Rightarrow> journal \<Rightarrow> (bytes \<times> journal) res" where
  "buf_got_read result p dest j =
     (if result < 0 then Fail (Errno result)
      else if (word_of_int result :: u64) < p_length p then Fail (Errno (- EINVAL))
      else case p_buf p of
             Some buf \<Rightarrow>
               res_map (\<lambda>out. (out, upd_buf buf (\<lambda>b. b\<lparr>b_length := word_of_int result,
                                      b_offset := p_offset p, b_valid := True\<rparr>) j))
                 (mem_read (b_data (bufs j ! buf)) 0 (unat (p_length p)))
           | None \<Rightarrow> Ok (dest, j))"

text \<open>
  One read of a chain that waits for it: issue, let the kernel complete it, continue.  Every
  user of \<open>journal_read\<close> in the sources runs its reads of a journal this way, one at a time.
\<close>

definition read_chain :: "host \<Rightarrow> journal \<Rightarrow> u64 \<Rightarrow> u64 \<Rightarrow> (bytes \<times> journal) res" where
  "read_chain h j offset len =
     res_bind (journal_read (host_op_new h offset) j offset len) (\<lambda>s.
       case s of
         Hit j' bs \<Rightarrow> Ok (bs, j')
       | Queued j' p \<Rightarrow>
           (case host_kread h (op_file (p_op p)) (op_off (p_op p)) (op_len (p_op p)) of
              (result, bs) \<Rightarrow> buf_got_read result p bs (kernel_fill (p_op p) bs j')))"

section \<open>What the buffers hold\<close>

text \<open>
  \<open>holds content b\<close>: a valid buffer's first \<open>length\<close> bytes are the file's bytes from \<open>offset\<close> on.
\<close>

definition holds :: "bytes \<Rightarrow> journal_buf \<Rightarrow> bool" where
  "holds content b \<longleftrightarrow> length (b_data b) = JOURNAL_BUF_SIZE \<and>
     (b_valid b \<longrightarrow> unat (b_length b) \<le> JOURNAL_BUF_SIZE \<and>
        unat (b_offset b) + unat (b_length b) \<le> length content \<and>
        take (unat (b_length b)) (b_data b) = segment (unat (b_offset b)) (unat (b_length b)) content)"

definition coherent :: "bytes \<Rightarrow> journal \<Rightarrow> bool" where
  "coherent content j \<longleftrightarrow> length (bufs j) = JOURNAL_BUF_CNT \<and>
     (\<exists>xs. lru_list j xs \<and> set xs = {..<JOURNAL_BUF_CNT}) \<and>
     list_all (holds content) (bufs j)"

text \<open>
  The documented behaviour of a read of a regular file of this content: a negative error
  number, or the number of bytes read, which are the file's from the offset on; and, where
  the whole range lies inside the file, or reading reaches its end, everything there is.
\<close>

definition reads_file :: "host \<Rightarrow> bytes \<Rightarrow> bool" where
  "reads_file h content \<longleftrightarrow> length content < 2 ^ 63 \<and>
     (\<forall>f off n result bs. host_kread h f off n = (result, bs) \<longrightarrow>
        result < 0 \<or> (result = int (length bs) \<and> length bs \<le> unat n \<and>
                      bs = segment (unat off) (length bs) content))"

lemma reads_fileD:
  assumes "reads_file h content" and "host_kread h f off n = (r, data)" and "\<not> r < 0"
  shows "r = int (length data)" and "length data \<le> unat n"
    and "data = segment (unat off) (length data) content"
proof -
  have "r < 0 \<or> (r = int (length data) \<and> length data \<le> unat n \<and>
      data = segment (unat off) (length data) content)"
    using assms(1,2) unfolding reads_file_def by blast
  then show "r = int (length data)" and "length data \<le> unat n"
    and "data = segment (unat off) (length data) content"
    using assms(3) by blast+
qed

lemma unat_buf_size [simp]: "unat (of_nat JOURNAL_BUF_SIZE :: u64) = JOURNAL_BUF_SIZE"
  by (simp add: JOURNAL_BUF_SIZE_def)

text \<open>The most one read transfers on Linux (\<open>MAX_RW_COUNT\<close>).\<close>

definition max_rw_count :: nat where "max_rw_count = 2147479552"

definition reads_fully :: "host \<Rightarrow> bytes \<Rightarrow> bool" where
  "reads_fully h content \<longleftrightarrow>
     (\<forall>off. host_op_new h off) \<and>
     (\<forall>f off n. unat n \<le> max_rw_count \<longrightarrow> host_kread h f off n =
        (int (length (segment (unat off) (unat n) content)), segment (unat off) (unat n) content))"

text \<open>A host that reads a file of this content, each request as far as one read goes.\<close>

definition file_host :: "bool \<Rightarrow> bytes \<Rightarrow> host" where
  "file_host be content =
     \<lparr>host_be = be, host_op_new = (\<lambda>off. True),
      host_kread = (\<lambda>f off n. let bs = segment (unat off) (min (unat n) max_rw_count) content
                              in (int (length bs), bs))\<rparr>"

lemma file_host_reads:
  "length content < 2 ^ 63 \<Longrightarrow> reads_file (file_host be content) content"
  by (auto simp: reads_file_def file_host_def segment_def min_def Let_def)

lemma file_host_fully: "reads_fully (file_host be content) content"
  by (simp add: reads_fully_def file_host_def Let_def min_absorb1)

section \<open>Coherence is kept, reads are right\<close>

fun holds_payload :: "bytes \<Rightarrow> u64 \<times> u64 \<times> bool \<times> nat \<times> bytes \<Rightarrow> bool" where
  "holds_payload content (off, len, valid, idx, data) \<longleftrightarrow> length data = JOURNAL_BUF_SIZE \<and>
     (valid \<longrightarrow> unat len \<le> JOURNAL_BUF_SIZE \<and> unat off + unat len \<le> length content \<and>
        take (unat len) data = segment (unat off) (unat len) content)"

lemma holds_payload_eq: "holds content b = holds_payload content (payload b)"
  by (simp add: holds_def payload_def)

lemma list_all_holds: "list_all (holds content) bs = list_all (holds_payload content) (map payload bs)"
  by (simp add: list_all_iff holds_payload_eq)

lemma buf_used_coherent:
  assumes "coherent content j" and "i < JOURNAL_BUF_CNT"
  shows "\<exists>j'. buf_used j i = Ok j' \<and> coherent content j' \<and> j_idx j' = j_idx j \<and>
    map payload (bufs j') = map payload (bufs j) \<and> lru_tail j' = Some i"
proof -
  obtain xs where xs: "lru_list j xs" "set xs = {..<JOURNAL_BUF_CNT}"
    using assms(1) by (auto simp: coherent_def)
  then obtain j' where j': "buf_used j i = Ok j'" "lru_list j' (lru_touch i xs)"
    using buf_used_lru_touch [OF xs(1), of i] assms(2) by auto
  have pay: "map payload (bufs j') = map payload (bufs j)"
    by (rule buf_used_frame(1) [OF j'(1)])
  then have len: "length (bufs j') = length (bufs j)"
    by (rule map_eq_imp_length_eq)
  have "set (lru_touch i xs) = {..<JOURNAL_BUF_CNT}"
    using xs assms(2) by (simp add: lru_list_def)
  then have "coherent content j'"
    using assms(1) j'(2) len pay by (auto simp: coherent_def list_all_holds)
  moreover have "lru_tail j' = Some i"
    using j'(2) by (simp add: lru_list_def lru_touch_def)
  ultimately show ?thesis
    using j'(1) buf_used_frame(4) [OF j'(1)] pay by blast
qed

lemma lseg_update_links:
  assumes "lru_prev b = lru_prev (bs ! i)" and "lru_next b = lru_next (bs ! i)"
  shows "lseg (bs[i := b]) p xs n = lseg bs p xs n"
proof -
  have "lru_prev (bs[i := b] ! x) = lru_prev (bs ! x)" "lru_next (bs[i := b] ! x) = lru_next (bs ! x)"
    for x
    using assms by (cases "x = i"; cases "i < length bs"; simp add: list_update_beyond)+
  then show ?thesis
    by (induction xs arbitrary: p) auto
qed

lemma lru_list_upd_buf:
  assumes "\<And>b. lru_prev (f b) = lru_prev b" and "\<And>b. lru_next (f b) = lru_next b"
  shows "lru_list (upd_buf i f j) xs = lru_list j xs"
  using assms by (simp add: lru_list_def bufs_upd_buf lseg_update_links)

lemma coherent_upd_buf:
  assumes "coherent content j" and "\<And>b. lru_prev (f b) = lru_prev b"
    and "\<And>b. lru_next (f b) = lru_next b"
    and "i < JOURNAL_BUF_CNT \<Longrightarrow> holds content (bufs j ! i) \<Longrightarrow> holds content (f (bufs j ! i))"
  shows "coherent content (upd_buf i f j)"
proof -
  have "list_all (holds content) ((bufs j)[i := f (bufs j ! i)])"
  proof (cases "i < length (bufs j)")
    case True
    then show ?thesis
      using assms(1,4) by (auto simp: coherent_def list_all_length nth_list_update)
  next
    case False
    then show ?thesis
      using assms(1) by (simp add: coherent_def list_update_beyond)
  qed
  then show ?thesis
    using assms(1) by (simp add: coherent_def lru_list_upd_buf assms(2,3)) (simp add: bufs_upd_buf)
qed

lemma coherent_holds: "coherent content j \<Longrightarrow> i < JOURNAL_BUF_CNT \<Longrightarrow> holds content (bufs j ! i)"
  by (auto simp: coherent_def list_all_length)

lemma coherent_head:
  assumes "coherent content j"
  obtains buf where "lru_head j = Some buf" and "buf < JOURNAL_BUF_CNT"
proof -
  obtain xs where xs: "lru_list j xs" "set xs = {..<JOURNAL_BUF_CNT}"
    using assms by (auto simp: coherent_def)
  then have "0 \<in> set xs" by (simp add: JOURNAL_BUF_CNT_def)
  then obtain y ys where "xs = y # ys"
    by (cases xs) auto
  then show ?thesis
    using that xs by (auto simp: lru_list_def)
qed

lemma find_hit_Some:
  "find_hit j off len = Some i \<Longrightarrow> i < JOURNAL_BUF_CNT \<and> buf_hit off len (bufs j ! i)"
  by (auto simp: find_hit_def find_Some_iff)

text \<open>A hit that stays inside the buffer gives the file's bytes.\<close>

lemma hit_in_buffer:
  assumes "holds content b" and "buf_hit off len b" and "length content < 2 ^ 63"
    and "unat (off - b_offset b) + unat len \<le> JOURNAL_BUF_SIZE"
  shows "unat (off - b_offset b) + unat len \<le> unat (b_length b)"
    and "unat off = unat (b_offset b) + unat (off - b_offset b)"
proof -
  let ?d = "unat (off - b_offset b)"
  have le: "unat (b_offset b) \<le> unat off"
    and fits: "unat (b_offset b) + unat (b_length b) \<le> length content"
    and sum: "unat (off + len) \<le> unat (b_offset b + b_length b)"
    using assms(1,2) by (auto simp: buf_hit_def holds_def word_le_nat_alt)
  show off: "unat off = unat (b_offset b) + ?d"
    using le by (simp add: unat_sub word_le_nat_alt)
  have "unat (b_offset b + b_length b) = unat (b_offset b) + unat (b_length b)"
    using fits assms(3) by (intro unat_add_no_wrap) simp
  moreover have "unat (off + len) = unat off + unat len"
    using off fits assms(3,4) by (intro unat_add_no_wrap) (simp add: JOURNAL_BUF_SIZE_def)
  ultimately show "?d + unat len \<le> unat (b_length b)"
    using sum off by simp
qed

lemma hit_bytes:
  assumes "holds content b" and "buf_hit off len b" and "length content < 2 ^ 63"
    and "mem_read (b_data b) (unat (off - b_offset b)) (unat len) = Ok bs"
  shows "bs = segment (unat off) (unat len) content \<and> length bs = unat len"
proof -
  let ?d = "unat (off - b_offset b)"
  have len: "length (b_data b) = JOURNAL_BUF_SIZE" and valid: "b_valid b"
    using assms(1,2) by (auto simp: holds_def buf_hit_def)
  have bs: "bs = segment ?d (unat len) (b_data b)" and d: "?d + unat len \<le> JOURNAL_BUF_SIZE"
    using assms(4) len by (auto simp: mem_read_Ok_iff)
  note in_buf = hit_in_buffer [OF assms(1-3) d]
  have "take (unat (b_length b)) (b_data b)
      = segment (unat (b_offset b)) (unat (b_length b)) content"
    using assms(1) valid by (simp add: holds_def)
  moreover have "bs = segment ?d (unat len) (take (unat (b_length b)) (b_data b))"
    using bs in_buf(1) by (simp add: segment_def drop_take min_def)
  ultimately have "bs = segment (unat (b_offset b) + ?d) (unat len) content"
    using in_buf(1) by (simp add: segment_segment)
  moreover have "length bs = unat len"
    using bs len d by simp
  ultimately show ?thesis
    using in_buf(2) by simp
qed

lemma kernel_fill_coherent:
  assumes "coherent content j" and "buf < JOURNAL_BUF_CNT" and "\<not> b_valid (bufs j ! buf)"
    and "length bs \<le> JOURNAL_BUF_SIZE"
  shows "coherent content (kernel_fill (ReadFixed f buf n off i) bs j)"
    and "b_data (bufs (kernel_fill (ReadFixed f buf n off i) bs j) ! buf)
      = bs @ drop (length bs) (b_data (bufs j ! buf))"
    and "\<not> b_valid (bufs (kernel_fill (ReadFixed f buf n off i) bs j) ! buf)"
proof -
  show "coherent content (kernel_fill (ReadFixed f buf n off i) bs j)"
    unfolding kernel_fill_def read_op.case
    by (rule coherent_upd_buf [OF assms(1)]) (use assms(3,4) in \<open>auto simp: holds_def\<close>)
  have "buf < length (bufs j)" using assms(1,2) by (simp add: coherent_def)
  then show "b_data (bufs (kernel_fill (ReadFixed f buf n off i) bs j) ! buf)
      = bs @ drop (length bs) (b_data (bufs j ! buf))"
    and "\<not> b_valid (bufs (kernel_fill (ReadFixed f buf n off i) bs j) ! buf)"
    using assms(3) by (simp_all add: kernel_fill_def bufs_upd_buf)
qed

lemma word_of_int_less_iff:
  "m < 2 ^ 64 \<Longrightarrow> ((word_of_int (int m) :: u64) < w) = (m < unat w)"
  by (simp add: word_less_nat_alt unat_of_nat take_bit_nat_eq_self)

lemma unat_word_of_int_len: "m < 2 ^ 64 \<Longrightarrow> unat (word_of_int (int m) :: u64) = m"
  by (simp add: unat_of_nat take_bit_nat_eq_self)

lemma got_read_coherent:
  assumes coh: "coherent content j" and buf: "p_buf p = Some buf" "buf < JOURNAL_BUF_CNT"
    and data: "take (length bs) (b_data (bufs j ! buf)) = bs"
    and cont: "bs = segment (unat (p_offset p)) (length bs) content"
    and small: "length bs \<le> JOURNAL_BUF_SIZE" and pos: "p_length p \<noteq> 0"
    and got: "buf_got_read (int (length bs)) p dest j = Ok (out, j')"
  shows "out = segment (unat (p_offset p)) (unat (p_length p)) content"
    and "length out = unat (p_length p)"
    and "coherent content j'" and "j_idx j' = j_idx j"
proof -
  let ?off = "unat (p_offset p)" and ?len = "unat (p_length p)" and ?data = "b_data (bufs j ! buf)"
  have lt: "length bs < 2 ^ 64" using small by (simp add: JOURNAL_BUF_SIZE_def)
  note [simp] = unat_word_of_int_len [OF lt, simplified] word_of_int_less_iff [OF lt, simplified]
  have len: "?len \<le> length bs" and out: "out = segment 0 ?len ?data" "?len \<le> length ?data"
    and j': "j' = upd_buf buf (\<lambda>b. b\<lparr>b_length := word_of_int (int (length bs)),
        b_offset := p_offset p, b_valid := True\<rparr>) j"
    using got buf by (auto simp: buf_got_read_def res_map_Ok_iff mem_read_Ok_iff split: if_splits)
  have "out = take ?len (take (length bs) ?data)"
    using out len by (simp add: segment_def min_absorb1)
  also have "\<dots> = take ?len (segment ?off (length bs) content)"
    by (subst data, subst cont) simp
  also have "\<dots> = segment ?off ?len content" using len by (rule take_segment)
  finally show "out = segment ?off ?len content" .
  show "length out = ?len" using out by simp
  have "0 < ?len" using pos by (simp add: unat_gt_0)
  with len have "0 < length bs" by linarith
  moreover
  have "length bs = min (length bs) (length content - ?off)"
    using arg_cong [OF cont, of length] by simp
  then have "length bs \<le> length content - ?off" by (metis min.cobounded2)
  ultimately have inside: "?off + length bs \<le> length content" by linarith
  show "coherent content j'"
    unfolding j'
    by (rule coherent_upd_buf [OF coh])
      (use small inside data cont in \<open>auto simp: holds_def\<close>)
  show "j_idx j' = j_idx j" by (simp add: j')
qed

lemma journal_read_Ok_cases:
  assumes "journal_read op_new j off len = Ok s" and "coherent content j"
  obtains
    (hit) i j1 bs where "unat len \<le> JOURNAL_BUF_SIZE" "find_hit j off len = Some i"
      "buf_used j i = Ok j1" "s = Hit j1 bs"
      "mem_read (b_data (bufs j1 ! i)) (unat (off - b_offset (bufs j1 ! i))) (unat len) = Ok bs"
  | (miss) buf j1 where "unat len \<le> JOURNAL_BUF_SIZE" "find_hit j off len = None"
      "lru_head j = Some buf" "buf < JOURNAL_BUF_CNT" "buf_used j buf = Ok j1" "op_new"
      "s = Queued (upd_buf buf (\<lambda>b. b\<lparr>b_valid := False\<rparr>) j1)
        \<lparr>p_op = ReadFixed (j_idx j1) buf (of_nat JOURNAL_BUF_SIZE) off (b_idx (bufs j1 ! buf)),
         p_offset = off, p_length = len, p_buf = Some buf\<rparr>"
  | (plain) "JOURNAL_BUF_SIZE < unat len" "op_new"
      "s = Queued j \<lparr>p_op = ReadPlain (j_idx j) len off, p_offset = off, p_length = len, p_buf = None\<rparr>"
proof -
  have bidx: "b_idx (bufs (upd_buf b (\<lambda>b. b\<lparr>b_valid := False\<rparr>) k) ! b) = b_idx (bufs k ! b)" for b k
    by (cases "b < length (bufs k)") (simp_all add: bufs_upd_buf list_update_beyond)
  obtain buf where "lru_head j = Some buf" "buf < JOURNAL_BUF_CNT"
    by (rule coherent_head [OF assms(2)])
  then show ?thesis
    using assms(1) hit miss plain
    by (auto simp: journal_read_def res_bind_Ok_iff Let_def bidx not_le
      split: if_splits option.splits)
qed

lemma same_payload_nth:
  "map payload bs = map payload bs' \<Longrightarrow> i < length bs' \<Longrightarrow> payload (bs ! i) = payload (bs' ! i)"
  by (metis map_eq_imp_length_eq nth_map)

lemma buf_hit_payload:
  "payload b = payload b' \<Longrightarrow> buf_hit off len b = buf_hit off len b'"
  by (simp add: buf_hit_def payload_def)

lemma hit_step:
  assumes coh: "coherent content j" and small: "length content < 2 ^ 63"
    and found: "find_hit j off len = Some i" and used: "buf_used j i = Ok j1"
    and copy: "mem_read (b_data (bufs j1 ! i)) (unat (off - b_offset (bufs j1 ! i))) (unat len) = Ok bs"
  shows "bs = segment (unat off) (unat len) content \<and> length bs = unat len \<and>
    coherent content j1 \<and> j_idx j1 = j_idx j"
proof -
  have i: "i < JOURNAL_BUF_CNT" and hit: "buf_hit off len (bufs j ! i)"
    using find_hit_Some [OF found] by simp_all
  have coh1: "coherent content j1" and idx: "j_idx j1 = j_idx j"
    and pay: "map payload (bufs j1) = map payload (bufs j)"
    using buf_used_coherent [OF coh i] used by auto
  have "payload (bufs j1 ! i) = payload (bufs j ! i)"
    by (rule same_payload_nth [OF pay]) (use coh i in \<open>simp add: coherent_def\<close>)
  then have "buf_hit off len (bufs j1 ! i)"
    using hit buf_hit_payload by blast
  from hit_bytes [OF coherent_holds [OF coh1 i] this small copy] coh1 idx show ?thesis
    by (elim conjE, intro conjI)
qed

lemma miss_step:
  assumes coh: "coherent content j" and buf: "buf < JOURNAL_BUF_CNT"
    and used: "buf_used j buf = Ok j1"
  shows "coherent content (upd_buf buf (\<lambda>b. b\<lparr>b_valid := False\<rparr>) j1)"
    and "\<not> b_valid (bufs (upd_buf buf (\<lambda>b. b\<lparr>b_valid := False\<rparr>) j1) ! buf)"
    and "j_idx j1 = j_idx j"
proof -
  have coh1: "coherent content j1" and idx: "j_idx j1 = j_idx j"
    using buf_used_coherent [OF coh buf] used by auto
  show "coherent content (upd_buf buf (\<lambda>b. b\<lparr>b_valid := False\<rparr>) j1)"
    by (rule coherent_upd_buf [OF coh1]) (auto simp: holds_def)
  show "\<not> b_valid (bufs (upd_buf buf (\<lambda>b. b\<lparr>b_valid := False\<rparr>) j1) ! buf)"
    using coh1 buf by (simp add: coherent_def bufs_upd_buf)
  show "j_idx j1 = j_idx j" by (rule idx)
qed

text \<open>A read into the buffer \<open>buf\<close>, which has just been marked used and invalidated.\<close>

lemma read_miss_sound:
  assumes h: "reads_file h content" and coh: "coherent content j" and pos: "len \<noteq> 0"
    and buf: "buf < JOURNAL_BUF_CNT" and used: "buf_used j buf = Ok j1"
    and k: "host_kread h (j_idx j1) off (of_nat JOURNAL_BUF_SIZE) = (r, data)"
    and got: "buf_got_read r \<lparr>p_op = op, p_offset = off, p_length = len, p_buf = Some buf\<rparr> data
        (kernel_fill (ReadFixed (j_idx j1) buf n off i) data (upd_buf buf (\<lambda>b. b\<lparr>b_valid := False\<rparr>) j1)) = Ok (bs, j')"
  shows "bs = segment (unat off) (unat len) content \<and> length bs = unat len \<and>
    coherent content j' \<and> j_idx j' = j_idx j"
proof -
  let ?j2 = "upd_buf buf (\<lambda>b. b\<lparr>b_valid := False\<rparr>) j1" and ?op = "ReadFixed (j_idx j1) buf n off i"
  let ?p = "\<lparr>p_op = op, p_offset = off, p_length = len, p_buf = Some buf\<rparr>"
  have "\<not> r < 0" using got by (auto simp: buf_got_read_def)
  from reads_fileD [OF h k this]
  have r: "r = int (length data)" and len: "length data \<le> JOURNAL_BUF_SIZE"
    and data: "data = segment (unat off) (length data) content"
    by (simp_all only: unat_buf_size)
  note step = miss_step [OF coh buf used]
  note fill = kernel_fill_coherent [OF step(1) buf step(2) len]
  have got': "buf_got_read (int (length data)) ?p data (kernel_fill ?op data ?j2) = Ok (bs, j')"
    using got r by simp
  have "take (length data) (b_data (bufs (kernel_fill ?op data ?j2) ! buf)) = data"
    by (simp add: fill(2))
  note res = got_read_coherent [where p = ?p, simplified, OF fill(1) refl buf this data len pos got']
  show ?thesis
    using res(1-3) trans [OF res(4)] step(3) by (auto simp: kernel_fill_def)
qed

lemma read_plain_sound:
  assumes h: "reads_file h content" and k: "host_kread h (j_idx j) off len = (r, data)"
    and got: "buf_got_read r \<lparr>p_op = op, p_offset = off, p_length = len, p_buf = None\<rparr> data j = Ok (bs, j')"
  shows "bs = segment (unat off) (unat len) content \<and> length bs = unat len \<and> j' = j"
proof -
  have nonneg: "\<not> r < 0" and long: "\<not> (word_of_int r :: u64) < len" and out: "bs = data" "j' = j"
    using got by (auto simp: buf_got_read_def split: if_splits)
  have r: "r = int (length data)" and le: "length data \<le> unat len"
    and data: "data = segment (unat off) (length data) content"
    by (rule reads_fileD [OF h k nonneg])+
  have "length data < 2 ^ 64"
    using le_less_trans [OF le unat_u64_less] by simp
  with long r have "unat len \<le> length data"
    by (simp only: word_of_int_less_iff not_less)
  with le have "length data = unat len" by simp
  then show ?thesis using data out by simp
qed

text \<open>Whatever a waited-for read returns is the file's bytes, and the buffers stay coherent.\<close>

lemma read_chain_sound:
  assumes h: "reads_file h content" and coh: "coherent content j"
    and run: "read_chain h j off len = Ok (bs, j')"
  shows "bs = segment (unat off) (unat len) content \<and> length bs = unat len \<and>
    coherent content j' \<and> j_idx j' = j_idx j"
proof -
  have small: "length content < 2 ^ 63" using h by (simp add: reads_file_def)
  obtain s where s: "journal_read (host_op_new h off) j off len = Ok s"
    using run by (auto simp: read_chain_def res_bind_Ok_iff)
  have pos: "len \<noteq> 0" using s by (auto simp: journal_read_def)
  from s coh show ?thesis
  proof (cases rule: journal_read_Ok_cases)
    case (hit i j1 bs1)
    then have eq: "bs1 = bs" "j1 = j'" using run s by (simp_all add: read_chain_def)
    show ?thesis by (rule hit_step [OF coh small hit(2,3,5), unfolded eq])
  next
    case (miss buf j1)
    obtain r data where k: "host_kread h (j_idx j1) off (of_nat JOURNAL_BUF_SIZE) = (r, data)"
      by (cases "host_kread h (j_idx j1) off (of_nat JOURNAL_BUF_SIZE)")
    show ?thesis
      by (rule read_miss_sound [OF h coh pos miss(4,5) k]) (use run s miss k in \<open>simp add: read_chain_def\<close>)
  next
    case plain
    obtain r data where k: "host_kread h (j_idx j) off len = (r, data)"
      by (cases "host_kread h (j_idx j) off len")
    then have "buf_got_read r \<lparr>p_op = ReadPlain (j_idx j) len off, p_offset = off, p_length = len, p_buf = None\<rparr>
        data j = Ok (bs, j')"
      using run s plain by (simp add: read_chain_def kernel_fill_def)
    from read_plain_sound [OF h k this] coh show ?thesis by blast
  qed
qed

text \<open>And a read inside the file succeeds when the kernel serves it in full.\<close>

lemma find_hit_in_range:
  assumes coh: "coherent content j" and small: "length content < 2 ^ 63"
    and range: "unat off + unat len \<le> length content"
    and found: "find_hit j off len = Some i"
  shows "unat (off - b_offset (bufs j ! i)) + unat len \<le> JOURNAL_BUF_SIZE"
proof -
  let ?b = "bufs j ! i"
  have i: "i < JOURNAL_BUF_CNT" and hit: "buf_hit off len ?b"
    using find_hit_Some [OF found] by simp_all
  have holds: "holds content ?b" by (rule coherent_holds [OF coh i])
  have le: "unat (b_offset ?b) \<le> unat off"
    and fits: "unat (b_offset ?b) + unat (b_length ?b) \<le> length content"
    and sum: "unat (off + len) \<le> unat (b_offset ?b + b_length ?b)"
    and blen: "unat (b_length ?b) \<le> JOURNAL_BUF_SIZE"
    using holds hit by (auto simp: buf_hit_def holds_def word_le_nat_alt)
  have "unat (b_offset ?b + b_length ?b) = unat (b_offset ?b) + unat (b_length ?b)"
    using fits small by (intro unat_add_no_wrap) simp
  moreover have "unat (off + len) = unat off + unat len"
    using range small by (intro unat_add_no_wrap) simp
  moreover have "unat (off - b_offset ?b) = unat off - unat (b_offset ?b)"
    using le by (simp add: unat_sub word_le_nat_alt)
  ultimately show ?thesis using sum le blen by linarith
qed

lemma hit_returns:
  assumes coh: "coherent content j" and small: "length content < 2 ^ 63" and pos: "len \<noteq> 0"
    and range: "unat off + unat len \<le> length content" and len: "unat len \<le> JOURNAL_BUF_SIZE"
    and found: "find_hit j off len = Some i"
  shows "\<exists>bs j'. read_chain h j off len = Ok (bs, j')"
proof -
  have i: "i < JOURNAL_BUF_CNT" using find_hit_Some [OF found] by simp
  obtain j1 where j1: "buf_used j i = Ok j1" "coherent content j1"
    and pay: "map payload (bufs j1) = map payload (bufs j)"
    using buf_used_coherent [OF coh i] by blast
  have "payload (bufs j1 ! i) = payload (bufs j ! i)"
    by (rule same_payload_nth [OF pay]) (use coh i in \<open>simp add: coherent_def\<close>)
  then have "b_offset (bufs j1 ! i) = b_offset (bufs j ! i)"
    by (simp add: payload_def)
  moreover have "length (b_data (bufs j1 ! i)) = JOURNAL_BUF_SIZE"
    using coherent_holds [OF j1(2) i] by (simp add: holds_def)
  ultimately show ?thesis
    using find_hit_in_range [OF coh small range found] pos len found j1(1)
    by (simp add: read_chain_def journal_read_def mem_read_in)
qed

lemma miss_returns:
  assumes full: "reads_fully h content" and coh: "coherent content j" and pos: "len \<noteq> 0"
    and range: "unat off + unat len \<le> length content" and len: "unat len \<le> JOURNAL_BUF_SIZE"
    and none: "find_hit j off len = None"
  shows "\<exists>bs j'. read_chain h j off len = Ok (bs, j')"
proof -
  have op: "host_op_new h off" using full by (simp add: reads_fully_def)
  obtain buf where buf: "lru_head j = Some buf" "buf < JOURNAL_BUF_CNT"
    by (rule coherent_head [OF coh])
  obtain j1 where j1: "buf_used j buf = Ok j1" using buf_used_coherent [OF coh buf(2)] by blast
  let ?j2 = "upd_buf buf (\<lambda>b. b\<lparr>b_valid := False\<rparr>) j1"
  let ?bs = "segment (unat off) JOURNAL_BUF_SIZE content"
  have k: "host_kread h f off (of_nat JOURNAL_BUF_SIZE) = (int (length ?bs), ?bs)" for f
    using full by (auto simp: reads_fully_def max_rw_count_def JOURNAL_BUF_SIZE_def)
  have long: "unat len \<le> length ?bs" using len range by simp
  have "length ?bs < 2 ^ 64" by (simp add: JOURNAL_BUF_SIZE_def)
  then have nl: "\<not> (word_of_int (int (length ?bs)) :: u64) < len"
    using long by (simp only: word_of_int_less_iff not_less)
  note step = miss_step [OF coh buf(2) j1]
  have "length (b_data (bufs (kernel_fill (ReadFixed f buf n off' i) ?bs ?j2) ! buf)) = JOURNAL_BUF_SIZE"
    for f n off' i
    using coherent_holds [OF kernel_fill_coherent(1) [OF step(1) buf(2) step(2)] buf(2), of ?bs]
    by (simp add: holds_def)
  then show ?thesis
    using pos len none buf(1) j1 op k nl
    by (simp add: read_chain_def journal_read_def Let_def buf_got_read_def mem_read_in
      del: length_segment)
qed

lemma plain_returns:
  assumes h: "reads_file h content" and full: "reads_fully h content" and pos: "len \<noteq> 0"
    and range: "unat off + unat len \<le> length content" and max: "unat len \<le> max_rw_count"
    and long: "\<not> unat len \<le> JOURNAL_BUF_SIZE"
  shows "\<exists>bs j'. read_chain h j off len = Ok (bs, j')"
proof -
  let ?bs = "segment (unat off) (unat len) content"
  have op: "host_op_new h off" and k: "host_kread h f off len = (int (length ?bs), ?bs)" for f
    using full max by (simp_all add: reads_fully_def)
  have "length content < 2 ^ 63" using h by (simp add: reads_file_def)
  then have "length ?bs < 2 ^ 64" by simp
  then have "\<not> (word_of_int (int (length ?bs)) :: u64) < len"
    using range by (simp only: word_of_int_less_iff not_less) simp
  then show ?thesis
    using pos long op k
    by (simp add: read_chain_def journal_read_def buf_got_read_def kernel_fill_def
      del: length_segment)
qed

lemma read_chain_complete:
  assumes h: "reads_file h content" and full: "reads_fully h content" and coh: "coherent content j"
    and pos: "len \<noteq> 0" and range: "unat off + unat len \<le> length content"
    and max: "unat len \<le> max_rw_count"
  shows "\<exists>j'. read_chain h j off len = Ok (segment (unat off) (unat len) content, j')"
proof -
  have small: "length content < 2 ^ 63" using h by (simp add: reads_file_def)
  have "\<exists>bs j'. read_chain h j off len = Ok (bs, j')"
    using hit_returns [OF coh small pos range] miss_returns [OF full coh pos range]
      plain_returns [OF h full pos range max]
    by (cases "unat len \<le> JOURNAL_BUF_SIZE"; cases "find_hit j off len") blast+
  then show ?thesis
    using read_chain_sound [OF h coh] by blast
qed

end
