(* ===== verification/Read_Protocol.thy ===== *)
theory Read_Protocol
  imports Journal_Read
begin

text \<open>
  How reads of one journal interleave: the interface the rest of the development reads a
  journal through, the transition system of reads issued, transferred and completed in any
  order, its safety with one read outstanding, and what breaks with more.
\<close>

section \<open>The interface of a journal's reader\<close>

text \<open>
  \<open>rd j off len\<close> reads \<open>len\<close> bytes at \<open>off\<close>.  A sound reader returns the file's bytes when it
  returns at all; a complete one also returns for every range inside the file.
\<close>

locale sound_reader =
  fixes rd :: "'j \<Rightarrow> u64 \<Rightarrow> u64 \<Rightarrow> (bytes \<times> 'j) res"
    and inv :: "'j \<Rightarrow> bool"
    and content :: bytes
  assumes rd_sound: "\<And>j off len bs j'. inv j \<Longrightarrow> rd j off len = Ok (bs, j') \<Longrightarrow>
      bs = segment (unat off) (unat len) content \<and> length bs = unat len \<and> inv j'"

locale complete_reader = sound_reader rd inv content
  for rd :: "'j \<Rightarrow> u64 \<Rightarrow> u64 \<Rightarrow> (bytes \<times> 'j) res"
    and inv :: "'j \<Rightarrow> bool"
    and content :: bytes +
  assumes rd_total: "\<And>j off len. inv j \<Longrightarrow> len \<noteq> 0 \<Longrightarrow> unat off + unat len \<le> length content \<Longrightarrow>
      unat len \<le> max_rw_count \<Longrightarrow> \<exists>bs j'. rd j off len = Ok (bs, j')"
begin

lemma rd_in_range:
  assumes "inv j" and "len \<noteq> 0" and "unat off + unat len \<le> length content"
    and "unat len \<le> max_rw_count"
  obtains j' where "rd j off len = Ok (segment (unat off) (unat len) content, j')" and "inv j'"
  using rd_total [OF assms] rd_sound [OF assms(1)] by blast

end

interpretation chain: sound_reader "read_chain h" "\<lambda>j. reads_file h content \<and> coherent content j"
    content for h content
  using read_chain_sound by unfold_locales blast

interpretation chain_full: complete_reader "read_chain h"
    "\<lambda>j. reads_file h content \<and> reads_fully h content \<and> coherent content j" content for h content
  using read_chain_sound read_chain_complete by unfold_locales blast+

section \<open>Reads in flight\<close>

record read_sys =
  rs_journal :: journal
  rs_flight :: "(pending \<times> (int \<times> bytes) option) list"
    \<comment> \<open>queued reads; \<open>Some\<close> result and bytes once the kernel has transferred them\<close>
  rs_out :: "(u64 \<times> u64 \<times> bytes) list"
    \<comment> \<open>what closures were given: offset, length, bytes at the destination\<close>

definition kernel_result :: "bytes \<Rightarrow> read_op \<Rightarrow> int \<Rightarrow> bytes \<Rightarrow> bool" where
  "kernel_result content op r bs \<longleftrightarrow>
     (r < 0 \<and> bs = []) \<or>
     (r = int (length bs) \<and> length bs \<le> unat (op_len op) \<and>
      bs = segment (unat (op_off op)) (length bs) content)"

text \<open>\<open>lim\<close> bounds the reads in flight; the sources' chains keep it at one per journal.\<close>

inductive read_trans :: "bytes \<Rightarrow> nat \<Rightarrow> read_sys \<Rightarrow> read_sys \<Rightarrow> bool"
  for content :: bytes and lim :: nat
where
  issue_hit: "length (rs_flight s) < lim \<Longrightarrow> journal_read True (rs_journal s) off len = Ok (Hit j' bs) \<Longrightarrow>
     read_trans content lim s (s\<lparr>rs_journal := j', rs_out := (off, len, bs) # rs_out s\<rparr>)"
| issue_queue: "length (rs_flight s) < lim \<Longrightarrow> journal_read True (rs_journal s) off len = Ok (Queued j' p) \<Longrightarrow>
     read_trans content lim s (s\<lparr>rs_journal := j', rs_flight := rs_flight s @ [(p, None)]\<rparr>)"
| transfer: "k < length (rs_flight s) \<Longrightarrow> rs_flight s ! k = (p, None) \<Longrightarrow>
     kernel_result content (p_op p) r bs \<Longrightarrow>
     read_trans content lim s (s\<lparr>rs_journal := kernel_fill (p_op p) bs (rs_journal s),
        rs_flight := (rs_flight s)[k := (p, Some (r, bs))]\<rparr>)"
| complete: "k < length (rs_flight s) \<Longrightarrow> rs_flight s ! k = (p, Some (r, bs)) \<Longrightarrow>
     buf_got_read r p bs (rs_journal s) = Ok (out, j') \<Longrightarrow>
     read_trans content lim s (s\<lparr>rs_journal := j',
        rs_flight := take k (rs_flight s) @ drop (Suc k) (rs_flight s),
        rs_out := (p_offset p, p_length p, out) # rs_out s\<rparr>)"

definition out_right :: "bytes \<Rightarrow> u64 \<times> u64 \<times> bytes \<Rightarrow> bool" where
  "out_right content = (\<lambda>(off, len, bs). bs = segment (unat off) (unat len) content \<and> length bs = unat len)"

text \<open>A queued read whose buffer is reserved for it, with its bytes there once transferred.\<close>

fun flight_ok :: "bytes \<Rightarrow> journal \<Rightarrow> pending \<times> (int \<times> bytes) option \<Rightarrow> bool" where
  "flight_ok content j (p, st) \<longleftrightarrow> p_length p \<noteq> 0 \<and> op_off (p_op p) = p_offset p \<and>
     (case st of None \<Rightarrow> True | Some (r, bs) \<Rightarrow> kernel_result content (p_op p) r bs) \<and>
     (case p_op p of
        ReadFixed f b n off i \<Rightarrow> p_buf p = Some b \<and> b < JOURNAL_BUF_CNT \<and> \<not> b_valid (bufs j ! b) \<and>
          n = of_nat JOURNAL_BUF_SIZE \<and>
          (case st of None \<Rightarrow> True | Some (r, bs) \<Rightarrow> take (length bs) (b_data (bufs j ! b)) = bs)
      | ReadPlain f n off \<Rightarrow> p_buf p = None \<and> n = p_length p)"

definition one_read_inv :: "bytes \<Rightarrow> read_sys \<Rightarrow> bool" where
  "one_read_inv content s \<longleftrightarrow> coherent content (rs_journal s) \<and>
     list_all (out_right content) (rs_out s) \<and>
     (rs_flight s = [] \<or> (\<exists>f. rs_flight s = [f] \<and> flight_ok content (rs_journal s) f))"

lemma issue_hit_inv:
  assumes "one_read_inv content s" and "length content < 2 ^ 63"
    and "journal_read True (rs_journal s) off len = Ok (Hit j' bs)" and "rs_flight s = []"
  shows "one_read_inv content (s\<lparr>rs_journal := j', rs_out := (off, len, bs) # rs_out s\<rparr>)"
proof -
  have coh: "coherent content (rs_journal s)" using assms(1) by (simp add: one_read_inv_def)
  from assms(3) coh have "out_right content (off, len, bs) \<and> coherent content j'"
  proof (cases rule: journal_read_Ok_cases)
    case (hit i j1 bs1)
    then show ?thesis
      using hit_step [OF coh assms(2) hit(2,3,5)] by (auto simp: out_right_def)
  qed simp_all
  then show ?thesis
    using assms(1,4) by (simp add: one_read_inv_def)
qed

lemma issue_queue_inv:
  assumes "one_read_inv content s"
    and "journal_read True (rs_journal s) off len = Ok (Queued j' p)" and "rs_flight s = []"
  shows "one_read_inv content (s\<lparr>rs_journal := j', rs_flight := rs_flight s @ [(p, None)]\<rparr>)"
proof -
  have coh: "coherent content (rs_journal s)" using assms(1) by (simp add: one_read_inv_def)
  have pos: "len \<noteq> 0" using assms(2) by (auto simp: journal_read_def)
  from assms(2) coh have "flight_ok content j' (p, None) \<and> coherent content j'"
  proof (cases rule: journal_read_Ok_cases)
    case (miss buf j1)
    then show ?thesis
      using miss_step [OF coh miss(4,5)] pos by simp
  next
    case plain
    then show ?thesis using coh pos by simp
  qed simp_all
  then show ?thesis
    using assms(1,3) by (simp add: one_read_inv_def)
qed

lemma transfer_inv:
  assumes "one_read_inv content s" and "rs_flight s = [(p, None)]"
    and res: "kernel_result content (p_op p) r bs"
  shows "one_read_inv content (s\<lparr>rs_journal := kernel_fill (p_op p) bs (rs_journal s),
           rs_flight := [(p, Some (r, bs))]\<rparr>)"
proof -
  have coh: "coherent content (rs_journal s)" and ok: "flight_ok content (rs_journal s) (p, None)"
    using assms(1,2) by (auto simp: one_read_inv_def)
  have "coherent content (kernel_fill (p_op p) bs (rs_journal s)) \<and>
      flight_ok content (kernel_fill (p_op p) bs (rs_journal s)) (p, Some (r, bs))"
  proof (cases "p_op p")
    case (ReadFixed f b n off i)
    then have "length bs \<le> JOURNAL_BUF_SIZE"
      using res ok by (auto simp: kernel_result_def)
    then show ?thesis
      using kernel_fill_coherent [OF coh, of b bs f n off i] ok res ReadFixed by auto
  next
    case (ReadPlain f n off)
    then show ?thesis using coh ok res by (simp add: kernel_fill_def)
  qed
  then show ?thesis
    using assms(1) by (simp add: one_read_inv_def)
qed

lemma complete_inv:
  assumes "one_read_inv content s" and flight: "rs_flight s = [(p, Some (r, bs))]"
    and got: "buf_got_read r p bs (rs_journal s) = Ok (out, j')"
  shows "one_read_inv content (s\<lparr>rs_journal := j', rs_flight := [],
           rs_out := (p_offset p, p_length p, out) # rs_out s\<rparr>)"
proof -
  have coh: "coherent content (rs_journal s)"
    and ok: "flight_ok content (rs_journal s) (p, Some (r, bs))"
    using assms(1) flight by (auto simp: one_read_inv_def)
  have "\<not> r < 0" using got by (auto simp: buf_got_read_def)
  then have r: "r = int (length bs)" and len: "length bs \<le> unat (op_len (p_op p))"
    and cont: "bs = segment (unat (p_offset p)) (length bs) content"
    using ok by (auto simp: kernel_result_def)
  have pos: "p_length p \<noteq> 0" using ok by simp
  have "out_right content (p_offset p, p_length p, out) \<and> coherent content j'"
  proof (cases "p_op p")
    case (ReadFixed f b n off i)
    then have b: "p_buf p = Some b" "b < JOURNAL_BUF_CNT" "length bs \<le> JOURNAL_BUF_SIZE"
      and data: "take (length bs) (b_data (bufs (rs_journal s) ! b)) = bs"
      using ok len by auto
    from got_read_coherent [OF coh b(1,2) data cont b(3) pos got [unfolded r]]
    show ?thesis by (simp add: out_right_def)
  next
    case (ReadPlain f n off)
    then have out: "out = bs" "j' = rs_journal s" and "\<not> (word_of_int r :: u64) < p_length p"
      using got ok by (auto simp: buf_got_read_def split: if_splits)
    moreover have "length bs < 2 ^ 64"
      by (rule le_less_trans [OF len unat_u64_less])
    ultimately have "unat (p_length p) \<le> length bs"
      unfolding r by (simp only: word_of_int_less_iff not_less)
    then have "length bs = unat (p_length p)" using len ok ReadPlain by simp
    then show ?thesis using out cont coh by (simp add: out_right_def)
  qed
  then show ?thesis
    using assms(1) by (simp add: one_read_inv_def)
qed

lemma read_trans_inv:
  assumes "read_trans content 1 s t" and "length content < 2 ^ 63" and "one_read_inv content s"
  shows "one_read_inv content t"
  using assms(1)
proof (cases rule: read_trans.cases)
  case (issue_hit off len j' bs)
  then show ?thesis using issue_hit_inv [OF assms(3,2)] by simp
next
  case (issue_queue off len j' p)
  then show ?thesis using issue_queue_inv [OF assms(3)] by simp
next
  case (transfer k p r bs)
  then have "rs_flight s = [(p, None)]" "k = 0" using assms(3) by (auto simp: one_read_inv_def)
  then show ?thesis using transfer_inv [OF assms(3)] transfer by simp
next
  case (complete k p r bs out j')
  then have "rs_flight s = [(p, Some (r, bs))]" "k = 0" using assms(3) by (auto simp: one_read_inv_def)
  then show ?thesis using complete_inv [OF assms(3)] complete by simp
qed

lemma read_trans_star_inv:
  assumes "(read_trans content 1)\<^sup>*\<^sup>* s t" and "length content < 2 ^ 63" and "one_read_inv content s"
  shows "one_read_inv content t"
  using assms(1,3) by (induction rule: rtranclp_induct) (auto intro: read_trans_inv [OF _ assms(2)])

text \<open>A waited-for read is one of the system's runs.\<close>

lemma read_chain_run:
  assumes "read_chain (file_host be content) j off len = Ok (bs, j')"
    and "length content < 2 ^ 63" and "0 < lim"
  shows "(read_trans content lim)\<^sup>*\<^sup>* \<lparr>rs_journal = j, rs_flight = [], rs_out = out\<rparr>
           \<lparr>rs_journal = j', rs_flight = [], rs_out = (off, len, bs) # out\<rparr>"
proof -
  let ?h = "file_host be content"
  let ?s = "\<lparr>rs_journal = j, rs_flight = [], rs_out = out\<rparr>"
  have true: "host_op_new ?h off" by (simp add: file_host_def)
  obtain st where st: "journal_read True j off len = Ok st"
    using assms(1) true by (auto simp: read_chain_def res_bind_Ok_iff)
  show ?thesis
  proof (cases st)
    case (Hit j1 bs1)
    then have "j1 = j'" "bs1 = bs" using assms(1) st true by (simp_all add: read_chain_def)
    then show ?thesis
      using read_trans.issue_hit [of ?s lim off len j' bs content] assms(3) st Hit by auto
  next
    case (Queued j1 p)
    obtain r data where k: "host_kread ?h (op_file (p_op p)) (op_off (p_op p)) (op_len (p_op p)) = (r, data)"
      by (cases "host_kread ?h (op_file (p_op p)) (op_off (p_op p)) (op_len (p_op p))")
    then have got: "buf_got_read r p data (kernel_fill (p_op p) data j1) = Ok (bs, j')"
      using assms(1) st true Queued by (simp add: read_chain_def)
    have "\<not> r < 0" using got by (auto simp: buf_got_read_def)
    from reads_fileD [OF file_host_reads [OF assms(2)] k this]
    have res: "kernel_result content (p_op p) r data" by (simp add: kernel_result_def)
    have off: "p_offset p = off" "p_length p = len"
      using st Queued by (auto simp: journal_read_def res_bind_Ok_iff Let_def split: if_splits option.splits)
    let ?s1 = "?s\<lparr>rs_journal := j1, rs_flight := [(p, None)]\<rparr>"
    let ?s2 = "?s\<lparr>rs_journal := kernel_fill (p_op p) data j1, rs_flight := [(p, Some (r, data))]\<rparr>"
    have "read_trans content lim ?s ?s1"
      using read_trans.issue_queue [of ?s lim off len j1 p content] assms(3) st Queued by simp
    moreover have "read_trans content lim ?s1 ?s2"
      using read_trans.transfer [of 0 ?s1 p content r data lim] res by simp
    moreover have "read_trans content lim ?s2 \<lparr>rs_journal = j', rs_flight = [], rs_out = (off, len, bs) # out\<rparr>"
      using read_trans.complete [of 0 ?s2 p r data bs j' content lim] got off by simp
    ultimately show ?thesis
      by (blast intro: converse_rtranclp_into_rtranclp)
  qed
qed

section \<open>A newly opened journal\<close>

lemma link_bufs_coherent: "coherent content (link_bufs (calloc_journal name))"
proof -
  let ?j = "link_bufs (calloc_journal name)"
  have pay: "map payload (bufs ?j) = map payload (replicate JOURNAL_BUF_CNT zero_buf)"
    by (simp add: link_bufs_frame(1)) (simp add: calloc_journal_def)
  then have "length (bufs ?j) = JOURNAL_BUF_CNT"
    using map_eq_imp_length_eq by fastforce
  moreover have "lru_list ?j [0..<JOURNAL_BUF_CNT]"
    by (rule link_bufs_lru) (auto simp: calloc_journal_def zero_buf_def)
  moreover have "list_all (holds content) (bufs ?j)"
    unfolding list_all_holds pay by (simp add: list_all_iff payload_def zero_buf_def)
  ultimately show ?thesis
    unfolding coherent_def by (metis atLeast0LessThan set_upt)
qed

lemma coherent_j_idx: "coherent content (j\<lparr>j_idx := n\<rparr>) = coherent content j"
  "coherent content (j\<lparr>j_fd := fd\<rparr>) = coherent content j"
  by (simp_all add: coherent_def lru_list_def)

section \<open>Properties\<close>

text \<open>C12: Marking a buffer used by rewriting the links moves it to the end of the list the
  links represent, keeps the other buffers in order, and touches no buffer's contents.\<close>

theorem buf_used_refines_touch:
  assumes "lru_list j xs" and "x \<in> set xs"
  shows "\<exists>j'. buf_used j x = Ok j' \<and> lru_list j' (lru_touch x xs) \<and>
    map payload (bufs j') = map payload (bufs j)"
  using buf_used_lru_touch [OF assms] buf_used_frame(1) by blast

theorem buf_used_refines_touch_witness:
  "\<exists>j'. buf_used (link_bufs (calloc_journal ''system'')) 3 = Ok j' \<and>
     lru_list j' [0, 1, 2, 4, 5, 6, 7, 3]"
proof -
  have l: "lru_list (link_bufs (calloc_journal ''system'')) [0..<JOURNAL_BUF_CNT]"
    by (rule link_bufs_lru) (auto simp: calloc_journal_def zero_buf_def)
  have x: "3 \<in> set [0..<JOURNAL_BUF_CNT]" by (simp add: JOURNAL_BUF_CNT_def)
  have "lru_touch 3 [0..<JOURNAL_BUF_CNT] = [0, 1, 2, 4, 5, 6, 7, 3]"
    by (simp add: lru_touch_def JOURNAL_BUF_CNT_def upt_rec)
  then show ?thesis
    using buf_used_refines_touch [OF l x] by auto
qed

text \<open>C3: A read that is waited for returns exactly the file's bytes of the requested range,
  whether they come from a buffer, from a block read into one, or directly; and the buffers
  still hold what the file holds.  A failed or short read never reaches the caller as data.\<close>

theorem read_returns_file_bytes:
  assumes "reads_file h content" and "coherent content j" and "read_chain h j off len = Ok (bs, j')"
  shows "bs = segment (unat off) (unat len) content \<and> length bs = unat len \<and> coherent content j'"
  using chain.rd_sound [of h content j off len bs j'] assms by blast

theorem read_returns_file_bytes_witness:
  "\<exists>bs j'. read_chain (file_host False (replicate 300 7)) (link_bufs (calloc_journal ''a'')) 8 16
      = Ok (bs, j') \<and> bs = replicate 16 7"
proof -
  let ?c = "replicate 300 7 :: bytes" and ?j = "link_bufs (calloc_journal ''a'')"
  have h: "reads_file (file_host False ?c) ?c" by (rule file_host_reads) simp
  obtain bs j' where run: "read_chain (file_host False ?c) ?j 8 16 = Ok (bs, j')"
    using read_chain_complete [OF h file_host_fully link_bufs_coherent [of _ "''a''"], of 16 8]
    by (auto simp: max_rw_count_def)
  then have "bs = segment 8 16 ?c"
    using read_returns_file_bytes [OF h link_bufs_coherent run] by simp
  then show ?thesis using run by (simp add: segment_def)
qed

text \<open>C11: A non-empty read inside the file succeeds when \<open>iou_op_new\<close> does and the kernel
  serves requests in full, whatever the buffers hold at that point.\<close>

theorem read_in_file_succeeds:
  assumes "reads_file h content" and "reads_fully h content" and "coherent content j"
    and "len \<noteq> 0" and "unat off + unat len \<le> length content" and "unat len \<le> max_rw_count"
  shows "\<exists>j'. read_chain h j off len = Ok (segment (unat off) (unat len) content, j') \<and>
    coherent content j'"
  using chain_full.rd_in_range [of h content j len off] assms by blast

theorem read_in_file_succeeds_witness:
  "\<exists>j'. read_chain (file_host True (replicate 300 9)) (link_bufs (calloc_journal ''a'')) 200 100
     = Ok (replicate 100 9, j')"
proof -
  let ?c = "replicate 300 9 :: bytes"
  have h: "reads_file (file_host True ?c) ?c" by (rule file_host_reads) simp
  show ?thesis
    using read_in_file_succeeds [OF h file_host_fully link_bufs_coherent, of 100 200]
    by (auto simp: max_rw_count_def segment_def)
qed

text \<open>C4: While at most one read of a journal is outstanding, every closure is given the bytes
  it asked for and the buffers stay coherent, however issues, transfers and completions follow
  each other.\<close>

theorem one_outstanding_read_safe:
  assumes "(read_trans content 1)\<^sup>*\<^sup>* \<lparr>rs_journal = j, rs_flight = [], rs_out = []\<rparr> s"
    and "length content < 2 ^ 63" and "coherent content j"
  shows "list_all (out_right content) (rs_out s) \<and> coherent content (rs_journal s)"
  using read_trans_star_inv [OF assms(1,2)] assms(3) by (simp add: one_read_inv_def)

theorem one_outstanding_read_safe_witness:
  "\<exists>s. (read_trans (replicate 300 7) 1)\<^sup>*\<^sup>*
         \<lparr>rs_journal = link_bufs (calloc_journal ''a''), rs_flight = [], rs_out = []\<rparr> s \<and>
       rs_out s \<noteq> [] \<and> list_all (out_right (replicate 300 7)) (rs_out s)"
proof -
  let ?c = "replicate 300 7 :: bytes" and ?j = "link_bufs (calloc_journal ''a'')"
  have small: "length ?c < 2 ^ 63" by simp
  obtain bs j' where run: "read_chain (file_host False ?c) ?j 8 16 = Ok (bs, j')"
    using read_chain_complete [OF file_host_reads [OF small] file_host_fully [of False] link_bufs_coherent [of _ "''a''"], of 16 8]
    by (auto simp: max_rw_count_def)
  from read_chain_run [OF run small, of 1 "[]"]
  have "(read_trans ?c 1)\<^sup>*\<^sup>* \<lparr>rs_journal = ?j, rs_flight = [], rs_out = []\<rparr>
      \<lparr>rs_journal = j', rs_flight = [], rs_out = [(8, 16, bs)]\<rparr>" by simp
  from one_outstanding_read_safe [OF this small link_bufs_coherent] this show ?thesis
    by (intro exI [of _ "\<lparr>rs_journal = j', rs_flight = [], rs_out = [(8, 16, bs)]\<rparr>"]) simp
qed

text \<open>C36: A request whose end wraps past \<open>2^64\<close> passes the bounds check of any buffer that
  reaches up to the wrapped end, and the copy then starts far outside that buffer.  Offsets read
  from a journal are not checked, so a corrupt \<open>tail_object_offset\<close> gets here.\<close>

theorem wrapped_request_leaves_buffer:
  assumes "coherent content j" and "length content < 2 ^ 63"
    and "len \<noteq> 0" and "unat len \<le> JOURNAL_BUF_SIZE" and "2 ^ 64 \<le> unat off + unat len"
    and "i < JOURNAL_BUF_CNT" and "buf_hit off len (bufs j ! i)"
  shows "journal_read op_new j off len = Fail OutOfBounds"
proof -
  obtain k where k: "find_hit j off len = Some k"
    using assms(6,7) by (cases "find_hit j off len") (auto simp: find_hit_def find_None_iff)
  have kb: "k < JOURNAL_BUF_CNT" using find_hit_Some [OF k] by simp
  obtain j1 where j1: "buf_used j k = Ok j1" "coherent content j1"
    and pay: "map payload (bufs j1) = map payload (bufs j)"
    using buf_used_coherent [OF assms(1) kb] by blast
  have holds1: "holds content (bufs j1 ! k)" by (rule coherent_holds [OF j1(2) kb])
  have "payload (bufs j1 ! k) = payload (bufs j ! k)"
    by (rule same_payload_nth [OF pay]) (use assms(1) kb in \<open>simp add: coherent_def\<close>)
  then have hit: "buf_hit off len (bufs j1 ! k)"
    using find_hit_Some [OF k] buf_hit_payload by blast
  have "\<not> unat (off - b_offset (bufs j1 ! k)) + unat len \<le> JOURNAL_BUF_SIZE"
  proof
    assume small: "unat (off - b_offset (bufs j1 ! k)) + unat len \<le> JOURNAL_BUF_SIZE"
    note in_buf = hit_in_buffer [OF holds1 hit assms(2) small]
    have "unat (b_offset (bufs j1 ! k)) + unat (b_length (bufs j1 ! k)) \<le> length content"
      using holds1 hit by (auto simp: holds_def buf_hit_def)
    then have "unat off + unat len \<le> length content" using in_buf by linarith
    then show False using assms(2,5) by simp
  qed
  then show ?thesis
    using k j1(1) holds1 assms(3,4) by (simp add: journal_read_def holds_def mem_read_def)
qed

text \<open>The journal header, cached at offset 0 of a 256-byte file, and a tail object offset of -8.\<close>

definition cached_header_journal :: journal where
  "cached_header_journal =
     upd_buf 0 (\<lambda>b. b\<lparr>b_length := 256, b_valid := True\<rparr>) (link_bufs (calloc_journal ''a''))"

lemma cached_header_buf:
  "payload (bufs (link_bufs (calloc_journal ''a'')) ! 0) = payload zero_buf"
proof -
  have "map payload (bufs (link_bufs (calloc_journal ''a'')))
      = map payload (replicate JOURNAL_BUF_CNT zero_buf)"
    by (simp add: link_bufs_frame(1)) (simp add: calloc_journal_def)
  from same_payload_nth [OF this, of 0] show ?thesis
    by (simp add: JOURNAL_BUF_CNT_def)
qed

theorem wrapped_request_leaves_buffer_witness:
  "journal_read True cached_header_journal (- 8) 16 = Fail OutOfBounds"
proof -
  let ?c = "replicate 256 0 :: bytes" and ?j = "link_bufs (calloc_journal ''a'')"
  have b0: "b_offset (bufs ?j ! 0) = 0" "b_data (bufs ?j ! 0) = replicate JOURNAL_BUF_SIZE 0"
    using cached_header_buf by (simp_all add: payload_def zero_buf_def)
  have len: "length (bufs ?j) = JOURNAL_BUF_CNT"
    using link_bufs_coherent [of ?c "''a''"] by (simp add: coherent_def)
  have coh: "coherent ?c cached_header_journal"
    unfolding cached_header_journal_def
    by (rule coherent_upd_buf [OF link_bufs_coherent])
      (simp_all add: holds_def b0 JOURNAL_BUF_SIZE_def segment_def)
  have hit: "buf_hit (- 8) 16 (bufs cached_header_journal ! 0)"
    using len b0 by (simp add: cached_header_journal_def buf_hit_def bufs_upd_buf JOURNAL_BUF_CNT_def)
  show ?thesis
    by (rule wrapped_request_leaves_buffer [OF coh _ _ _ _ _ hit])
      (simp_all add: JOURNAL_BUF_SIZE_def JOURNAL_BUF_CNT_def)
qed

section \<open>More outstanding reads than buffers\<close>

text \<open>All buffers empty, in the given order: every read that fits a buffer is queued into the first.\<close>

definition all_empty :: "journal \<Rightarrow> nat list \<Rightarrow> bool" where
  "all_empty j xs \<longleftrightarrow> lru_list j xs \<and> set xs = {..<JOURNAL_BUF_CNT} \<and>
     length (bufs j) = JOURNAL_BUF_CNT \<and>
     (\<forall>b\<in>set (bufs j). \<not> b_valid b \<and> length (b_data b) = JOURNAL_BUF_SIZE)"

lemma queue_into_first:
  assumes "all_empty j (x # xs)"
  shows "\<exists>j' p. journal_read True j off 1 = Ok (Queued j' p) \<and> all_empty j' (xs @ [x]) \<and>
    (\<exists>f i. p_op p = ReadFixed f x (of_nat JOURNAL_BUF_SIZE) off i) \<and>
    p_offset p = off \<and> p_length p = 1 \<and> p_buf p = Some x"
proof -
  have xs: "lru_list j (x # xs)" and len: "length (bufs j) = JOURNAL_BUF_CNT"
    and x: "x < JOURNAL_BUF_CNT" and "x \<notin> set xs"
    using assms by (auto simp: all_empty_def lru_list_def)
  obtain j1 where j1: "buf_used j x = Ok j1" "lru_list j1 (xs @ [x])"
    using buf_used_lru_touch [OF xs, of x] by (auto simp: lru_touch_def)
  have pay: "map payload (bufs j1) = map payload (bufs j)" by (rule buf_used_frame(1) [OF j1(1)])
  have len1: "length (bufs j1) = JOURNAL_BUF_CNT" using map_eq_imp_length_eq [OF pay] len by simp
  have empty1: "\<not> b_valid (bufs j1 ! k) \<and> length (b_data (bufs j1 ! k)) = JOURNAL_BUF_SIZE"
    if "k < JOURNAL_BUF_CNT" for k
    using same_payload_nth [OF pay, of k] that assms len
    by (auto simp: payload_def all_empty_def)
  have none: "find_hit j off 1 = None"
    using assms by (auto simp: find_hit_def find_None_iff buf_hit_def all_empty_def)
  let ?j2 = "upd_buf x (\<lambda>b. b\<lparr>b_valid := False\<rparr>) j1"
  have "\<forall>k < JOURNAL_BUF_CNT. \<not> b_valid (bufs ?j2 ! k) \<and> length (b_data (bufs ?j2 ! k)) = JOURNAL_BUF_SIZE"
    using empty1 len1 x by (simp add: bufs_upd_buf nth_list_update)
  then have "all_empty ?j2 (xs @ [x])"
    using j1(2) assms len1
    by (auto simp: all_empty_def lru_list_upd_buf in_set_conv_nth)
  moreover have "lru_head j = Some x" using xs by (simp add: lru_list_def)
  ultimately show ?thesis
    using none j1(1) len1 x
    by (simp add: journal_read_def Let_def JOURNAL_BUF_SIZE_def)
qed

text \<open>A read of one byte at \<open>off\<close>, queued into buffer \<open>x\<close> and not yet transferred.\<close>

definition queued_read :: "nat \<Rightarrow> u64 \<Rightarrow> pending \<times> (int \<times> bytes) option \<Rightarrow> bool" where
  "queued_read x off = (\<lambda>(p, st). st = None \<and>
     (\<exists>f i. p_op p = ReadFixed f x (of_nat JOURNAL_BUF_SIZE) off i) \<and>
     p_offset p = off \<and> p_length p = 1 \<and> p_buf p = Some x)"

lemma issue_rotation:
  assumes "all_empty (rs_journal s) (xs @ ys)" and "length offs = length xs"
    and "length (rs_flight s) + length xs \<le> lim"
  shows "\<exists>t. (read_trans content lim)\<^sup>*\<^sup>* s t \<and> all_empty (rs_journal t) (ys @ xs) \<and>
    rs_out t = rs_out s \<and>
    (\<exists>fl. rs_flight t = rs_flight s @ fl \<and> length fl = length xs \<and>
       (\<forall>k<length xs. queued_read (xs ! k) (offs ! k) (fl ! k)))"
  using assms
proof (induction xs arbitrary: s ys offs)
  case Nil
  then show ?case by (intro exI [of _ s]) simp
next
  case (Cons x xs)
  then obtain off offs' where offs: "offs = off # offs'" by (cases offs) auto
  obtain j' p where q: "journal_read True (rs_journal s) off 1 = Ok (Queued j' p)"
    "all_empty j' ((xs @ ys) @ [x])" "queued_read x off (p, None)"
    using queue_into_first [of "rs_journal s" x "xs @ ys" off] Cons.prems(1)
    by (auto simp: queued_read_def)
  let ?s = "s\<lparr>rs_journal := j', rs_flight := rs_flight s @ [(p, None)]\<rparr>"
  have step: "read_trans content lim s ?s"
    by (rule read_trans.issue_queue [OF _ q(1)]) (use Cons.prems(3) in simp)
  obtain t fl where t: "(read_trans content lim)\<^sup>*\<^sup>* ?s t" "all_empty (rs_journal t) ((ys @ [x]) @ xs)"
    "rs_out t = rs_out s" "rs_flight t = (rs_flight s @ [(p, None)]) @ fl" "length fl = length xs"
    "\<forall>k<length xs. queued_read (xs ! k) (offs' ! k) (fl ! k)"
    using Cons.IH [of ?s "ys @ [x]" offs'] q(2) Cons.prems offs by auto
  have "\<forall>k<length (x # xs). queued_read ((x # xs) ! k) (offs ! k) (((p, None) # fl) ! k)"
    using q(3) t(6) offs by (auto simp: less_Suc_eq_0_disj)
  then show ?case
    using converse_rtranclp_into_rtranclp [of "read_trans content lim", OF step t(1)] t
    by (intro exI [of _ t]) (auto intro!: exI [of _ "(p, None) # fl"])
qed

lemma fresh_all_empty: "all_empty (link_bufs (calloc_journal name)) [0..<JOURNAL_BUF_CNT]"
proof -
  let ?j = "link_bufs (calloc_journal name)"
  have "length (bufs ?j) = JOURNAL_BUF_CNT"
    using link_bufs_coherent [of "[]" name] by (simp add: coherent_def)
  moreover have "map payload (bufs ?j) = map payload (replicate JOURNAL_BUF_CNT zero_buf)"
    by (simp add: link_bufs_frame(1)) (simp add: calloc_journal_def)
  then have "payload b = payload zero_buf" if "b \<in> set (bufs ?j)" for b
    using that by (metis (no_types, lifting) image_eqI image_iff in_set_replicate list.set_map)
  then have "\<not> b_valid b \<and> length (b_data b) = JOURNAL_BUF_SIZE" if "b \<in> set (bufs ?j)" for b
    using that by (fastforce simp: payload_def zero_buf_def)
  moreover have "lru_list ?j [0..<JOURNAL_BUF_CNT]"
    by (rule link_bufs_lru) (auto simp: calloc_journal_def zero_buf_def)
  ultimately show ?thesis by (auto simp: all_empty_def)
qed

lemma deliver_wrong_bytes:
  assumes "all_empty (rs_journal s) xs" and flight: "rs_flight s = f1 # fl @ [f9]"
    and q1: "queued_read x o1 f1" and q9: "queued_read x o9 f9" and x: "x < JOURNAL_BUF_CNT"
    and bs1: "bs1 = segment (unat o1) JOURNAL_BUF_SIZE content" "length bs1 = JOURNAL_BUF_SIZE"
    and bs9: "bs9 = segment (unat o9) JOURNAL_BUF_SIZE content" "length bs9 = JOURNAL_BUF_SIZE"
    and out: "rs_out s = []"
  shows "\<exists>t. (read_trans content lim)\<^sup>*\<^sup>* s t \<and> rs_out t = [(o1, 1, take 1 bs9)]"
proof -
  obtain p1 p9 f i f' i' where p1: "f1 = (p1, None)" "p_op p1 = ReadFixed f x (of_nat JOURNAL_BUF_SIZE) o1 i"
      "p_offset p1 = o1" "p_length p1 = 1" "p_buf p1 = Some x"
    and p9: "f9 = (p9, None)" "p_op p9 = ReadFixed f' x (of_nat JOURNAL_BUF_SIZE) o9 i'"
    using q1 q9 by (cases f1; cases f9) (auto simp: queued_read_def)
  let ?n = "int JOURNAL_BUF_SIZE"
  let ?s1 = "s\<lparr>rs_journal := kernel_fill (p_op p1) bs1 (rs_journal s),
      rs_flight := (p1, Some (?n, bs1)) # fl @ [f9]\<rparr>"
  let ?s2 = "s\<lparr>rs_journal := kernel_fill (p_op p9) bs9 (kernel_fill (p_op p1) bs1 (rs_journal s)),
      rs_flight := (p1, Some (?n, bs1)) # fl @ [(p9, Some (?n, bs9))]\<rparr>"
  have r1: "kernel_result content (p_op p1) ?n bs1" and r9: "kernel_result content (p_op p9) ?n bs9"
    using bs1 bs9 p1 p9 by (simp_all add: kernel_result_def)
  have "read_trans content lim s ?s1"
    using read_trans.transfer [of 0 s p1 content ?n bs1 lim] r1 flight p1 by simp
  moreover have "read_trans content lim ?s1 ?s2"
    using read_trans.transfer [of "Suc (length fl)" ?s1 p9 content ?n bs9 lim] r9 p9
    by (simp add: nth_append)
  moreover
  have len: "x < length (bufs (rs_journal s))" using assms(1) x by (simp add: all_empty_def)
  then have data: "b_data (bufs (rs_journal ?s2) ! x) = bs9 @ drop (length bs9)
      (bs1 @ drop (length bs1) (b_data (bufs (rs_journal s) ! x)))"
    using p1 p9 by (simp add: kernel_fill_def bufs_upd_buf)
  have le: "\<not> (of_nat JOURNAL_BUF_SIZE :: u64) < 1"
    by (simp add: JOURNAL_BUF_SIZE_def)
  have got: "\<exists>j'. buf_got_read ?n p1 bs1 (rs_journal ?s2) = Ok (take 1 bs9, j')"
    using p1 data bs9(2) le
    by (simp add: buf_got_read_def mem_read_def segment_def JOURNAL_BUF_SIZE_def)
  then obtain j' where "buf_got_read ?n p1 bs1 (rs_journal ?s2) = Ok (take 1 bs9, j')" by blast
  from read_trans.complete [of 0 ?s2 p1 ?n bs1 "take 1 bs9" j' content lim, OF _ _ this]
  have "read_trans content lim ?s2 (?s2\<lparr>rs_journal := j', rs_flight := fl @ [(p9, Some (?n, bs9))],
      rs_out := [(o1, 1, take 1 bs9)]\<rparr>)"
    using p1 out by simp
  ultimately have "(read_trans content lim)\<^sup>*\<^sup>* s (?s2\<lparr>rs_journal := j',
      rs_flight := fl @ [(p9, Some (?n, bs9))], rs_out := [(o1, 1, take 1 bs9)]\<rparr>)"
    by (blast intro: converse_rtranclp_into_rtranclp)
  then show ?thesis by fastforce
qed

text \<open>C37: With one read more outstanding than there are buffers, a closure can be given another
  block's bytes: the least recently used buffer is taken whether or not a read into it is still
  in flight.  The sources never queue that many reads of one journal, but nothing in
  \<open>journal_read\<close> prevents it.\<close>

theorem nine_outstanding_reads_unsafe:
  "\<exists>content s. (read_trans content (Suc JOURNAL_BUF_CNT))\<^sup>*\<^sup>*
      \<lparr>rs_journal = link_bufs (calloc_journal name), rs_flight = [], rs_out = []\<rparr> s \<and>
    \<not> list_all (out_right content) (rs_out s)"
proof -
  let ?c = "replicate JOURNAL_BUF_SIZE 0 @ replicate JOURNAL_BUF_SIZE 1 :: bytes"
  let ?lim = "Suc JOURNAL_BUF_CNT"
  let ?s = "\<lparr>rs_journal = link_bufs (calloc_journal name), rs_flight = [], rs_out = []\<rparr>"
  let ?xs = "[0..<JOURNAL_BUF_CNT]"
  have empty: "all_empty (rs_journal ?s) (?xs @ [])" using fresh_all_empty by simp
  obtain s1 fl1 where s1: "(read_trans ?c ?lim)\<^sup>*\<^sup>* ?s s1" "all_empty (rs_journal s1) ?xs" "rs_out s1 = []"
      "rs_flight s1 = fl1" "length fl1 = JOURNAL_BUF_CNT" "queued_read 0 0 (fl1 ! 0)"
    using issue_rotation [OF empty, of "replicate JOURNAL_BUF_CNT 0" ?lim ?c]
    by (auto simp: JOURNAL_BUF_CNT_def)
  have xs: "?xs = [0] @ [1..<JOURNAL_BUF_CNT]" by (simp add: JOURNAL_BUF_CNT_def upt_rec)
  obtain s2 f9 where s2: "(read_trans ?c ?lim)\<^sup>*\<^sup>* s1 s2"
      "all_empty (rs_journal s2) ([1..<JOURNAL_BUF_CNT] @ [0])" "rs_out s2 = []"
      "rs_flight s2 = fl1 @ [f9]" "queued_read 0 (of_nat JOURNAL_BUF_SIZE) f9"
    using issue_rotation [OF s1(2) [unfolded xs], of "[of_nat JOURNAL_BUF_SIZE]" ?lim ?c] s1
    by (auto simp: length_Suc_conv)
  obtain f1 fl where fl1: "fl1 = f1 # fl" using s1(5) by (cases fl1) (auto simp: JOURNAL_BUF_CNT_def)
  have "rs_flight s2 = f1 # fl @ [f9]" using s2(4) fl1 by simp
  from deliver_wrong_bytes [OF s2(2) this _ s2(5) _ refl _ refl, of 0 ?c ?lim] s1(6) s2(3) fl1
  obtain t where "(read_trans ?c ?lim)\<^sup>*\<^sup>* s2 t"
    "rs_out t = [(0, 1, take 1 (segment JOURNAL_BUF_SIZE JOURNAL_BUF_SIZE ?c))]"
    by (auto simp: JOURNAL_BUF_CNT_def)
  moreover have "\<not> out_right ?c (0, 1, take 1 (segment JOURNAL_BUF_SIZE JOURNAL_BUF_SIZE ?c))"
    by (simp add: out_right_def segment_def JOURNAL_BUF_SIZE_def)
  ultimately show ?thesis
    using rtranclp_trans [OF rtranclp_trans [OF s1(1) s2(1)]] by fastforce
qed

end
