(* ===== verification/Journal_Object.thy ===== *)
theory Journal_Object
  imports Read_Protocol
begin

text \<open>
  Loading the header and the objects of a journal: the \<open>got_...\<close> thunks of \<^verbatim>\<open>journals.c\<close> that
  convert what was read in place, and the \<open>journal_get_...\<close> operations around them.  Each
  operation takes the reader \<open>rd\<close> of the journal (\<open>read_chain\<close> of a host) and the host's byte
  order.  Objects are kept as the memory they were read into, because the source overlays
  them with the \<open>Object\<close> union and converts the fields where they lie.
\<close>

type_synonym 'j reader = "'j \<Rightarrow> u64 \<Rightarrow> u64 \<Rightarrow> (bytes \<times> 'j) res"

section \<open>The file header\<close>

definition got_header :: "bool \<Rightarrow> Header \<Rightarrow> Header" where
  "got_header be h = h\<lparr>
     compatible_flags := le32toh be (compatible_flags h),
     incompatible_flags := le32toh be (incompatible_flags h),
     header_size := le64toh be (header_size h),
     arena_size := le64toh be (arena_size h),
     data_hash_table_offset := le64toh be (data_hash_table_offset h),
     data_hash_table_size := le64toh be (data_hash_table_size h),
     field_hash_table_offset := le64toh be (field_hash_table_offset h),
     field_hash_table_size := le64toh be (field_hash_table_size h),
     tail_object_offset := le64toh be (tail_object_offset h),
     n_objects := le64toh be (n_objects h),
     n_entries := le64toh be (n_entries h),
     tail_entry_seqnum := le64toh be (tail_entry_seqnum h),
     head_entry_seqnum := le64toh be (head_entry_seqnum h),
     entry_array_offset := le64toh be (entry_array_offset h),
     head_entry_realtime := le64toh be (head_entry_realtime h),
     tail_entry_realtime := le64toh be (tail_entry_realtime h),
     tail_entry_monotonic := le64toh be (tail_entry_monotonic h),
     n_data := le64toh be (n_data h),
     n_fields := le64toh be (n_fields h),
     n_tags := le64toh be (n_tags h),
     n_entry_arrays := le64toh be (n_entry_arrays h),
     data_hash_chain_depth := le64toh be (data_hash_chain_depth h),
     field_hash_chain_depth := le64toh be (field_hash_chain_depth h)\<rparr>"

definition journal_get_header :: "'j reader \<Rightarrow> bool \<Rightarrow> 'j \<Rightarrow> (Header \<times> 'j) res" where
  "journal_get_header rd be j =
     res_map (\<lambda>(bs, j'). (got_header be (header_of_mem be bs), j'))
       (rd j 0 (of_nat sizeof_Header))"

lemma got_header_parse:
  "length m = sizeof_Header \<Longrightarrow> got_header be (header_of_mem be m) = parse_header m"
  by (simp add: got_header_def header_of_mem_def parse_header_def header_with_def layout_simps
    le64toh_ld64 le32toh_ld32)

section \<open>Object headers\<close>

definition got_object_header :: "bool \<Rightarrow> ObjectHeader \<Rightarrow> ObjectHeader" where
  "got_object_header be h = h\<lparr>o_size := le64toh be (o_size h)\<rparr>"

definition journal_get_object_header ::
  "'j reader \<Rightarrow> bool \<Rightarrow> u64 \<Rightarrow> 'j \<Rightarrow> (ObjectHeader \<times> 'j) res" where
  "journal_get_object_header rd be offset j =
     res_map (\<lambda>(bs, j'). (got_object_header be (object_header_of_mem be bs), j'))
       (rd j offset (of_nat sizeof_ObjectHeader))"

lemma got_object_header_parse:
  "length m = sizeof_ObjectHeader \<Longrightarrow>
     got_object_header be (object_header_of_mem be m) = parse_object_header m"
  by (simp add: got_object_header_def object_header_of_mem_def parse_object_header_def
    layout_simps le64toh_ld64)

section \<open>Whole objects\<close>

text \<open>\<open>x->field = le64toh(x->field)\<close> for an 8-byte field at an offset of the object.\<close>

definition swap64_at :: "bool \<Rightarrow> nat \<Rightarrow> bytes \<Rightarrow> bytes res" where
  "swap64_at be off m =
     (if off + 8 \<le> length m
      then Ok (take off m @ store_native be 8 (le64toh be (ld64 be off m)) @ drop (off + 8) m)
      else Fail OutOfBounds)"

fun swap_fields :: "bool \<Rightarrow> nat list \<Rightarrow> bytes \<Rightarrow> bytes res" where
  "swap_fields be [] m = Ok m"
| "swap_fields be (off # offs) m = res_bind (swap64_at be off m) (swap_fields be offs)"

text \<open>The loops over \<open>items[i]\<close>: \<open>n\<close> consecutive 8-byte fields from \<open>off\<close> on.\<close>

fun swap_items :: "bool \<Rightarrow> nat \<Rightarrow> nat \<Rightarrow> bytes \<Rightarrow> bytes res" where
  "swap_items be off 0 m = Ok m"
| "swap_items be off (Suc n) m = res_bind (swap64_at be off m) (swap_items be (off + 8) n)"

text \<open>\<open>OBJECT_N_ITEMS\<close>: the subtraction is unsigned and wraps for a too small object.\<close>

definition OBJECT_N_ITEMS :: "u64 \<Rightarrow> nat \<Rightarrow> nat \<Rightarrow> nat" where
  "OBJECT_N_ITEMS object_size items_offset item_size =
     unat (object_size - of_nat items_offset) div item_size"

definition got_object :: "bool \<Rightarrow> bytes \<Rightarrow> bytes res" where
  "got_object be object =
     res_bind (swap64_at be 8 object) (\<lambda>m.
     case object_type_of (m ! 0) of
       Some OBJECT_DATA \<Rightarrow> swap_fields be [16, 24, 32, 40, 48, 56] m
     | Some OBJECT_FIELD \<Rightarrow> swap_fields be [16, 24, 32] m
     | Some OBJECT_ENTRY \<Rightarrow>
         res_bind (swap_fields be [16, 24, 32, 56] m)
           (swap_items be offsetof_EntryObject_items
              (2 * OBJECT_N_ITEMS (ld64 be 8 m) offsetof_EntryObject_items sizeof_EntryItem))
     | Some OBJECT_DATA_HASH_TABLE \<Rightarrow>
         swap_items be offsetof_HashTableObject_items
           (2 * OBJECT_N_ITEMS (ld64 be 8 m) offsetof_HashTableObject_items sizeof_HashItem) m
     | Some OBJECT_FIELD_HASH_TABLE \<Rightarrow>
         swap_items be offsetof_HashTableObject_items
           (2 * OBJECT_N_ITEMS (ld64 be 8 m) offsetof_HashTableObject_items sizeof_HashItem) m
     | Some OBJECT_ENTRY_ARRAY \<Rightarrow>
         res_bind (swap_fields be [16] m)
           (swap_items be offsetof_EntryArrayObject_items
              (OBJECT_N_ITEMS (ld64 be 8 m) offsetof_EntryArrayObject_items 8))
     | Some OBJECT_TAG \<Rightarrow> swap_fields be [16, 24] m
     | Some OBJECT_UNUSED \<Rightarrow> Fail AssertFail
     | None \<Rightarrow> Fail AssertFail)"

text \<open>\<open>journal_get_object\<close> reads into memory that is already allocated at \<open>dest\<close>.\<close>

definition journal_get_object ::
  "'j reader \<Rightarrow> bool \<Rightarrow> u64 \<Rightarrow> u64 \<Rightarrow> bytes \<Rightarrow> 'j \<Rightarrow> (bytes \<times> 'j) res" where
  "journal_get_object rd be offset sz dest j =
     res_bind (rd j offset sz) (\<lambda>(bs, j').
       if length dest < length bs then Fail OutOfBounds
       else res_map (\<lambda>obj. (obj, j')) (got_object be (bs @ drop (length bs) dest)))"

definition get_object_full_got_header ::
  "'j reader \<Rightarrow> bool \<Rightarrow> bool \<Rightarrow> u64 \<Rightarrow> ObjectHeader \<Rightarrow> 'j \<Rightarrow> (bytes \<times> 'j) res" where
  "get_object_full_got_header rd be malloc_ok offset object_header j =
     (if \<not> malloc_ok then Fail (Errno (- ENOMEM))
      else journal_get_object rd be offset (o_size object_header)
             (replicate (unat (o_size object_header)) 0) j)"

definition journal_get_object_full ::
  "'j reader \<Rightarrow> bool \<Rightarrow> bool \<Rightarrow> u64 \<Rightarrow> 'j \<Rightarrow> ((ObjectHeader \<times> bytes) \<times> 'j) res" where
  "journal_get_object_full rd be malloc_ok offset j =
     res_bind (journal_get_object_header rd be offset j) (\<lambda>(object_header, j1).
     res_map (\<lambda>(obj, j2). ((object_header, obj), j2))
       (get_object_full_got_header rd be malloc_ok offset object_header j1))"

section \<open>Names\<close>

definition object_type_names :: "string list" where
  "object_type_names = [''UNUSED'', ''Data'', ''Field'', ''Entry'', ''DataHashTable'',
     ''FieldHashTable'', ''EntryArray'', ''Tag'']"

definition journal_object_type_str :: "int \<Rightarrow> string" where
  "journal_object_type_str type =
     (if type < 0 \<or> int (length object_type_names) \<le> type then ''UNKNOWN''
      else object_type_names ! nat type)"

definition state_names :: "string list" where
  "state_names = [''Offline'', ''Online'', ''Archived'']"

definition journal_state_str :: "int \<Rightarrow> string" where
  "journal_state_str state =
     (if state < 0 \<or> int (length state_names) \<le> state then ''UNKNOWN''
      else state_names ! nat state)"

section \<open>What the conversion of an object leaves in memory\<close>

lemma length_store_native [simp]: "length (store_native be n x) = n"
  by (simp add: store_native_def)

lemma load_store_native: "load_native be (store_native be 8 (x :: u64)) = x"
  by (simp add: load_native_def store_native_def le_word_word_bytes)

lemma segment_cong:
  assumes "length m = length m'" and "\<And>i. off \<le> i \<Longrightarrow> i < off + n \<Longrightarrow> i < length m \<Longrightarrow> m ! i = m' ! i"
  shows "segment off n m = segment off n m'"
  using assms by (intro nth_equalityI) (auto simp: segment_def)

text \<open>
  \<open>swapped be offs m m'\<close>: at each offset a native load now gives the field's little-endian
  value, and no other byte has changed.
\<close>

definition swapped :: "bool \<Rightarrow> nat list \<Rightarrow> bytes \<Rightarrow> bytes \<Rightarrow> bool" where
  "swapped be offs m m' \<longleftrightarrow> length m' = length m \<and>
     (\<forall>off\<in>set offs. ld64 be off m' = le64_at off m) \<and>
     (\<forall>i<length m. (\<forall>off\<in>set offs. i < off \<or> off + 8 \<le> i) \<longrightarrow> m' ! i = m ! i)"

lemma swap64_at_swapped:
  assumes "off + 8 \<le> length m"
  shows "\<exists>m'. swap64_at be off m = Ok m' \<and> swapped be [off] m m'"
proof -
  let ?v = "store_native be 8 (le64toh be (ld64 be off m))"
  let ?m = "take off m @ ?v @ drop (off + 8) m"
  have "segment off 8 ?m = ?v"
    using assms by (simp add: segment_def)
  then have "ld64 be off ?m = le64_at off m"
    by (simp add: ld64_def load_store_native)
      (simp add: le64toh_ld64 [OF assms, unfolded ld64_def])
  moreover have "?m ! i = m ! i" if "i < length m" "i < off \<or> off + 8 \<le> i" for i
    using that assms by (auto simp: nth_append)
  ultimately show ?thesis
    using assms by (simp add: swap64_at_def swapped_def)
qed

lemma fields_apart:
  assumes "(o1 :: nat) mod 8 = 0" and "o2 mod 8 = 0" and "o1 \<noteq> o2"
  shows "o1 + 8 \<le> o2 \<or> o2 + 8 \<le> o1"
proof -
  obtain a b where "o1 = 8 * a" "o2 = 8 * b" using assms(1,2) by (auto simp: mod_eq_0_iff_dvd elim!: dvdE)
  with assms(3) show ?thesis by (cases "a < b") auto
qed

lemma swapped_segment:
  assumes "swapped be offs m m'" and "off mod 8 = 0" and "off \<notin> set offs"
    and "\<forall>o'\<in>set offs. o' mod 8 = 0"
  shows "segment off 8 m' = segment off 8 m"
proof (rule segment_cong)
  show "length m' = length m" using assms(1) by (simp add: swapped_def)
  fix i assume i: "off \<le> i" "i < off + 8" "i < length m'"
  have "i < o' \<or> o' + 8 \<le> i" if o': "o' \<in> set offs" for o'
  proof -
    have "o' \<noteq> off" "o' mod 8 = 0" using o' assms(3,4) by auto
    from fields_apart [OF assms(2) this(2)] this(1) i show ?thesis by auto
  qed
  then show "m' ! i = m ! i" using assms(1) i by (simp add: swapped_def)
qed

lemma swap_fields_swapped:
  assumes "distinct offs" and "\<forall>off\<in>set offs. off mod 8 = 0 \<and> off + 8 \<le> length m"
  shows "\<exists>m'. swap_fields be offs m = Ok m' \<and> swapped be offs m m'"
  using assms
proof (induction offs arbitrary: m)
  case Nil
  then show ?case by (simp add: swapped_def)
next
  case (Cons off offs)
  obtain m1 where m1: "swap64_at be off m = Ok m1" "swapped be [off] m m1"
    using swap64_at_swapped [of off m be] Cons.prems(2) by auto
  then obtain m' where m': "swap_fields be offs m1 = Ok m'" "swapped be offs m1 m'"
    using Cons.IH [of m1] Cons.prems by (auto simp: swapped_def)
  have len: "length m1 = length m" "length m' = length m"
    using m1(2) m'(2) by (simp_all add: swapped_def)
  have "segment off 8 m' = segment off 8 m1"
    by (rule swapped_segment [OF m'(2)]) (use Cons.prems in auto)
  then have a: "ld64 be off m' = le64_at off m"
    using m1(2) by (simp add: swapped_def ld64_def)
  have b: "ld64 be o' m' = le64_at o' m" if o': "o' \<in> set offs" for o'
  proof -
    have "segment o' 8 m1 = segment o' 8 m"
      by (rule swapped_segment [OF m1(2)]) (use Cons.prems o' in auto)
    then show ?thesis
      using m'(2) o' by (simp add: swapped_def le64_at_def)
  qed
  have "m' ! i = m ! i" if "i < length m" "\<forall>o'\<in>set (off # offs). i < o' \<or> o' + 8 \<le> i" for i
    using that m1(2) m'(2) len by (auto simp: swapped_def)
  with a b show ?case
    using m1(1) m'(1) len by (simp add: swapped_def)
qed

lemma swap_fields_append:
  "swap_fields be (a @ b) m = res_bind (swap_fields be a m) (swap_fields be b)"
proof (induction a arbitrary: m)
  case (Cons off a)
  then show ?case by (cases "swap64_at be off m") simp_all
qed simp

lemma swap_items_fields:
  "swap_items be off n m = swap_fields be (map (\<lambda>i. off + 8 * i) [0..<n]) m"
proof (induction n arbitrary: off m)
  case 0
  then show ?case by simp
next
  case (Suc n)
  have "[0..<Suc n] = 0 # map Suc [0..<n]"
    by (metis map_Suc_upt upt_conv_Cons zero_less_Suc)
  then have "map (\<lambda>i. off + 8 * i) [0..<Suc n] = off # map (\<lambda>i. (off + 8) + 8 * i) [0..<n]"
    by (simp only: list.map map_map comp_def) simp
  then show ?case by (cases "swap64_at be off m") (simp_all add: Suc del: upt_Suc)
qed

text \<open>The offsets converted, by type and (converted) object size.\<close>

fun object_fields :: "ObjectType \<Rightarrow> u64 \<Rightarrow> nat list" where
  "object_fields OBJECT_UNUSED sz = []"
| "object_fields OBJECT_DATA sz = [16, 24, 32, 40, 48, 56]"
| "object_fields OBJECT_FIELD sz = [16, 24, 32]"
| "object_fields OBJECT_ENTRY sz =
     [16, 24, 32, 56] @ map (\<lambda>i. 64 + 8 * i) [0..<2 * OBJECT_N_ITEMS sz 64 16]"
| "object_fields OBJECT_DATA_HASH_TABLE sz = map (\<lambda>i. 16 + 8 * i) [0..<2 * OBJECT_N_ITEMS sz 16 16]"
| "object_fields OBJECT_FIELD_HASH_TABLE sz = map (\<lambda>i. 16 + 8 * i) [0..<2 * OBJECT_N_ITEMS sz 16 16]"
| "object_fields OBJECT_ENTRY_ARRAY sz = [16] @ map (\<lambda>i. 24 + 8 * i) [0..<OBJECT_N_ITEMS sz 24 8]"
| "object_fields OBJECT_TAG sz = [16, 24]"

text \<open>The size of an object's fixed part.\<close>

fun object_min_size :: "ObjectType \<Rightarrow> nat" where
  "object_min_size OBJECT_UNUSED = 16"
| "object_min_size OBJECT_DATA = 64"
| "object_min_size OBJECT_FIELD = 40"
| "object_min_size OBJECT_ENTRY = 64"
| "object_min_size OBJECT_DATA_HASH_TABLE = 16"
| "object_min_size OBJECT_FIELD_HASH_TABLE = 16"
| "object_min_size OBJECT_ENTRY_ARRAY = 24"
| "object_min_size OBJECT_TAG = 64"

lemma got_object_fields:
  assumes "swap64_at be 8 obj = Ok m" and "object_type_of (m ! 0) = Some ty" and "ty \<noteq> OBJECT_UNUSED"
  shows "got_object be obj = swap_fields be (object_fields ty (ld64 be 8 m)) m"
  using assms
  by (cases ty) (simp_all add: got_object_def swap_items_fields layout_simps swap_fields_append
    res_bind_assoc cong: res_bind_cong)

lemma n_items_bound:
  fixes sz :: u64
  assumes "off \<le> unat sz"
  shows "off + k * (unat (sz - of_nat off) div k) \<le> unat sz"
proof -
  have "off < 2 ^ 64" using assms unat_u64_less [of sz] by linarith
  then have o: "unat (of_nat off :: u64) = off" by (simp add: unat_of_nat take_bit_nat_eq_self)
  then have "of_nat off \<le> sz" using assms by (simp add: word_le_nat_alt)
  then have "unat (sz - of_nat off) = unat sz - off" by (simp only: unat_sub o)
  moreover have "k * ((unat sz - off) div k) \<le> unat sz - off"
    by (rule times_div_less_eq_dividend)
  ultimately show ?thesis using assms by (simp only: Nat.le_diff_conv2 add.commute)
qed

lemma object_fields_in:
  assumes "object_min_size ty \<le> unat sz"
  shows "distinct (object_fields ty sz)"
    and "\<forall>off\<in>set (object_fields ty sz). off mod 8 = 0 \<and> off + 8 \<le> unat sz"
proof -
  show "distinct (object_fields ty sz)"
    by (cases ty) (auto simp: distinct_map inj_on_def)
  have e: "64 + 16 * OBJECT_N_ITEMS sz 64 16 \<le> unat sz" if "64 \<le> unat sz"
    using n_items_bound [of 64 sz 16] that by (simp add: OBJECT_N_ITEMS_def)
  have h: "16 + 16 * OBJECT_N_ITEMS sz 16 16 \<le> unat sz" if "16 \<le> unat sz"
    using n_items_bound [of 16 sz 16] that by (simp add: OBJECT_N_ITEMS_def)
  have a: "24 + 8 * OBJECT_N_ITEMS sz 24 8 \<le> unat sz" if "24 \<le> unat sz"
    using n_items_bound [of 24 sz 8] that by (simp add: OBJECT_N_ITEMS_def)
  show "\<forall>off\<in>set (object_fields ty sz). off mod 8 = 0 \<and> off + 8 \<le> unat sz"
    using assms e h a by (cases ty) (auto simp: mod_add_eq [symmetric])
qed


section \<open>Properties\<close>

lemma swapped_trans:
  assumes a: "swapped be [off] m m1" and b: "swapped be offs m1 m2" and "off \<notin> set offs"
    and "off mod 8 = 0" and "\<forall>o'\<in>set offs. o' mod 8 = 0"
  shows "swapped be (off # offs) m m2"
proof -
  have len: "length m1 = length m" "length m2 = length m" using a b by (simp_all add: swapped_def)
  have "segment off 8 m2 = segment off 8 m1"
    by (rule swapped_segment [OF b assms(4,3,5)])
  then have "ld64 be off m2 = le64_at off m" using a by (simp add: swapped_def ld64_def)
  moreover have "ld64 be o' m2 = le64_at o' m" if o': "o' \<in> set offs" for o'
  proof -
    have "segment o' 8 m1 = segment o' 8 m"
      by (rule swapped_segment [OF a]) (use assms o' in auto)
    then show ?thesis using b o' by (simp add: swapped_def le64_at_def)
  qed
  moreover have "m2 ! i = m ! i" if "i < length m" "\<forall>o'\<in>set (off # offs). i < o' \<or> o' + 8 \<le> i" for i
    using that a b len by (auto simp: swapped_def)
  ultimately show ?thesis
    using len by (simp add: swapped_def)
qed

lemma swapped_size_field:
  assumes "swapped be [8] m m'"
  shows "length m' = length m" and "ld64 be 8 m' = le64_at 8 m" and "8 \<le> length m \<Longrightarrow> m' ! 0 = m ! 0"
proof -
  show "length m' = length m" "ld64 be 8 m' = le64_at 8 m"
    using assms by (simp_all add: swapped_def)
  have "\<forall>i<length m. i < 8 \<longrightarrow> m' ! i = m ! i" using assms by (simp add: swapped_def)
  from this [rule_format, of 0] show "m' ! 0 = m ! 0" if "8 \<le> length m" using that by linarith
qed

lemma object_fields_ge_16: "off \<in> set (object_fields ty sz) \<Longrightarrow> 16 \<le> off"
  by (cases ty) auto

lemma got_object_swaps:
  assumes "object_type_of (obj ! 0) = Some ty" and "ty \<noteq> OBJECT_UNUSED"
    and "object_min_size ty \<le> unat (le64_at 8 obj)" and "unat (le64_at 8 obj) \<le> length obj"
  shows "\<exists>m. got_object be obj = Ok m \<and> swapped be (8 # object_fields ty (le64_at 8 obj)) obj m"
proof -
  have "16 \<le> object_min_size ty" by (cases ty) simp_all
  then have "8 + 8 \<le> length obj" using assms(3,4) by linarith
  then obtain m1 where m1: "swap64_at be 8 obj = Ok m1" "swapped be [8] obj m1"
    using swap64_at_swapped by blast
  have sz: "ld64 be 8 m1 = le64_at 8 obj" and "m1 ! 0 = obj ! 0" and len: "length m1 = length obj"
    using swapped_size_field(1,2) [OF m1(2)] swapped_size_field(3) [OF m1(2)] \<open>8 + 8 \<le> length obj\<close>
    by simp_all
  then have fields: "got_object be obj = swap_fields be (object_fields ty (le64_at 8 obj)) m1"
    using got_object_fields [OF m1(1), of ty] assms(1,2) by simp
  have all: "off mod 8 = 0 \<and> off + 8 \<le> length m1"
    if "off \<in> set (object_fields ty (le64_at 8 obj))" for off
    using bspec [OF object_fields_in(2) [OF assms(3)] that] len assms(4) by simp
  then obtain m where m: "swap_fields be (object_fields ty (le64_at 8 obj)) m1 = Ok m"
      "swapped be (object_fields ty (le64_at 8 obj)) m1 m"
    using swap_fields_swapped [OF object_fields_in(1) [OF assms(3)], of m1 be] by blast
  have "swapped be (8 # object_fields ty (le64_at 8 obj)) obj m"
    by (rule swapped_trans [OF m1(2) m(2)]) (use all object_fields_ge_16 in fastforce)+
  then show ?thesis using fields m(1) by simp
qed

text \<open>C16: A complete object of a known type, in memory of at least its size, is converted on a host
  of either byte order: its size and every 64-bit field its type has, the items counted from
  the size included, become native values, and no other byte of the memory changes.\<close>

theorem got_object_converts:
  assumes "object_type_of (obj ! 0) = Some ty" and "ty \<noteq> OBJECT_UNUSED"
    and "object_min_size ty \<le> unat (le64_at 8 obj)" and "unat (le64_at 8 obj) \<le> length obj"
  shows "\<exists>m. got_object be obj = Ok m \<and> swapped be (8 # object_fields ty (le64_at 8 obj)) obj m"
  by (rule got_object_swaps [OF assms])

definition sample_tag :: bytes where
  "sample_tag = [7, 0, 0, 0, 0, 0, 0, 0, 64, 0, 0, 0, 0, 0, 0, 0] @ replicate 48 9"

lemma sample_tag_size: "le64_at 8 sample_tag = 64" "length sample_tag = 64" "sample_tag ! 0 = 7"
  by (simp_all add: sample_tag_def le64_at_def segment_def)

theorem got_object_converts_witness:
  "\<exists>m. got_object True sample_tag = Ok m \<and> swapped True [8, 16, 24] sample_tag m"
proof -
  have "object_type_of (sample_tag ! 0) = Some OBJECT_TAG"
    by (simp add: object_type_of_Some_iff sample_tag_size)
  from got_object_converts [OF this, of True] show ?thesis by (simp add: sample_tag_size)
qed

lemma swap_fields_out:
  assumes "length m < off + 8" and "off \<in> set offs"
  shows "swap_fields be offs m = Fail OutOfBounds"
  using assms
proof (induction offs arbitrary: m)
  case (Cons o' offs)
  show ?case
  proof (cases "o' + 8 \<le> length m")
    case True
    then obtain m' where "swap64_at be o' m = Ok m'" "length m' = length m"
      using swap64_at_swapped [of o' m be] by (auto simp: swapped_def)
    then show ?thesis using Cons True by auto
  next
    case False
    then show ?thesis by (simp add: swap64_at_def)
  qed
qed simp

text \<open>C35: An object header that claims an entry, a hash table or an entry array with a size below
  the fixed part makes the item count wrap around to at least \<open>2 ^ 58\<close>: the conversion loop runs
  off the end of the memory allocated for the object.\<close>

theorem undersized_object_overruns:
  assumes "object_type_of (obj ! 0) = Some ty" and "ty = OBJECT_ENTRY \<or> ty = OBJECT_ENTRY_ARRAY"
    and "unat (le64_at 8 obj) < object_min_size ty" and "16 \<le> length obj" and "length obj < 2 ^ 60"
  shows "got_object be obj = Fail OutOfBounds"
proof -
  obtain m1 where m1: "swap64_at be 8 obj = Ok m1" "swapped be [8] obj m1"
    using swap64_at_swapped [of 8 obj be] assms(4) by auto
  let ?sz = "le64_at 8 obj"
  have "ld64 be 8 m1 = ?sz" "m1 ! 0 = obj ! 0" and len: "length m1 = length obj"
    using swapped_size_field(1,2) [OF m1(2)] swapped_size_field(3) [OF m1(2)] assms(4) by simp_all
  then have fields: "got_object be obj = swap_fields be (object_fields ty ?sz) m1"
    using got_object_fields [OF m1(1), of ty] assms(1,2) by auto
  have wrap: "2 ^ 64 - 64 \<le> unat (?sz - of_nat k)" if "unat ?sz < k" "k \<le> 64" for k
  proof -
    have "unat (of_nat k :: u64) = k" using that by (simp add: unat_of_nat take_bit_nat_eq_self)
    then show ?thesis
      using that by (simp only: unat_sub_if' word_size) auto
  qed
  have "\<exists>off\<in>set (object_fields ty ?sz). length m1 < off + 8"
    using assms(2)
  proof
    assume ty: "ty = OBJECT_ENTRY"
    have "2 ^ 59 \<le> OBJECT_N_ITEMS ?sz 64 16"
      using wrap [of 64] assms(3) ty unfolding OBJECT_N_ITEMS_def by simp
    then have "64 + 8 * 2 ^ 59 \<in> set (object_fields ty ?sz)"
      using ty by (auto intro!: imageI)
    then show ?thesis using len assms(5) by (rule_tac bexI) auto
  next
    assume ty: "ty = OBJECT_ENTRY_ARRAY"
    have "2 ^ 60 \<le> OBJECT_N_ITEMS ?sz 24 8"
      using wrap [of 24] assms(3) ty unfolding OBJECT_N_ITEMS_def by simp
    then have "24 + 8 * 2 ^ 59 \<in> set (object_fields ty ?sz)"
      using ty by (auto intro!: imageI)
    then show ?thesis using len assms(5) by (rule_tac bexI) auto
  qed
  then show ?thesis unfolding fields by (elim bexE) (rule swap_fields_out)
qed

theorem undersized_object_overruns_witness:
  "got_object False [6, 0, 0, 0, 0, 0, 0, 0, 16, 0, 0, 0, 0, 0, 0, 0] = Fail OutOfBounds"
  by (rule undersized_object_overruns [of _ OBJECT_ENTRY_ARRAY])
    (simp_all add: object_type_of_Some_iff le64_at_def segment_def)

text \<open>C17: Reading the header of a journal, or the header of an object, out of a file that contains it
  succeeds and gives the little-endian values of its fields in the file, on a host of either
  byte order and whatever the buffers hold already, and leaves the buffers coherent.\<close>

theorem headers_read_as_stored:
  assumes "reads_file h content" and "reads_fully h content" and "coherent content j"
    and "sizeof_Header \<le> length content" and "unat off + sizeof_ObjectHeader \<le> length content"
  shows "(\<exists>j'. journal_get_header (read_chain h) be j =
        Ok (parse_header (segment 0 sizeof_Header content), j') \<and> coherent content j') \<and>
    (\<exists>j'. journal_get_object_header (read_chain h) be off j =
        Ok (parse_object_header (segment (unat off) sizeof_ObjectHeader content), j') \<and>
        coherent content j')"
proof -
  have inv: "reads_file h content \<and> reads_fully h content \<and> coherent content j" using assms by simp
  obtain j1 where j1: "read_chain h j 0 256 = Ok (segment 0 256 content, j1)" "coherent content j1"
    using chain_full.rd_in_range [OF inv, of 256 0] assms(4)
    by (auto simp: sizeof_Header_def max_rw_count_def)
  obtain j2 where j2: "read_chain h j off 16 = Ok (segment (unat off) 16 content, j2)" "coherent content j2"
    using chain_full.rd_in_range [OF inv, of 16 off] assms(5)
    by (auto simp: sizeof_ObjectHeader_def max_rw_count_def)
  show ?thesis
    using j1 j2 assms(4,5)
    by (simp add: journal_get_header_def journal_get_object_header_def sizeof_Header_def
      sizeof_ObjectHeader_def got_header_parse got_object_header_parse)
qed

theorem headers_read_as_stored_witness:
  "\<exists>j'. journal_get_object_header (read_chain (file_host True (replicate 512 0))) True 256
      (link_bufs (calloc_journal ''a'')) =
    Ok (parse_object_header (segment 256 16 (replicate 512 0)), j')"
  using headers_read_as_stored [OF file_host_reads file_host_fully link_bufs_coherent,
    of "replicate 512 0" 256 True]
  by (auto simp: sizeof_Header_def sizeof_ObjectHeader_def)

text \<open>The name functions give each enumerator its own name, and \<open>UNKNOWN\<close> exactly for the values
  that are no enumerator, negative ones included; no lookup leaves the table.\<close>

theorem names_total_and_distinct:
  "(journal_object_type_str v = ''UNKNOWN'' \<longleftrightarrow> v \<notin> int ` range object_type_code) \<and>
   (journal_state_str v = ''UNKNOWN'' \<longleftrightarrow> v \<notin> int ` range journal_state_code) \<and>
   inj_on journal_object_type_str (int ` range object_type_code) \<and>
   inj_on journal_state_str (int ` range journal_state_code)"
proof -
  have t: "int ` range object_type_code = {0, 1, 2, 3, 4, 5, 6, 7}"
  proof -
    have U: "UNIV = set object_types"
      by (auto simp: object_types_def intro: ObjectType.exhaust)
    show ?thesis unfolding U by (simp add: object_types_def)
  qed
  have s: "int ` range journal_state_code = {0, 1, 2}"
  proof -
    have U: "UNIV = {STATE_OFFLINE, STATE_ONLINE, STATE_ARCHIVED}"
      by (auto intro: JournalState.exhaust)
    show ?thesis unfolding U by simp
  qed
  have iv: "v < 0 \<or> 8 \<le> v \<or> v \<in> {0, 1, 2, 3, 4, 5, 6, 7}"
    by auto
  have t1: "journal_object_type_str v = ''UNKNOWN'' \<longleftrightarrow> v \<notin> int ` range object_type_code"
    unfolding t using iv
    by (elim disjE insertE emptyE) (simp_all add: journal_object_type_str_def object_type_names_def)
  have s1: "journal_state_str v = ''UNKNOWN'' \<longleftrightarrow> v \<notin> int ` range journal_state_code"
    unfolding s using iv
    by (elim disjE insertE emptyE) (simp_all add: journal_state_str_def state_names_def)
  have "inj_on journal_object_type_str (int ` range object_type_code)"
    unfolding t by (simp add: journal_object_type_str_def object_type_names_def)
  moreover have "inj_on journal_state_str (int ` range journal_state_code)"
    unfolding s by (simp add: journal_state_str_def state_names_def)
  ultimately show ?thesis using t1 s1 by blast
qed

end
