(* ===== verification/Journal_Iter.thy ===== *)
theory Journal_Iter
  imports Journal_Object
begin

text \<open>
  The object iterators of \<^verbatim>\<open>journals.c\<close>: \<open>journal_iter_next_object\<close>, one step over the objects
  of a journal, and \<open>journal_iter_objects\<close>, the loop that dispatches a closure for each object.
  A closure is a function of the iterator and of the caller's state; a negative return is a
  \<open>Fail\<close>.  The loop is a \<open>partial_function\<close>: \<open>None\<close> is a loop that never returns.
\<close>

section \<open>Operations\<close>

record iter =
  it_offset :: u64 \<comment> \<open>\<open>*iter_offset\<close>\<close>
  it_header :: ObjectHeader \<comment> \<open>\<open>*iter_object_header\<close>\<close>

definition got_iter_object_header :: "bool \<Rightarrow> ObjectHeader \<Rightarrow> ObjectHeader" where
  "got_iter_object_header be h = h\<lparr>o_size := le64toh be (o_size h)\<rparr>"

text \<open>The offset the next step looks at.\<close>

definition iter_next_offset :: "Header \<Rightarrow> iter \<Rightarrow> u64" where
  "iter_next_offset header it =
     (if it_offset it = 0 then header_size header
      else if o_size (it_header it) \<noteq> 0 then it_offset it + ALIGN64 (o_size (it_header it))
      else tail_object_offset header + 1)"

definition journal_iter_next_object ::
  "'j reader \<Rightarrow> bool \<Rightarrow> Header \<Rightarrow> iter \<Rightarrow> 'j \<Rightarrow> (iter \<times> 'j) res" where
  "journal_iter_next_object rd be header it j =
     (let off = iter_next_offset header it in
      if tail_object_offset header < off then Ok (it\<lparr>it_offset := 0\<rparr>, j)
      else res_map (\<lambda>(bs, j'). (\<lparr>it_offset = off,
               it_header = got_iter_object_header be (object_header_of_mem be bs)\<rparr>, j'))
             (rd j off (of_nat sizeof_ObjectHeader)))"

text \<open>What a step prints on standard error, for the journal of this name.\<close>

definition iter_next_prints :: "string \<Rightarrow> iter \<Rightarrow> string" where
  "iter_next_prints name it =
     (if it_offset it \<noteq> 0 \<and> o_size (it_header it) = 0
      then ''Encountered zero-sized object, journal '' @ [CHR 0x22] @ name @ [CHR 0x22] @
        '' appears corrupt, ignoring remainder'' @ newline
      else [])"

type_synonym ('i, 's) closure = "'i \<Rightarrow> 's \<Rightarrow> 's res"

partial_function (option) journal_iter_objects_dispatch ::
  "'j reader \<Rightarrow> bool \<Rightarrow> Header \<Rightarrow> (iter, 's) closure \<Rightarrow> iter \<Rightarrow> 'j \<Rightarrow> 's
     \<Rightarrow> (iter \<times> 'j \<times> 's) res option" where
  "journal_iter_objects_dispatch rd be header closure it j s =
     (case closure it s of
        Fail e \<Rightarrow> Some (Fail e)
      | Ok s' \<Rightarrow>
          if it_offset it = 0 then Some (Ok (it, j, s'))
          else case journal_iter_next_object rd be header it j of
                 Fail e \<Rightarrow> Some (Fail e)
               | Ok (it', j') \<Rightarrow> journal_iter_objects_dispatch rd be header closure it' j' s')"

definition journal_iter_objects ::
  "'j reader \<Rightarrow> bool \<Rightarrow> Header \<Rightarrow> (iter, 's) closure \<Rightarrow> iter \<Rightarrow> 'j \<Rightarrow> 's
     \<Rightarrow> (iter \<times> 'j \<times> 's) res option" where
  "journal_iter_objects rd be header closure it j s =
     (case journal_iter_next_object rd be header (it\<lparr>it_offset := 0\<rparr>) j of
        Fail e \<Rightarrow> Some (Fail e)
      | Ok (it', j') \<Rightarrow> journal_iter_objects_dispatch rd be header closure it' j' s)"

section \<open>What is to be visited\<close>

text \<open>The objects of a file from an offset to the tail object, when their sizes chain up.\<close>

fun object_chain :: "bytes \<Rightarrow> u64 \<Rightarrow> u64 \<Rightarrow> (u64 \<times> ObjectHeader) list \<Rightarrow> bool" where
  "object_chain content off tail [] \<longleftrightarrow> tail < off"
| "object_chain content off tail ((o', h) # objs) \<longleftrightarrow>
     o' = off \<and> off \<noteq> 0 \<and> off \<le> tail \<and> unat off + sizeof_ObjectHeader \<le> length content \<and>
     h = parse_object_header (segment (unat off) sizeof_ObjectHeader content) \<and>
     o_size h \<noteq> 0 \<and> object_chain content (off + ALIGN64 (o_size h)) tail objs"

text \<open>A closure dispatched along a list of iterators, stopping at its first failure.\<close>

fun dispatch_all :: "('i, 's) closure \<Rightarrow> 'i list \<Rightarrow> 's \<Rightarrow> 's res" where
  "dispatch_all closure [] s = Ok s"
| "dispatch_all closure (it # its) s = res_bind (closure it s) (dispatch_all closure its)"

text \<open>
  The iterators a closure is given: one for each object and a last one at offset 0 that still
  holds the header of the last object.
\<close>

fun visits :: "ObjectHeader \<Rightarrow> (u64 \<times> ObjectHeader) list \<Rightarrow> iter list" where
  "visits h0 [] = [\<lparr>it_offset = 0, it_header = h0\<rparr>]"
| "visits h0 ((off, h) # objs) = \<lparr>it_offset = off, it_header = h\<rparr> # visits h objs"

lemma dispatch_all_append:
  "dispatch_all closure (as @ bs) s = res_bind (dispatch_all closure as s) (dispatch_all closure bs)"
  by (induction as arbitrary: s) (auto simp: res_bind_assoc intro: res_bind_cong)

lemma got_iter_object_header_parse:
  "length m = sizeof_ObjectHeader \<Longrightarrow>
     got_iter_object_header be (object_header_of_mem be m) = parse_object_header m"
  using got_object_header_parse [of m be]
  by (simp add: got_iter_object_header_def got_object_header_def)

lemma final_dispatch:
  "it_offset it = 0 \<Longrightarrow> journal_iter_objects_dispatch rd be header closure it j s =
     Some (res_map (\<lambda>s'. (it, j, s')) (dispatch_all closure [it] s))"
  by (cases "closure it s") (simp_all add: journal_iter_objects_dispatch.simps)

lemma iter_at_end: "it\<lparr>it_offset := 0\<rparr> = \<lparr>it_offset = 0, it_header = it_header it\<rparr>"
  by simp

definition header_at :: "bytes \<Rightarrow> u64 \<Rightarrow> ObjectHeader" where
  "header_at content off = parse_object_header (segment (unat off) sizeof_ObjectHeader content)"

text \<open>The iterator stands at an object whose size rounds up past \<open>2 ^ 64\<close>.\<close>

definition stuck_at :: "bytes \<Rightarrow> Header \<Rightarrow> iter \<Rightarrow> bool" where
  "stuck_at content header it \<longleftrightarrow> it_offset it \<noteq> 0 \<and> it_offset it \<le> tail_object_offset header \<and>
     unat (it_offset it) + sizeof_ObjectHeader \<le> length content \<and>
     it_header it = header_at content (it_offset it) \<and> o_size (it_header it) \<noteq> 0 \<and>
     2 ^ 64 \<le> unat (o_size (it_header it)) + 7"

section \<open>The iterator over any complete reader\<close>

context complete_reader
begin

lemma next_object_reads:
  assumes "inv j" and "iter_next_offset header it \<le> tail_object_offset header"
    and "unat (iter_next_offset header it) + sizeof_ObjectHeader \<le> length content"
  obtains j' where "inv j'" and "journal_iter_next_object rd be header it j =
    Ok (\<lparr>it_offset = iter_next_offset header it,
         it_header = header_at content (iter_next_offset header it)\<rparr>, j')"
proof -
  let ?off = "iter_next_offset header it"
  obtain j' where j': "rd j ?off 16 = Ok (segment (unat ?off) 16 content, j')" "inv j'"
    by (rule rd_in_range [OF assms(1), of 16 ?off])
      (use assms(3) in \<open>simp_all add: sizeof_ObjectHeader_def max_rw_count_def\<close>)
  show ?thesis
    by (rule that [OF j'(2)])
      (use assms(2,3) j'(1) leD [OF assms(2)] in \<open>simp add: journal_iter_next_object_def Let_def
        sizeof_ObjectHeader_def header_at_def got_iter_object_header_parse\<close>)
qed

lemma dispatch_visits:
  assumes "inv j" and "it_offset it \<noteq> 0" and "o_size (it_header it) \<noteq> 0"
    and "object_chain content (it_offset it + ALIGN64 (o_size (it_header it)))
           (tail_object_offset header) objs"
  shows "\<exists>it' j'. inv j' \<and> it_offset it' = 0 \<and>
    journal_iter_objects_dispatch rd be header closure it j s =
      Some (res_map (\<lambda>s'. (it', j', s')) (dispatch_all closure (it # visits (it_header it) objs) s))"
  using assms
proof (induction objs arbitrary: it j s)
  case Nil
  then have nxt: "journal_iter_next_object rd be header it j =
      Ok (\<lparr>it_offset = 0, it_header = it_header it\<rparr>, j)" (is "_ = Ok (?it, j)")
    by (simp add: journal_iter_next_object_def iter_next_offset_def Let_def)
  have "journal_iter_objects_dispatch rd be header closure it j s =
      Some (res_map (\<lambda>s'. (?it, j, s')) (dispatch_all closure (it # visits (it_header it) []) s))"
    using Nil.prems(2) nxt
    by (subst journal_iter_objects_dispatch.simps) (simp add: final_dispatch split: res.split)
  then show ?case using Nil.prems(1) by force
next
  case (Cons ob objs)
  obtain off h where ob: "ob = (off, h)" by (cases ob)
  let ?it = "\<lparr>it_offset = off, it_header = h\<rparr>"
  have off: "iter_next_offset header it = off"
    using Cons.prems ob by (simp add: iter_next_offset_def)
  obtain j1 where j1: "inv j1" "journal_iter_next_object rd be header it j = Ok (?it, j1)"
    by (rule next_object_reads [of j header it, OF Cons.prems(1)])
      (use Cons.prems ob off in \<open>auto simp: header_at_def\<close>)
  show ?case
  proof (cases "closure it s")
    case (Ok s')
    obtain it' j' where IH: "inv j'" "it_offset it' = 0"
      "journal_iter_objects_dispatch rd be header closure ?it j1 s' =
        Some (res_map (\<lambda>s'. (it', j', s')) (dispatch_all closure (?it # visits h objs) s'))"
      using Cons.IH [of j1 ?it s'] j1(1) Cons.prems ob by auto
    then show ?thesis
      using Ok j1(2) Cons.prems(2) ob
      by (subst journal_iter_objects_dispatch.simps) auto
  next
    case (Fail e)
    then show ?thesis
      using j1(1) by (subst journal_iter_objects_dispatch.simps)
        (auto intro!: exI [of _ "it\<lparr>it_offset := 0\<rparr>"])
  qed
qed

lemma iter_objects_visits:
  assumes "inv j" and "object_chain content (header_size header) (tail_object_offset header) objs"
  shows "\<exists>it' j'. inv j' \<and> it_offset it' = 0 \<and>
    journal_iter_objects rd be header closure it j s =
      Some (res_map (\<lambda>s'. (it', j', s')) (dispatch_all closure (visits (it_header it) objs) s))"
proof (cases objs)
  case Nil
  then have "journal_iter_next_object rd be header (it\<lparr>it_offset := 0\<rparr>) j =
      Ok (\<lparr>it_offset = 0, it_header = it_header it\<rparr>, j)" (is "_ = Ok (?it, j)")
    using assms by (simp add: journal_iter_next_object_def iter_next_offset_def Let_def)
  then have "journal_iter_objects rd be header closure it j s =
      Some (res_map (\<lambda>s'. (?it, j, s')) (dispatch_all closure (visits (it_header it) objs) s))"
    using Nil by (simp add: journal_iter_objects_def final_dispatch)
  then show ?thesis using assms(1) by force
next
  case (Cons ob rest)
  obtain off h where ob: "ob = (off, h)" by (cases ob)
  let ?it = "\<lparr>it_offset = off, it_header = h\<rparr>"
  have off: "iter_next_offset header (it\<lparr>it_offset := 0\<rparr>) = off"
    using assms(2) Cons ob by (simp add: iter_next_offset_def)
  obtain j1 where j1: "inv j1"
    "journal_iter_next_object rd be header (it\<lparr>it_offset := 0\<rparr>) j = Ok (?it, j1)"
    by (rule next_object_reads [of j header "it\<lparr>it_offset := 0\<rparr>", OF assms(1)])
      (use assms(2) Cons ob off in \<open>auto simp: header_at_def\<close>)
  moreover obtain it' j' where "inv j'" "it_offset it' = 0"
    "journal_iter_objects_dispatch rd be header closure ?it j1 s =
      Some (res_map (\<lambda>s'. (it', j', s')) (dispatch_all closure (?it # visits h rest) s))"
    using dispatch_visits [of j1 ?it header rest be closure s] j1(1) assms(2) Cons ob by auto
  ultimately show ?thesis
    using Cons ob by (auto simp: journal_iter_objects_def)
qed

text \<open>An object whose size rounds up past \<open>2 ^ 64\<close> is never left.\<close>

lemma stuck_step:
  assumes "inv j" and "stuck_at content header it"
  obtains j' where "inv j'" and "journal_iter_next_object rd be header it j = Ok (it, j')"
proof -
  have "ALIGN64 (o_size (it_header it)) = 0"
    by (rule ALIGN64_wraps_to_0) (use assms(2) in \<open>unfold stuck_at_def, blast\<close>)
  moreover have "o_size (it_header it) \<noteq> 0" "it_offset it \<noteq> 0"
    using assms(2) unfolding stuck_at_def by blast+
  ultimately have off: "iter_next_offset header it = it_offset it"
    by (simp add: iter_next_offset_def)
  obtain j' where j': "inv j'" "journal_iter_next_object rd be header it j =
      Ok (\<lparr>it_offset = it_offset it, it_header = it_header it\<rparr>, j')"
    by (rule next_object_reads [of j header it, OF assms(1)])
      (use assms(2) off in \<open>auto simp: stuck_at_def\<close>)
  show ?thesis by (rule that [OF j'(1)]) (use j'(2) in simp)
qed

lemma dispatch_stuck:
  assumes "journal_iter_objects_dispatch rd be header closure it j s = Some r"
  shows "inv j \<and> stuck_at content header it \<and> (\<forall>it s. \<exists>s'. closure it s = Ok s') \<longrightarrow> False"
proof -
  have "rd = rd \<longrightarrow> ?thesis"
  proof (rule journal_iter_objects_dispatch.raw_induct [OF _ assms, where P =
        "\<lambda>rd' be header closure it j s r. rd' = rd \<longrightarrow>
           inv j \<and> stuck_at content header it \<and> (\<forall>it s. \<exists>s'. closure it s = Ok s') \<longrightarrow> False"])
    fix loop rd' be header closure it j s r
    assume IH: "\<And>rd' be header closure it j s r. loop rd' be header closure it j s = Some r \<Longrightarrow>
        rd' = rd \<longrightarrow> inv j \<and> stuck_at content header it \<and> (\<forall>it s. \<exists>s'. closure it s = Ok s') \<longrightarrow> False"
      and body: "(case closure it s of Fail e \<Rightarrow> Some (Fail e)
        | Ok s' \<Rightarrow> if it_offset it = 0 then Some (Ok (it, j, s'))
            else case journal_iter_next_object rd' be header it j of Fail e \<Rightarrow> Some (Fail e)
              | Ok (it', j') \<Rightarrow> loop rd' be header closure it' j' s') = Some r"
    show "rd' = rd \<longrightarrow> inv j \<and> stuck_at content header it \<and> (\<forall>it s. \<exists>s'. closure it s = Ok s') \<longrightarrow> False"
    proof (intro impI, elim conjE)
      assume *: "rd' = rd" "inv j" "stuck_at content header it" "\<forall>it s. \<exists>s'. closure it s = Ok s'"
      obtain j' where j': "inv j'" "journal_iter_next_object rd be header it j = Ok (it, j')"
        by (rule stuck_step [OF *(2,3)])
      obtain s' where "closure it s = Ok s'" using *(4) by blast
      then have "loop rd be header closure it j' s' = Some r"
        using body j'(2) *(1,3) by (simp add: stuck_at_def)
      from IH [OF this] * j'(1) show False by blast
    qed
  qed
  then show ?thesis by simp
qed

lemma iter_objects_stuck:
  assumes "inv j" and "header_size header \<noteq> 0" and "header_size header \<le> tail_object_offset header"
    and "unat (header_size header) + sizeof_ObjectHeader \<le> length content"
    and "2 ^ 64 \<le> unat (o_size (header_at content (header_size header))) + 7"
    and "\<forall>it s. \<exists>s'. closure it s = Ok s'"
  shows "journal_iter_objects rd be header closure it j s = None"
proof -
  let ?it = "\<lparr>it_offset = header_size header, it_header = header_at content (header_size header)\<rparr>"
  have off: "iter_next_offset header (it\<lparr>it_offset := 0\<rparr>) = header_size header"
    by (simp add: iter_next_offset_def)
  obtain j1 where j1: "inv j1"
    "journal_iter_next_object rd be header (it\<lparr>it_offset := 0\<rparr>) j = Ok (?it, j1)"
    by (rule next_object_reads [of j header "it\<lparr>it_offset := 0\<rparr>", OF assms(1)]) (use assms off in auto)
  have "o_size (header_at content (header_size header)) \<noteq> 0" using assms(5) by auto
  then have "journal_iter_objects_dispatch rd be header closure ?it j1 s = None"
    using dispatch_stuck [of be header closure ?it j1 s] j1(1) assms
    by (cases "journal_iter_objects_dispatch rd be header closure ?it j1 s")
      (auto simp: stuck_at_def)
  then show ?thesis using j1(2) by (simp add: journal_iter_objects_def)
qed

end

section \<open>Termination\<close>

text \<open>
  The offsets that an iteration can come to: the first is the end of the header, and from an object that is
  not beyond the tail and lies in the file the next is past its padded size.
\<close>

definition iterated_at :: "bytes \<Rightarrow> Header \<Rightarrow> u64 \<Rightarrow> bool" where
  "iterated_at content header off \<longleftrightarrow>
     off \<noteq> 0 \<and> off \<le> tail_object_offset header \<and> unat off + sizeof_ObjectHeader \<le> length content"

inductive_set iter_offsets :: "bytes \<Rightarrow> Header \<Rightarrow> u64 set" for content header where
  first: "header_size header \<in> iter_offsets content header"
| another: "off \<in> iter_offsets content header \<Longrightarrow> iterated_at content header off \<Longrightarrow>
     off + ALIGN64 (o_size (header_at content off)) \<in> iter_offsets content header"

text \<open>No object that is come to claims a size that would carry its end past \<open>2 ^ 64\<close>.\<close>

definition sizes_fit :: "bytes \<Rightarrow> Header \<Rightarrow> bool" where
  "sizes_fit content header \<longleftrightarrow>
     (\<forall>off\<in>iter_offsets content header. iterated_at content header off \<longrightarrow>
        unat off + unat (o_size (header_at content off)) + 7 < 2 ^ 64)"

lemma sizes_fit_step:
  assumes "sizes_fit content header" and "off \<in> iter_offsets content header" and "iterated_at content header off"
    and "o_size (header_at content off) \<noteq> 0"
  shows "unat off < unat (off + ALIGN64 (o_size (header_at content off)))"
proof -
  let ?sz = "o_size (header_at content off)"
  have fit: "unat off + unat ?sz + 7 < 2 ^ 64" using assms(1-3) by (simp add: sizes_fit_def)
  then have "unat (ALIGN64 ?sz) = (unat ?sz + 7) div 8 * 8"
    by (intro unat_ALIGN64_no_wrap) simp
  then have b: "unat ?sz \<le> unat (ALIGN64 ?sz)" "unat (ALIGN64 ?sz) \<le> unat ?sz + 7" by linarith+
  have "0 < unat ?sz" using assms(4) by (simp add: unat_gt_0)
  moreover have "unat (off + ALIGN64 ?sz) = unat off + unat (ALIGN64 ?sz)"
    by (rule unat_add_no_wrap) (use b fit in simp)
  ultimately show ?thesis using b by simp
qed

context sound_reader
begin

lemma next_object_sound:
  assumes "inv j" and "journal_iter_next_object rd be header it j = Ok (it', j')"
  shows "inv j'" and "it_offset it' = 0 \<or>
    (it_offset it' = iter_next_offset header it \<and> iterated_at content header (it_offset it') \<and>
     it_header it' = header_at content (it_offset it'))"
proof -
  have "inv j' \<and> (it_offset it' = 0 \<or>
    (it_offset it' = iter_next_offset header it \<and> iterated_at content header (it_offset it') \<and>
     it_header it' = header_at content (it_offset it')))"
  proof (cases "tail_object_offset header < iter_next_offset header it")
    case True
    then show ?thesis using assms by (auto simp: journal_iter_next_object_def Let_def)
  next
    case False
    then obtain bs where bs: "rd j (iter_next_offset header it) 16 = Ok (bs, j')"
      "it' = \<lparr>it_offset = iter_next_offset header it,
         it_header = got_iter_object_header be (object_header_of_mem be bs)\<rparr>"
      using assms(2) by (auto simp: journal_iter_next_object_def Let_def res_map_Ok_iff sizeof_ObjectHeader_def)
    show ?thesis
      using rd_sound [OF assms(1) bs(1)] bs(2) False got_iter_object_header_parse [of bs be]
      by (auto simp: header_at_def sizeof_ObjectHeader_def iterated_at_def segment_def)
  qed
  then show "inv j'" and "it_offset it' = 0 \<or>
    (it_offset it' = iter_next_offset header it \<and> iterated_at content header (it_offset it') \<and>
     it_header it' = header_at content (it_offset it'))" by blast+
qed

lemma dispatch_terminates:
  assumes "sizes_fit content header" and "inv j"
    and "it_offset it = 0 \<or> (it_offset it \<in> iter_offsets content header \<and> iterated_at content header (it_offset it) \<and>
           it_header it = header_at content (it_offset it))"
  shows "\<exists>r. journal_iter_objects_dispatch rd be header closure it j s = Some r"
  using assms(2,3)
proof (induction "if it_offset it = 0 then 0 else Suc (unat (tail_object_offset header) - unat (it_offset it))"
    arbitrary: it j s rule: less_induct)
  case less
  let ?tail = "tail_object_offset header"
  show ?case
  proof (cases "it_offset it = 0 \<or> (\<exists>e. closure it s = Fail e) \<or>
      (\<exists>e. journal_iter_next_object rd be header it j = Fail e)")
    case True
    then show ?thesis
      by (subst journal_iter_objects_dispatch.simps) (auto split: res.split)
  next
    case False
    then obtain s' it' j' where step: "closure it s = Ok s'" "it_offset it \<noteq> 0"
        "journal_iter_next_object rd be header it j = Ok (it', j')"
      by (metis res.exhaust surj_pair)
    have at: "it_offset it \<in> iter_offsets content header" "iterated_at content header (it_offset it)"
      and hd: "it_header it = header_at content (it_offset it)"
      using less.prems(2) step(2) by auto
    note it' = next_object_sound [OF less.prems(1) step(3)]
    have adv: "it_offset it' = 0 \<or>
      unat (it_offset it) < unat (it_offset it') \<and> it_offset it' \<in> iter_offsets content header"
    proof (cases "o_size (it_header it) = 0")
      case True
      then have "iter_next_offset header it = ?tail + 1" using step(2) by (simp add: iter_next_offset_def)
      moreover have "?tail + 1 = 0 \<or> \<not> ?tail + 1 \<le> ?tail" by unat_arith
      ultimately show ?thesis using it'(2) by (auto simp: iterated_at_def)
    next
      case False
      then show ?thesis
        using it'(2) sizes_fit_step [OF assms(1) at] iter_offsets.another [OF at] step(2) hd by (auto simp: iter_next_offset_def)
    qed
    moreover have "unat (it_offset it) \<le> unat ?tail" using at(2) by (simp add: word_le_nat_alt iterated_at_def)
    moreover have "it_offset it' = 0 \<or> unat (it_offset it') \<le> unat ?tail"
      using it'(2) by (auto simp: word_le_nat_alt iterated_at_def)
    ultimately have "(if it_offset it' = 0 then 0 else Suc (unat ?tail - unat (it_offset it')))
        < (if it_offset it = 0 then 0 else Suc (unat ?tail - unat (it_offset it)))"
      using step(2) by auto
    then have "\<exists>r. journal_iter_objects_dispatch rd be header closure it' j' s' = Some r"
      by (rule less.hyps [OF _ it'(1)]) (use it'(2) adv in blast)
    then show ?thesis
      using step by (subst journal_iter_objects_dispatch.simps) simp
  qed
qed

lemma iter_objects_terminates:
  assumes "sizes_fit content header" and "inv j"
  shows "\<exists>r. journal_iter_objects rd be header closure it j s = Some r"
proof (cases "journal_iter_next_object rd be header (it\<lparr>it_offset := 0\<rparr>) j")
  case (Ok p)
  then obtain it' j' where p: "p = (it', j')" by (cases p)
  note it' = next_object_sound [OF assms(2) Ok [unfolded p]]
  have "\<exists>r. journal_iter_objects_dispatch rd be header closure it' j' s = Some r"
    by (rule dispatch_terminates [OF assms(1) it'(1)])
      (use it'(2) in \<open>auto simp: iter_next_offset_def intro: iter_offsets.first\<close>)
  then show ?thesis using Ok p by (simp add: journal_iter_objects_def)
qed (simp add: journal_iter_objects_def)

end


section \<open>Properties\<close>

text \<open>C13: \<open>journal_iter_objects\<close> over a journal whose objects chain up from the end of the header to
  past the tail object dispatches the closure once for each object, in file order and with the
  object's own header, then once more at offset 0, and stops at the closure's first failure.\<close>

theorem iter_objects_visits_chain:
  assumes "reads_file h content" and "reads_fully h content" and "coherent content j"
    and "object_chain content (header_size header) (tail_object_offset header) objs"
  shows "\<exists>it' j'. it_offset it' = 0 \<and> coherent content j' \<and>
    journal_iter_objects (read_chain h) be header closure it j s =
      Some (res_map (\<lambda>s'. (it', j', s')) (dispatch_all closure (visits (it_header it) objs) s))"
proof -
  have "reads_file h content \<and> reads_fully h content \<and> coherent content j" using assms by simp
  from chain_full.iter_objects_visits [OF this assms(4), of be closure it s] show ?thesis by blast
qed

text \<open>A journal of a header, a data object of 20 bytes padded to 24, and a tag header.\<close>

definition zero_iter :: iter where
  "zero_iter = \<lparr>it_offset = 0, it_header = \<lparr>o_type = 0, o_flags = 0, o_reserved = [], o_size = 0\<rparr>\<rparr>"

definition two_objects :: bytes where
  "two_objects = replicate 256 0 @ [1, 0, 0, 0, 0, 0, 0, 0, 20, 0, 0, 0, 0, 0, 0, 0] @ replicate 8 0 @
     [7, 0, 0, 0, 0, 0, 0, 0, 64, 0, 0, 0, 0, 0, 0, 0]"

definition two_objects_header :: Header where
  "two_objects_header = (parse_header (replicate 256 0))\<lparr>header_size := 256, tail_object_offset := 280\<rparr>"

definition two_objects_list :: "(u64 \<times> ObjectHeader) list" where
  "two_objects_list =
     [(256, \<lparr>o_type = 1, o_flags = 0, o_reserved = [0, 0, 0, 0, 0, 0], o_size = 20\<rparr>),
      (280, \<lparr>o_type = 7, o_flags = 0, o_reserved = [0, 0, 0, 0, 0, 0], o_size = 64\<rparr>)]"

lemma two_objects_chain:
  "object_chain two_objects (header_size two_objects_header) (tail_object_offset two_objects_header)
     two_objects_list"
  by (simp add: two_objects_header_def two_objects_list_def two_objects_def segment_def
    parse_object_header_def le64_at_def ALIGN64_def sizeof_ObjectHeader_def)

theorem iter_objects_visits_chain_witness:
  "\<exists>it' j'. journal_iter_objects (read_chain (file_host False two_objects)) False two_objects_header
      (\<lambda>it offs. Ok (offs @ [it_offset it])) zero_iter (link_bufs (calloc_journal ''a'')) [] =
    Some (Ok (it', j', [256, 280, 0]))"
  using iter_objects_visits_chain [OF file_host_reads file_host_fully link_bufs_coherent
    two_objects_chain, of False False "\<lambda>it offs. Ok (offs @ [it_offset it])" zero_iter "''a''" "[]"]
  by (auto simp: two_objects_list_def two_objects_def)

text \<open>C29: The iteration returns, with success or an error, whatever the file holds and however reads
  fail, when none of the objects that it comes to claims a size that carries its end past \<open>2 ^ 64\<close>.\<close>

theorem iter_objects_returns:
  assumes "reads_file h content" and "coherent content j"
    and "sizes_fit content header"
  shows "\<exists>r. journal_iter_objects (read_chain h) be header closure it j s = Some r"
  by (rule chain.iter_objects_terminates [OF assms(3)]) (use assms in simp)

text \<open>In a journal whose objects chain up the offsets that are come to are those of the objects, and one past them.\<close>

lemma chain_iter_offsets:
  assumes "object_chain content (header_size header) (tail_object_offset header) objs"
    and "off \<in> iter_offsets content header" and "iterated_at content header off"
  shows "(off, header_at content off) \<in> set objs"
proof -
  have "\<exists>pre rest. objs = pre @ rest \<and> object_chain content off (tail_object_offset header) rest"
    using assms(2)
  proof induction
    case first
    show ?case using assms(1) by (intro exI [of _ "[]"] exI [of _ objs]) simp
  next
    case (another off)
    then obtain pre rest where r: "objs = pre @ rest" "object_chain content off (tail_object_offset header) rest" by blast
    obtain h rest' where "rest = (off, h) # rest'" using r(2) another(2) by (cases rest) (auto simp: iterated_at_def)
    then have "objs = (pre @ [(off, h)]) @ rest' \<and>
        object_chain content (off + ALIGN64 (o_size (header_at content off))) (tail_object_offset header) rest'"
      using r by (auto simp: header_at_def)
    then show ?case by blast
  qed
  then obtain pre rest where "objs = pre @ rest" "object_chain content off (tail_object_offset header) rest" by blast
  then show ?thesis using assms(3) by (cases rest) (auto simp: iterated_at_def header_at_def)
qed

theorem iter_objects_returns_witness:
  "\<exists>r. journal_iter_objects (read_chain (file_host True two_objects)) True two_objects_header
     (\<lambda>it offs. Ok (offs @ [it_offset it])) zero_iter (link_bufs (calloc_journal ''a'')) [] = Some r"
proof (rule iter_objects_returns [OF file_host_reads link_bufs_coherent])
  have "off = 256 \<and> o_size (header_at two_objects off) = 20 \<or> off = 280 \<and> o_size (header_at two_objects off) = 64"
    if "off \<in> iter_offsets two_objects two_objects_header" "iterated_at two_objects two_objects_header off" for off
    using chain_iter_offsets [OF two_objects_chain that] by (auto simp: two_objects_list_def)
  then show "sizes_fit two_objects two_objects_header" by (fastforce simp: sizes_fit_def)
qed (simp add: two_objects_def)

text \<open>C39: An object of a size in the last seven below \<open>2 ^ 64\<close> is never left: its padded size is 0, the
  iterator stays at its offset, and the closure is dispatched for it for ever.\<close>

theorem iter_objects_stuck_on_huge_size:
  assumes "reads_file h content" and "reads_fully h content" and "coherent content j"
    and "header_size header \<noteq> 0" and "header_size header \<le> tail_object_offset header"
    and "unat (header_size header) + sizeof_ObjectHeader \<le> length content"
    and "2 ^ 64 \<le> unat (o_size (header_at content (header_size header))) + 7"
    and "\<forall>it s. \<exists>s'. closure it s = Ok s'"
  shows "journal_iter_objects (read_chain h) be header closure it j s = None"
  by (rule chain_full.iter_objects_stuck [OF _ assms(4-8)]) (use assms in simp)

definition huge_object :: bytes where
  "huge_object = replicate 256 0 @ [1, 0, 0, 0, 0, 0, 0, 0, 255, 255, 255, 255, 255, 255, 255, 255]"

theorem iter_objects_stuck_on_huge_size_witness:
  "journal_iter_objects (read_chain (file_host False huge_object)) False
     ((parse_header (replicate 256 0))\<lparr>header_size := 256, tail_object_offset := 256\<rparr>)
     (\<lambda>it n. Ok (Suc n)) zero_iter (link_bufs (calloc_journal ''a'')) 0 = None"
  by (rule iter_objects_stuck_on_huge_size [OF file_host_reads file_host_fully link_bufs_coherent])
    (simp_all add: huge_object_def sizeof_ObjectHeader_def header_at_def parse_object_header_def
      le64_at_def segment_def)

end
