(* ===== verification/Hash_Table.thy ===== *)
theory Hash_Table
  imports Journal_Iter
begin

text \<open>
  Hash tables of a journal (\<^verbatim>\<open>journals.c\<close>): loading a table, the iterator over the objects
  its buckets chain together, and the loop that dispatches a closure for each.  The memory at
  \<open>iter_object_header\<close>, of \<open>iter_object_size\<close> bytes, is kept as the bytes it holds.
\<close>

section \<open>Loading a table\<close>

definition got_hashtable :: "bool \<Rightarrow> u64 \<Rightarrow> bytes \<Rightarrow> HashItem list" where
  "got_hashtable be sz m =
     map (\<lambda>i. let item = hash_item_of_mem be m i in
            item\<lparr>head_hash_offset := le64toh be (head_hash_offset item),
                 tail_hash_offset := le64toh be (tail_hash_offset item)\<rparr>)
       [0..<unat sz div sizeof_HashItem]"

definition journal_get_hash_table ::
  "'j reader \<Rightarrow> bool \<Rightarrow> bool \<Rightarrow> u64 \<Rightarrow> u64 \<Rightarrow> 'j \<Rightarrow> (HashItem list \<times> 'j) res" where
  "journal_get_hash_table rd be malloc_ok hash_table_offset hash_table_size j =
     (if \<not> malloc_ok then Fail (Errno (- ENOMEM))
      else res_map (\<lambda>(bs, j'). (got_hashtable be hash_table_size bs, j'))
             (rd j hash_table_offset hash_table_size))"

section \<open>The iterator\<close>

record hash_iter =
  hi_bucket :: nat \<comment> \<open>\<open>*iter_bucket\<close>; at most \<open>2 ^ 60\<close>, so its increments do not wrap\<close>
  hi_offset :: u64 \<comment> \<open>\<open>*iter_offset\<close>\<close>
  hi_object :: bytes \<comment> \<open>the memory at \<open>iter_object_header\<close>\<close>

text \<open>The parameter the source calls \<open>nbuckets\<close> here is passed the table's size in bytes.\<close>

definition got_hash_table_iter_object_header ::
  "bool \<Rightarrow> u64 \<Rightarrow> nat \<Rightarrow> nat \<Rightarrow> bytes \<Rightarrow> bytes res" where
  "got_hash_table_iter_object_header be nbuckets iter_bucket iter_object_size m =
     res_bind (assert_that (iter_bucket < unat nbuckets)) (\<lambda>_.
     res_bind (swap_fields be [8, 16, 24] m) (\<lambda>m1.
     if sizeof_HashedObjectHeader < iter_object_size then
       (case object_type_of (m1 ! 0) of
          Some OBJECT_DATA \<Rightarrow>
            res_bind (assert_that (sizeof_DataObject \<le> iter_object_size)) (\<lambda>_.
            swap_fields be [32, 40, 48, 56] m1)
        | Some OBJECT_FIELD \<Rightarrow>
            res_bind (assert_that (sizeof_FieldObject \<le> iter_object_size)) (\<lambda>_.
            swap_fields be [32] m1)
        | _ \<Rightarrow> Fail AssertFail)
     else Ok m1))"

text \<open>The \<open>do ... while\<close> over the buckets: the next one with an object, or the end.\<close>

function next_bucket :: "HashItem list \<Rightarrow> nat \<Rightarrow> nat \<Rightarrow> (nat \<times> u64) res" where
  "next_bucket hash_table nbuckets b =
     (if nbuckets \<le> Suc b then Ok (Suc b, 0)
      else res_bind (arr_get hash_table (Suc b)) (\<lambda>item.
        if head_hash_offset item = 0 then next_bucket hash_table nbuckets (Suc b)
        else Ok (Suc b, head_hash_offset item)))"
  by pat_completeness auto

termination by (relation "measure (\<lambda>(t, n, b). n - b)") auto

declare next_bucket.simps [simp del]

definition hash_iter_position ::
  "HashItem list \<Rightarrow> nat \<Rightarrow> bool \<Rightarrow> hash_iter \<Rightarrow> (nat \<times> u64) res" where
  "hash_iter_position hash_table nbuckets be it =
     (let b = (if hi_offset it = 0 then 0 else hi_bucket it) in
      if hi_offset it \<noteq> 0 then
        res_bind (arr_get hash_table b) (\<lambda>item.
          if hi_offset it \<noteq> tail_hash_offset item
          then Ok (b, ld64 be 24 (hi_object it))
          else next_bucket hash_table nbuckets b)
      else next_bucket hash_table nbuckets b)"

definition journal_hash_table_iter_next_object ::
  "'j reader \<Rightarrow> bool \<Rightarrow> HashItem list \<Rightarrow> u64 \<Rightarrow> nat \<Rightarrow> hash_iter \<Rightarrow> 'j \<Rightarrow> (hash_iter \<times> 'j) res" where
  "journal_hash_table_iter_next_object rd be hash_table hash_table_size iter_object_size it j =
     (let nbuckets = unat hash_table_size div sizeof_HashItem in
      res_bind (assert_that (sizeof_HashItem \<le> unat hash_table_size \<and>
          sizeof_HashedObjectHeader \<le> iter_object_size)) (\<lambda>_.
      res_bind (assert_that (hi_bucket it < nbuckets)) (\<lambda>_.
      res_bind (hash_iter_position hash_table nbuckets be it) (\<lambda>(b, off).
      if b \<ge> nbuckets then Ok (it\<lparr>hi_bucket := b, hi_offset := 0\<rparr>, j)
      else
        res_bind (rd j off (of_nat iter_object_size)) (\<lambda>(bs, j').
        res_map (\<lambda>m. (\<lparr>hi_bucket = b, hi_offset = off, hi_object = m\<rparr>, j'))
          (got_hash_table_iter_object_header be hash_table_size b iter_object_size bs))))))"

partial_function (option) journal_hash_table_for_each_dispatch ::
  "'j reader \<Rightarrow> bool \<Rightarrow> HashItem list \<Rightarrow> u64 \<Rightarrow> nat \<Rightarrow> (hash_iter, 's) closure \<Rightarrow> hash_iter \<Rightarrow> 'j \<Rightarrow> 's
     \<Rightarrow> (hash_iter \<times> 'j \<times> 's) res option" where
  "journal_hash_table_for_each_dispatch rd be hash_table hash_table_size iter_object_size closure it j s =
     (case closure it s of
        Fail e \<Rightarrow> Some (Fail e)
      | Ok s' \<Rightarrow>
          if hi_offset it = 0 then Some (Ok (it, j, s'))
          else case journal_hash_table_iter_next_object rd be hash_table hash_table_size
                      iter_object_size it j of
                 Fail e \<Rightarrow> Some (Fail e)
               | Ok (it', j') \<Rightarrow> journal_hash_table_for_each_dispatch rd be hash_table hash_table_size
                      iter_object_size closure it' j' s')"

definition journal_hash_table_for_each ::
  "'j reader \<Rightarrow> bool \<Rightarrow> HashItem list \<Rightarrow> u64 \<Rightarrow> nat \<Rightarrow> (hash_iter, 's) closure \<Rightarrow> hash_iter \<Rightarrow> 'j \<Rightarrow> 's
     \<Rightarrow> (hash_iter \<times> 'j \<times> 's) res option" where
  "journal_hash_table_for_each rd be hash_table hash_table_size iter_object_size closure it j s =
     (case journal_hash_table_iter_next_object rd be hash_table hash_table_size iter_object_size
             (it\<lparr>hi_offset := 0\<rparr>) j of
        Fail e \<Rightarrow> Some (Fail e)
      | Ok (it', j') \<Rightarrow> journal_hash_table_for_each_dispatch rd be hash_table hash_table_size
             iter_object_size closure it' j' s)"

section \<open>What is to be visited\<close>

text \<open>An object the iterator can load, and its memory once loaded.\<close>

definition hashed_object_ok :: "bytes \<Rightarrow> nat \<Rightarrow> u64 \<Rightarrow> bool" where
  "hashed_object_ok content isz off \<longleftrightarrow> off \<noteq> 0 \<and> unat off + isz \<le> length content \<and>
     (sizeof_HashedObjectHeader < isz \<longrightarrow>
        (object_type_of (content ! unat off) = Some OBJECT_DATA \<and> sizeof_DataObject \<le> isz) \<or>
        (object_type_of (content ! unat off) = Some OBJECT_FIELD \<and> sizeof_FieldObject \<le> isz))"

definition loaded :: "bool \<Rightarrow> bytes \<Rightarrow> nat \<Rightarrow> u64 \<Rightarrow> bytes" where
  "loaded be content isz off =
     (case got_hash_table_iter_object_header be 1 0 isz (segment (unat off) isz content) of
        Ok m \<Rightarrow> m | Fail e \<Rightarrow> [])"

definition next_hash_at :: "bytes \<Rightarrow> u64 \<Rightarrow> u64" where
  "next_hash_at content off =
     ho_next_hash_offset (parse_hashed_object_header (segment (unat off) sizeof_HashedObjectHeader content))"

text \<open>The chain of a bucket: from the head by \<open>next_hash_offset\<close> to the tail.\<close>

fun hash_chain :: "bytes \<Rightarrow> nat \<Rightarrow> u64 \<Rightarrow> u64 list \<Rightarrow> u64 \<Rightarrow> bool" where
  "hash_chain content isz tail [] off = False"
| "hash_chain content isz tail (o' # offs) off \<longleftrightarrow> o' = off \<and> hashed_object_ok content isz off \<and>
     (if off = tail then offs = [] else hash_chain content isz tail offs (next_hash_at content off))"

text \<open>The chains of the buckets from \<open>b\<close> to the end of the table.\<close>

fun chains_ok :: "HashItem list \<Rightarrow> bytes \<Rightarrow> nat \<Rightarrow> nat \<Rightarrow> u64 list list \<Rightarrow> bool" where
  "chains_ok table content isz b [] \<longleftrightarrow> b = length table"
| "chains_ok table content isz b (offs # css) \<longleftrightarrow> b < length table \<and>
     (if head_hash_offset (table ! b) = 0 then offs = []
      else hash_chain content isz (tail_hash_offset (table ! b)) offs (head_hash_offset (table ! b))) \<and>
     chains_ok table content isz (Suc b) css"

function hash_visits :: "bool \<Rightarrow> bytes \<Rightarrow> nat \<Rightarrow> nat \<Rightarrow> u64 list list \<Rightarrow> bytes \<Rightarrow> hash_iter list" where
  "hash_visits be content isz b [] prev = [\<lparr>hi_bucket = b, hi_offset = 0, hi_object = prev\<rparr>]"
| "hash_visits be content isz b ([] # css) prev = hash_visits be content isz (Suc b) css prev"
| "hash_visits be content isz b ((off # offs) # css) prev =
     \<lparr>hi_bucket = b, hi_offset = off, hi_object = loaded be content isz off\<rparr> #
       hash_visits be content isz b (offs # css) (loaded be content isz off)"
  by pat_completeness auto

termination
  by (relation "measure (\<lambda>(be, c, isz, b, css, l). sum_list (map (\<lambda>os. Suc (length os)) css))") auto


section \<open>What a step loads\<close>

text \<open>The 64-bit fields converted, by type and size of the memory.\<close>

definition hashed_fields :: "nat \<Rightarrow> u8 \<Rightarrow> nat list" where
  "hashed_fields isz t =
     (if isz \<le> sizeof_HashedObjectHeader then [8, 16, 24]
      else if object_type_of t = Some OBJECT_DATA then [8, 16, 24, 32, 40, 48, 56]
      else [8, 16, 24, 32])"

lemma swapped_first:
  assumes "swapped be offs m m'" and "0 < length m" and "\<forall>off\<in>set offs. 0 < off"
  shows "m' ! 0 = m ! 0"
  using assms by (auto simp: swapped_def)

lemma got_hash_table_iter_converts:
  assumes "b < unat nb" and "length m = isz" and "sizeof_HashedObjectHeader \<le> isz"
    and "sizeof_HashedObjectHeader < isz \<Longrightarrow>
        (object_type_of (m ! 0) = Some OBJECT_DATA \<and> sizeof_DataObject \<le> isz) \<or>
        (object_type_of (m ! 0) = Some OBJECT_FIELD \<and> sizeof_FieldObject \<le> isz)"
  shows "\<exists>m'. got_hash_table_iter_object_header be nb b isz m = Ok m' \<and>
    swapped be (hashed_fields isz (m ! 0)) m m'"
proof -
  obtain m1 where m1: "swap_fields be [8, 16, 24] m = Ok m1" "swapped be [8, 16, 24] m m1"
    using swap_fields_swapped [of "[8, 16, 24]" m be] assms(2,3) by (auto simp: layout_simps)
  have t: "m1 ! 0 = m ! 0"
    using swapped_first [OF m1(2)] assms(2,3) by (simp add: layout_simps)
  show ?thesis
  proof (cases "isz = sizeof_HashedObjectHeader")
    case True
    then show ?thesis
      using m1 assms(1) by (simp add: got_hash_table_iter_object_header_def hashed_fields_def)
  next
    case False
    then have gt: "sizeof_HashedObjectHeader < isz" using assms(3) by simp
    let ?g = "got_hash_table_iter_object_header be nb b isz m"
    consider (data) "object_type_of (m ! 0) = Some OBJECT_DATA" "sizeof_DataObject \<le> isz"
      | (field) "object_type_of (m ! 0) = Some OBJECT_FIELD" "sizeof_FieldObject \<le> isz"
      using assms(4) [OF gt] by blast
    then show ?thesis
    proof cases
      case data
      then have "?g = swap_fields be ([8, 16, 24] @ [32, 40, 48, 56]) m"
        using m1(1) t gt assms(1) unfolding swap_fields_append
        by (simp add: got_hash_table_iter_object_header_def)
      then show ?thesis
        using swap_fields_swapped [of "[8, 16, 24, 32, 40, 48, 56]" m be] data assms(2) gt
        by (simp add: hashed_fields_def layout_simps)
    next
      case field
      then have "?g = swap_fields be ([8, 16, 24] @ [32]) m"
        using m1(1) t gt assms(1) unfolding swap_fields_append
        by (simp add: got_hash_table_iter_object_header_def)
      then show ?thesis
        using swap_fields_swapped [of "[8, 16, 24, 32]" m be] field assms(2) gt
        by (simp add: hashed_fields_def layout_simps)
    qed
  qed
qed

lemma loaded_ok:
  assumes "hashed_object_ok content isz off" and "sizeof_HashedObjectHeader \<le> isz"
    and "b < unat nb"
  shows "got_hash_table_iter_object_header be nb b isz (segment (unat off) isz content) =
      Ok (loaded be content isz off)"
    and "swapped be (hashed_fields isz (content ! unat off)) (segment (unat off) isz content)
      (loaded be content isz off)"
proof -
  let ?m = "segment (unat off) isz content"
  have len: "length ?m = isz" using assms(1) by (auto simp: hashed_object_ok_def)
  have t: "?m ! 0 = content ! unat off"
    using assms(1,2) by (simp add: segment_def layout_simps hashed_object_ok_def)
  note conv = got_hash_table_iter_converts [OF _ len assms(2), unfolded t]
  have ty: "sizeof_HashedObjectHeader < isz \<Longrightarrow>
      (object_type_of (content ! unat off) = Some OBJECT_DATA \<and> sizeof_DataObject \<le> isz) \<or>
      (object_type_of (content ! unat off) = Some OBJECT_FIELD \<and> sizeof_FieldObject \<le> isz)"
    using assms(1) by (simp add: hashed_object_ok_def)
  obtain m' where m': "got_hash_table_iter_object_header be nb b isz ?m = Ok m'"
      "swapped be (hashed_fields isz (content ! unat off)) ?m m'"
    using conv [OF assms(3) ty] by blast
  have "got_hash_table_iter_object_header be 1 0 isz ?m = got_hash_table_iter_object_header be nb b isz ?m"
    using assms(3) by (simp add: got_hash_table_iter_object_header_def)
  then have "loaded be content isz off = m'" using m'(1) by (simp add: loaded_def)
  then show "got_hash_table_iter_object_header be nb b isz ?m = Ok (loaded be content isz off)"
    and "swapped be (hashed_fields isz (content ! unat off)) ?m (loaded be content isz off)"
    using m' by simp_all
qed

lemma loaded_next:
  assumes "hashed_object_ok content isz off" and "sizeof_HashedObjectHeader \<le> isz"
  shows "ld64 be 24 (loaded be content isz off) = next_hash_at content off"
proof -
  have "24 \<in> set (hashed_fields isz (content ! unat off))" by (simp add: hashed_fields_def)
  then have "ld64 be 24 (loaded be content isz off) = le64_at 24 (segment (unat off) isz content)"
    using loaded_ok(2) [OF assms, of 0 1] by (simp add: swapped_def)
  also have "\<dots> = le64_at (unat off + 24) content"
    using assms(2) by (intro le64_at_segment) (simp add: layout_simps)
  also have "\<dots> = le64_at 24 (segment (unat off) 32 content)"
    by (rule le64_at_segment [symmetric]) simp
  finally show ?thesis
    by (simp add: next_hash_at_def parse_hashed_object_header_def layout_simps)
qed

section \<open>The iteration visits the chains\<close>

lemma chains_ok_bucket: "chains_ok table content isz b css \<Longrightarrow> b \<le> length table"
  by (cases css) auto

text \<open>Where the search for the next bucket stops, and what remains to be visited from there.\<close>

lemma next_bucket_visits:
  assumes "chains_ok table content isz (Suc b) css" and "b < length table"
  shows "(next_bucket table (length table) b = Ok (length table, 0) \<and>
      hash_visits be content isz (Suc b) css prev =
        [\<lparr>hi_bucket = length table, hi_offset = 0, hi_object = prev\<rparr>]) \<or>
    (\<exists>b' off offs css'. next_bucket table (length table) b = Ok (b', off) \<and> b' < length table \<and>
      hash_chain content isz (tail_hash_offset (table ! b')) (off # offs) off \<and>
      chains_ok table content isz (Suc b') css' \<and>
      hash_visits be content isz (Suc b) css prev =
        \<lparr>hi_bucket = b', hi_offset = off, hi_object = loaded be content isz off\<rparr> #
          hash_visits be content isz b' (offs # css') (loaded be content isz off))"
  using assms
proof (induction css arbitrary: b)
  case Nil
  then have "next_bucket table (length table) b = Ok (length table, 0)"
    by (subst next_bucket.simps) simp
  then show ?case using Nil by simp
next
  case (Cons offs css)
  then have b: "Suc b < length table" by simp
  let ?item = "table ! Suc b"
  show ?case
  proof (cases "head_hash_offset ?item = 0")
    case True
    then have "next_bucket table (length table) b = next_bucket table (length table) (Suc b)"
      using b by (subst next_bucket.simps) simp
    then show ?thesis
      using Cons.IH [of "Suc b"] Cons.prems b True by simp
  next
    case False
    then obtain off offs' where offs: "offs = off # offs'" "off = head_hash_offset ?item"
      using Cons.prems by (cases offs) auto
    have "next_bucket table (length table) b = Ok (Suc b, off)"
      using b False offs by (subst next_bucket.simps) simp
    moreover have "hash_chain content isz (tail_hash_offset ?item) (off # offs') off"
      "chains_ok table content isz (Suc (Suc b)) css"
      using Cons.prems False offs by simp_all
    ultimately show ?thesis using b offs(1) by (intro disjI2) (simp only: hash_visits.simps, blast)
  qed
qed


text \<open>Where the iterator goes from an object of a chain: to the end, or to an object of a chain.\<close>

lemma hash_position_visits:
  assumes "hi_bucket it = b" and "hi_offset it = off" and "hi_object it = loaded be content isz off"
    and "b < length table" and "hash_chain content isz (tail_hash_offset (table ! b)) (off # offs) off"
    and "chains_ok table content isz (Suc b) css" and "sizeof_HashedObjectHeader \<le> isz"
  shows "(hash_iter_position table (length table) be it = Ok (length table, 0) \<and>
      hash_visits be content isz b (offs # css) (hi_object it) =
        [\<lparr>hi_bucket = length table, hi_offset = 0, hi_object = hi_object it\<rparr>]) \<or>
    (\<exists>b' off' offs' css'. hash_iter_position table (length table) be it = Ok (b', off') \<and> b' < length table \<and>
      hash_chain content isz (tail_hash_offset (table ! b')) (off' # offs') off' \<and>
      chains_ok table content isz (Suc b') css' \<and>
      hash_visits be content isz b (offs # css) (hi_object it) =
        \<lparr>hi_bucket = b', hi_offset = off', hi_object = loaded be content isz off'\<rparr> #
          hash_visits be content isz b' (offs' # css') (loaded be content isz off'))"
proof -
  have off: "off \<noteq> 0" "hashed_object_ok content isz off"
    and offs: "if off = tail_hash_offset (table ! b) then offs = []
      else hash_chain content isz (tail_hash_offset (table ! b)) offs (next_hash_at content off)"
    using assms(5) by (simp_all add: hashed_object_ok_def)
  show ?thesis
  proof (cases "off = tail_hash_offset (table ! b)")
    case True
    then have nil: "offs = []" using offs by simp
    have pos: "hash_iter_position table (length table) be it = next_bucket table (length table) b"
      using True assms(1,2,4) off(1) by (simp add: hash_iter_position_def)
    from next_bucket_visits [OF assms(6,4), of be "hi_object it"] show ?thesis
      unfolding pos nil by simp
  next
    case False
    then obtain off' offs' where o': "offs = off' # offs'" "off' = next_hash_at content off"
      using offs by (cases offs) auto
    have "hash_iter_position table (length table) be it = Ok (b, off')"
      using False assms(1-4) off(1) loaded_next [OF off(2) assms(7)] o'(2) by (simp add: hash_iter_position_def)
    then show ?thesis
      using offs False o' assms(4,6)
      by (intro disjI2 exI [of _ b] exI [of _ off'] exI [of _ offs'] exI [of _ css]) simp
  qed
qed

text \<open>The caller's side of the contract: the table's size, and room for what is loaded.\<close>

definition hash_args_ok :: "HashItem list \<Rightarrow> u64 \<Rightarrow> nat \<Rightarrow> bool" where
  "hash_args_ok table sz isz \<longleftrightarrow> sizeof_HashItem \<le> unat sz \<and>
     length table = unat sz div sizeof_HashItem \<and>
     sizeof_HashedObjectHeader \<le> isz \<and> isz \<le> max_rw_count"

lemma hash_final_dispatch:
  "hi_offset it = 0 \<Longrightarrow> journal_hash_table_for_each_dispatch rd be table sz isz closure it j s =
     Some (res_map (\<lambda>s'. (it, j, s')) (dispatch_all closure [it] s))"
  by (cases "closure it s") (simp_all add: journal_hash_table_for_each_dispatch.simps)

lemma hash_next_ends:
  assumes "hash_args_ok table sz isz" and "hi_bucket it < length table"
    and "hash_iter_position table (length table) be it = Ok (length table, 0)"
  shows "journal_hash_table_iter_next_object rd be table sz isz it j =
    Ok (\<lparr>hi_bucket = length table, hi_offset = 0, hi_object = hi_object it\<rparr>, j)"
  using assms by (simp add: journal_hash_table_iter_next_object_def hash_args_ok_def Let_def)

context complete_reader
begin

lemma hash_next_loads:
  assumes args: "hash_args_ok table sz isz" and "inv j" and "hi_bucket it < length table"
    and "hash_iter_position table (length table) be it = Ok (b, off)" and "b < length table"
    and "hashed_object_ok content isz off"
  obtains j' where "inv j'" and "journal_hash_table_iter_next_object rd be table sz isz it j =
    Ok (\<lparr>hi_bucket = b, hi_offset = off, hi_object = loaded be content isz off\<rparr>, j')"
proof -
  have isz: "unat (of_nat isz :: u64) = isz" "isz \<le> max_rw_count" "32 \<le> isz"
    using args by (simp_all add: hash_args_ok_def max_rw_count_def sizeof_HashedObjectHeader_def
      unat_of_nat take_bit_nat_eq_self)
  then have "(of_nat isz :: u64) \<noteq> 0" by (metis unat_0 not_numeral_le_zero)
  moreover have "unat off + unat (of_nat isz :: u64) \<le> length content"
    using assms(6) isz(1) by (simp add: hashed_object_ok_def)
  ultimately obtain j' where j': "rd j off (of_nat isz) = Ok (segment (unat off) isz content, j')" "inv j'"
    using rd_in_range [OF assms(2), of "of_nat isz" off] isz by metis
  have "length table \<le> unat sz" using args by (simp add: hash_args_ok_def sizeof_HashItem_def)
  then have "b < unat sz" using assms(5) by simp
  then have "got_hash_table_iter_object_header be sz b isz (segment (unat off) isz content) =
      Ok (loaded be content isz off)"
    by (intro loaded_ok(1) [OF assms(6)]) (use isz in \<open>simp add: sizeof_HashedObjectHeader_def\<close>)
  then show ?thesis
    using that [OF j'(2)] assms j'(1)
    by (simp add: journal_hash_table_iter_next_object_def hash_args_ok_def Let_def not_le [symmetric])
qed

lemma hash_dispatch_visits:
  assumes args: "hash_args_ok table sz isz" and "inv j"
    and "it = \<lparr>hi_bucket = b, hi_offset = off, hi_object = loaded be content isz off\<rparr>"
    and "b < length table" and "hash_chain content isz (tail_hash_offset (table ! b)) (off # offs) off"
    and "chains_ok table content isz (Suc b) css"
  shows "\<exists>obj j'. inv j' \<and>
    journal_hash_table_for_each_dispatch rd be table sz isz closure it j s =
      Some (res_map (\<lambda>s'. (\<lparr>hi_bucket = length table, hi_offset = 0, hi_object = obj\<rparr>, j', s'))
        (dispatch_all closure (it # hash_visits be content isz b (offs # css) (hi_object it)) s))"
  using assms(2-)
proof (induction "length (hash_visits be content isz b (offs # css) (hi_object it))"
    arbitrary: b off offs css it j s rule: less_induct)
  case less
  let ?loop = "journal_hash_table_for_each_dispatch rd be table sz isz closure"
  let ?vs = "hash_visits be content isz b (offs # css) (hi_object it)"
  have bucket: "hi_bucket it < length table" using less.prems(2,3) by simp
  have off: "hi_offset it \<noteq> 0" using less.prems(2,4) by (simp add: hashed_object_ok_def)
  show ?case
  proof (cases "closure it s")
    case (Fail e)
    then have "?loop it j s = Some (Fail e)" by (subst journal_hash_table_for_each_dispatch.simps) simp
    then show ?thesis using Fail less.prems(1) by auto
  next
    case (Ok s1)
    have go: "?loop it j s = ?loop it' j1 s1"
      if "journal_hash_table_iter_next_object rd be table sz isz it j = Ok (it', j1)" for it' j1
      using that Ok off by (subst journal_hash_table_for_each_dispatch.simps) simp
    have isz: "sizeof_HashedObjectHeader \<le> isz" using args by (simp add: hash_args_ok_def)
    have at: "hi_bucket it = b" "hi_offset it = off" "hi_object it = loaded be content isz off"
      using less.prems(2) by simp_all
    from hash_position_visits [OF at less.prems(3-5) isz] show ?thesis
    proof (elim disjE exE conjE)
      assume "hash_iter_position table (length table) be it = Ok (length table, 0)"
        and vs: "?vs = [\<lparr>hi_bucket = length table, hi_offset = 0, hi_object = hi_object it\<rparr>]"
      from go [OF hash_next_ends [OF args bucket this(1)]] show ?thesis
        using Ok vs less.prems(1) by (auto simp: hash_final_dispatch)
    next
      fix b' off' offs' css'
      let ?it = "\<lparr>hi_bucket = b', hi_offset = off', hi_object = loaded be content isz off'\<rparr>"
      assume pos: "hash_iter_position table (length table) be it = Ok (b', off')" and b': "b' < length table"
        and chain': "hash_chain content isz (tail_hash_offset (table ! b')) (off' # offs') off'"
        and css': "chains_ok table content isz (Suc b') css'"
        and vs: "?vs = ?it # hash_visits be content isz b' (offs' # css') (loaded be content isz off')"
      have ok': "hashed_object_ok content isz off'" using chain' by simp
      obtain j1 where j1: "inv j1" "journal_hash_table_iter_next_object rd be table sz isz it j = Ok (?it, j1)"
        by (rule hash_next_loads [OF args less.prems(1) bucket pos b' ok'])
      obtain obj j' where "inv j'" "?loop ?it j1 s1 =
          Some (res_map (\<lambda>s'. (\<lparr>hi_bucket = length table, hi_offset = 0, hi_object = obj\<rparr>, j', s'))
            (dispatch_all closure (?it # hash_visits be content isz b' (offs' # css') (hi_object ?it)) s1))"
        using less.hyps [of b' offs' css' ?it j1 off' s1] j1(1) b' chain' css' vs by auto
      then show ?thesis using go [OF j1(2)] Ok vs by auto
    qed
  qed
qed

lemma hash_for_each_visits:
  assumes args: "hash_args_ok table sz isz" and "inv j" and "hi_bucket it < length table"
    and "chains_ok table content isz 1 css"
  shows "\<exists>obj j'. inv j' \<and>
    journal_hash_table_for_each rd be table sz isz closure it j s =
      Some (res_map (\<lambda>s'. (\<lparr>hi_bucket = length table, hi_offset = 0, hi_object = obj\<rparr>, j', s'))
        (dispatch_all closure (hash_visits be content isz 1 css (hi_object it)) s))"
proof -
  let ?start = "it\<lparr>hi_offset := 0\<rparr>"
  have pos: "hash_iter_position table (length table) be ?start = next_bucket table (length table) 0"
    by (simp add: hash_iter_position_def)
  have b0: "hi_bucket ?start < length table" using assms(3) by simp
  have b1: "0 < length table" by (rule le_less_trans [OF le0 assms(3)])
  have css: "chains_ok table content isz (Suc 0) css" using assms(4) by simp
  from next_bucket_visits [OF css b1, of be "hi_object it"] show ?thesis
  proof (elim disjE exE conjE)
    assume *: "next_bucket table (length table) 0 = Ok (length table, 0)"
      "hash_visits be content isz (Suc 0) css (hi_object it) =
        [\<lparr>hi_bucket = length table, hi_offset = 0, hi_object = hi_object it\<rparr>]"
    have "journal_hash_table_iter_next_object rd be table sz isz ?start j =
        Ok (\<lparr>hi_bucket = length table, hi_offset = 0, hi_object = hi_object ?start\<rparr>, j)"
      by (rule hash_next_ends [OF args b0]) (simp only: pos *(1))
    then show ?thesis
      using *(2) assms(2) by (auto simp: journal_hash_table_for_each_def hash_final_dispatch)
  next
    fix b off offs css'
    assume *: "next_bucket table (length table) 0 = Ok (b, off)" "b < length table"
      "hash_chain content isz (tail_hash_offset (table ! b)) (off # offs) off"
      "chains_ok table content isz (Suc b) css'"
      "hash_visits be content isz (Suc 0) css (hi_object it) =
        \<lparr>hi_bucket = b, hi_offset = off, hi_object = loaded be content isz off\<rparr> #
          hash_visits be content isz b (offs # css') (loaded be content isz off)"
    let ?it = "\<lparr>hi_bucket = b, hi_offset = off, hi_object = loaded be content isz off\<rparr>"
    have ok: "hashed_object_ok content isz off" using *(3) by simp
    obtain j1 where j1: "inv j1" "journal_hash_table_iter_next_object rd be table sz isz ?start j = Ok (?it, j1)"
      by (rule hash_next_loads [OF args assms(2) b0 _ *(2) ok]) (use pos *(1) in simp)
    from hash_dispatch_visits [OF args j1(1) refl *(2-4), where closure = closure and s = s]
    show ?thesis using j1(2) *(5) by (auto simp: journal_hash_table_for_each_def)
  qed
qed

end


section \<open>Properties\<close>

text \<open>C14: \<open>journal_hash_table_for_each\<close> over a table whose buckets chain from head to tail dispatches
  the closure once for each object of each bucket but the first, in the order of the buckets and
  along each chain, with the object's memory converted to host order, and once more at offset 0
  with the bucket past the end, and stops at the closure's first failure.\<close>

theorem hash_for_each_visits_chains:
  assumes "reads_file h content" and "reads_fully h content" and "coherent content j"
    and "hash_args_ok table sz isz" and "hi_bucket it < length table"
    and "chains_ok table content isz 1 css"
  shows "\<exists>obj j'. coherent content j' \<and>
    journal_hash_table_for_each (read_chain h) be table sz isz closure it j s =
      Some (res_map (\<lambda>s'. (\<lparr>hi_bucket = length table, hi_offset = 0, hi_object = obj\<rparr>, j', s'))
        (dispatch_all closure (hash_visits be content isz 1 css (hi_object it)) s))"
proof -
  have "reads_file h content \<and> reads_fully h content \<and> coherent content j" using assms by simp
  from chain_full.hash_for_each_visits [OF assms(4) this assms(5,6), of be closure s] show ?thesis by blast
qed

text \<open>A table of three buckets: one object in the first, none in the second, two in the third.\<close>

definition hashed_obj :: "u8 \<Rightarrow> bytes" where
  "hashed_obj nxt = [1, 0, 0, 0, 0, 0, 0, 0, 32, 0, 0, 0, 0, 0, 0, 0,
     5, 0, 0, 0, 0, 0, 0, 0, nxt, 0, 0, 0, 0, 0, 0, 0]"

definition three_objects :: bytes where
  "three_objects = replicate 16 0 @ hashed_obj 0 @ hashed_obj 80 @ hashed_obj 0"

definition three_buckets :: "HashItem list" where
  "three_buckets = [\<lparr>head_hash_offset = 16, tail_hash_offset = 16\<rparr>,
     \<lparr>head_hash_offset = 0, tail_hash_offset = 0\<rparr>,
     \<lparr>head_hash_offset = 48, tail_hash_offset = 80\<rparr>]"

lemma three_buckets_chains: "chains_ok three_buckets three_objects 32 1 [[], [48, 80]]"
  by (simp add: three_buckets_def three_objects_def hashed_obj_def hashed_object_ok_def next_hash_at_def
    parse_hashed_object_header_def parse_object_header_def le64_at_def segment_def layout_simps)

theorem hash_for_each_visits_chains_witness:
  "\<exists>obj j'. journal_hash_table_for_each (read_chain (file_host True three_objects)) True three_buckets
      48 32 (\<lambda>it offs. Ok (offs @ [(hi_bucket it, hi_offset it)]))
      \<lparr>hi_bucket = 0, hi_offset = 7, hi_object = []\<rparr> (link_bufs (calloc_journal ''a'')) [] =
    Some (Ok (\<lparr>hi_bucket = 3, hi_offset = 0, hi_object = obj\<rparr>, j', [(2, 48), (2, 80), (3, 0)]))"
proof -
  have args: "hash_args_ok three_buckets 48 32"
    by (simp add: hash_args_ok_def three_buckets_def layout_simps max_rw_count_def)
  have b: "hi_bucket \<lparr>hi_bucket = 0, hi_offset = 7, hi_object = []\<rparr> < length three_buckets"
    by (simp add: three_buckets_def)
  have len: "length three_objects < 2 ^ 63" by (simp add: three_objects_def hashed_obj_def)
  from hash_for_each_visits_chains [OF file_host_reads [OF len, of True] file_host_fully
      link_bufs_coherent [of _ "''a''"] args b three_buckets_chains, where be = True and closure =
      "\<lambda>it offs. Ok (offs @ [(hi_bucket it, hi_offset it)])" and s = "[]"]
  show ?thesis by (auto simp: three_buckets_def numeral_2_eq_2 numeral_3_eq_3)
qed

text \<open>The objects of a table of one bucket are never visited: whatever the bucket holds, the
  closure is dispatched once, at offset 0, as for an empty table.\<close>

theorem single_bucket_never_visited:
  assumes "hash_args_ok [item] sz isz" and "hi_bucket it = 0"
  shows "journal_hash_table_for_each rd be [item] sz isz closure it j s =
    Some (res_map (\<lambda>s'. (\<lparr>hi_bucket = 1, hi_offset = 0, hi_object = hi_object it\<rparr>, j, s'))
      (closure \<lparr>hi_bucket = 1, hi_offset = 0, hi_object = hi_object it\<rparr> s))"
proof -
  have "next_bucket [item] 1 0 = Ok (1, 0)" by (subst next_bucket.simps) simp
  then have pos: "hash_iter_position [item] (length [item]) be (it\<lparr>hi_offset := 0\<rparr>) = Ok (length [item], 0)"
    by (simp add: hash_iter_position_def)
  have "hi_bucket (it\<lparr>hi_offset := 0\<rparr>) < length [item]" using assms(2) by simp
  from hash_next_ends [OF assms(1) this pos, of rd j] show ?thesis
    by (cases "closure \<lparr>hi_bucket = 1, hi_offset = 0, hi_object = hi_object it\<rparr> s")
      (simp_all add: journal_hash_table_for_each_def hash_final_dispatch)
qed

theorem single_bucket_never_visited_witness:
  "journal_hash_table_for_each (\<lambda>j off len. Fail AssertFail) False
     [\<lparr>head_hash_offset = 300, tail_hash_offset = 300\<rparr>] 16 32 (\<lambda>it n. Ok (Suc n))
     \<lparr>hi_bucket = 0, hi_offset = 0, hi_object = []\<rparr> () 0 =
   Some (Ok (\<lparr>hi_bucket = 1, hi_offset = 0, hi_object = []\<rparr>, (), 1))"
  using single_bucket_never_visited [of "\<lparr>head_hash_offset = 300, tail_hash_offset = 300\<rparr>" 16 32
    "\<lparr>hi_bucket = 0, hi_offset = 0, hi_object = []\<rparr>" "\<lambda>j off len. Fail AssertFail" False
    "\<lambda>it n. Ok (Suc n)" "()" 0]
  by (simp add: hash_args_ok_def layout_simps max_rw_count_def)

text \<open>Once the iterator has dispatched the end of the table, stepping it again does not restart it
  from the first object: the bucket it left past the end fails the assertion at the entry.\<close>

theorem hash_iter_restart_asserts:
  assumes "hash_args_ok table sz isz" and "hi_bucket it < length table"
    and "journal_hash_table_iter_next_object rd be table sz isz it j = Ok (it', j')" and "hi_offset it' = 0"
    and "hash_iter_position table (length table) be it = Ok (length table, 0)"
  shows "journal_hash_table_iter_next_object rd be table sz isz it' j' = Fail AssertFail"
proof -
  have "hi_bucket it' = length table"
    using hash_next_ends [OF assms(1,2,5), of rd j] assms(3) by simp
  then show ?thesis
    using assms(1) by (simp add: journal_hash_table_iter_next_object_def hash_args_ok_def Let_def)
qed

theorem hash_iter_restart_asserts_witness:
  "journal_hash_table_iter_next_object (\<lambda>j off len. Fail OutOfBounds) False
     [\<lparr>head_hash_offset = 300, tail_hash_offset = 300\<rparr>] 16 32
     \<lparr>hi_bucket = 1, hi_offset = 0, hi_object = []\<rparr> () = Fail AssertFail"
proof -
  let ?it = "\<lparr>hi_bucket = 0, hi_offset = 0, hi_object = []\<rparr>"
  let ?t = "[\<lparr>head_hash_offset = 300, tail_hash_offset = 300\<rparr>]"
  have args: "hash_args_ok ?t 16 32" by (simp add: hash_args_ok_def layout_simps max_rw_count_def)
  have "next_bucket ?t 1 0 = Ok (1, 0)" by (subst next_bucket.simps) simp
  then have pos: "hash_iter_position ?t (length ?t) False ?it = Ok (length ?t, 0)"
    by (simp add: hash_iter_position_def)
  have b: "hi_bucket ?it < length ?t" by simp
  have "journal_hash_table_iter_next_object (\<lambda>j off len. Fail OutOfBounds) False ?t 16 32 ?it () =
      Ok (\<lparr>hi_bucket = 1, hi_offset = 0, hi_object = []\<rparr>, ())"
    using hash_next_ends [OF args b pos] by simp
  from hash_iter_restart_asserts [OF args b this _ pos] show ?thesis by simp
qed

text \<open>C30: Loading a table that lies in the file gives, for each of its \<open>size / 16\<close> buckets, the
  little-endian head and tail offsets stored there, on a host of either byte order.\<close>

theorem hash_table_loaded_as_stored:
  assumes "reads_file h content" and "reads_fully h content" and "coherent content j"
    and "sz \<noteq> 0" and "unat off + unat sz \<le> length content" and "unat sz \<le> max_rw_count"
  shows "\<exists>j'. journal_get_hash_table (read_chain h) be True off sz j =
      Ok (map (parse_hash_item (segment (unat off) (unat sz) content)) [0..<unat sz div sizeof_HashItem], j')
    \<and> coherent content j'"
proof -
  have inv: "reads_file h content \<and> reads_fully h content \<and> coherent content j" using assms by simp
  let ?m = "segment (unat off) (unat sz) content"
  obtain j' where j': "read_chain h j off sz = Ok (?m, j')" "coherent content j'"
    using chain_full.rd_in_range [OF inv assms(4-6)] by blast
  have len: "length ?m = unat sz" using assms(5) by simp
  have "16 * i + 16 \<le> unat sz" if "i < unat sz div 16" for i
    using that by linarith
  then have "got_hashtable be sz ?m = map (parse_hash_item ?m) [0..<unat sz div sizeof_HashItem]"
    using len by (auto simp: got_hashtable_def Let_def hash_item_of_mem_def parse_hash_item_def
      sizeof_HashItem_def intro!: le64toh_ld64)
  then show ?thesis using j' by (simp add: journal_get_hash_table_def)
qed

theorem hash_table_loaded_as_stored_witness:
  "\<exists>j'. journal_get_hash_table (read_chain (file_host True three_objects)) True True 16 48
      (link_bufs (calloc_journal ''a'')) =
    Ok (map (parse_hash_item (segment 16 48 three_objects)) [0, 1, 2], j')"
proof -
  have len: "length three_objects < 2 ^ 63" by (simp add: three_objects_def hashed_obj_def)
  have "\<exists>j'. journal_get_hash_table (read_chain (file_host True three_objects)) True True 16 48
      (link_bufs (calloc_journal ''a'')) =
    Ok (map (parse_hash_item (segment (unat (16 :: u64)) (unat (48 :: u64)) three_objects))
      [0..<unat (48 :: u64) div sizeof_HashItem], j') \<and> coherent three_objects j'"
    by (rule hash_table_loaded_as_stored [OF file_host_reads [OF len] file_host_fully link_bufs_coherent])
      (simp_all add: max_rw_count_def three_objects_def hashed_obj_def)
  moreover have "[0..<unat (48 :: u64) div sizeof_HashItem] = [0, 1, 2]"
    by (simp add: sizeof_HashItem_def upt_rec)
  ultimately show ?thesis by auto
qed

end
