(* ===== verification/Sd_Id128.thy ===== *)
theory Sd_Id128
  imports Endian
begin

text \<open>
  \<^verbatim>\<open>upstream/sd-id128.h\<close>: the 128-bit ids of the journal format, with the text form that
  \<open>SD_ID128_CONST_STR\<close> spells out and the three predicates.  The union of 16 bytes and two 64-bit
  words is the list of its bytes; \<open>qword\<close> reads a word of it as the host does.
\<close>

unbundle bit_operations_syntax

type_synonym sd_id128 = bytes

definition SD_ID128_STRING_MAX :: nat where "SD_ID128_STRING_MAX = 33"

definition qword :: "bool \<Rightarrow> sd_id128 \<Rightarrow> nat \<Rightarrow> u64" where
  "qword be x i = load_native be (segment (8 * i) 8 x)"

text \<open>The digit of a nibble: \<open>'a' + n - 10\<close> from 10 on, \<open>'0' + n\<close> below.\<close>

definition hex_digit :: "u8 \<Rightarrow> u8" where
  "hex_digit n = (if 10 \<le> n then 97 + n - 10 else 48 + n)"

definition SD_ID128_CONST_STR :: "sd_id128 \<Rightarrow> bytes" where
  "SD_ID128_CONST_STR x = concat (map (\<lambda>b. [hex_digit (drop_bit 4 b), hex_digit (b AND 15)]) x) @ [0]"

definition sd_id128_equal :: "sd_id128 \<Rightarrow> sd_id128 \<Rightarrow> bool" where
  "sd_id128_equal a b \<longleftrightarrow> a = b"

definition sd_id128_is_null :: "bool \<Rightarrow> sd_id128 \<Rightarrow> bool" where
  "sd_id128_is_null be a \<longleftrightarrow> qword be a 0 = 0 \<and> qword be a 1 = 0"

definition sd_id128_is_allf :: "bool \<Rightarrow> sd_id128 \<Rightarrow> bool" where
  "sd_id128_is_allf be a \<longleftrightarrow> qword be a 0 = 0xFFFFFFFFFFFFFFFF \<and> qword be a 1 = 0xFFFFFFFFFFFFFFFF"

definition SD_ID128_NULL :: "bool \<Rightarrow> sd_id128" where
  "SD_ID128_NULL be = store_native be 8 (0 :: u64) @ store_native be 8 (0 :: u64)"

definition SD_ID128_ALLF :: "bool \<Rightarrow> sd_id128" where
  "SD_ID128_ALLF be = store_native be 8 (0xFFFFFFFFFFFFFFFF :: u64) @ store_native be 8 (0xFFFFFFFFFFFFFFFF :: u64)"

section \<open>Properties\<close>

lemma load_native_inject:
  assumes "length bs = 8" and "length cs = 8"
  shows "load_native be bs = (load_native be cs :: u64) \<longleftrightarrow> bs = cs"
proof
  assume "load_native be bs = (load_native be cs :: u64)"
  then have "word_bytes 8 (load_native be bs :: u64) = word_bytes 8 (load_native be cs :: u64)" by simp
  then show "bs = cs" using assms by (simp add: load_native_def word_bytes_le_word split: if_splits)
qed simp

lemma qwords_inject:
  assumes "length a = 16" and "length b = 16"
  shows "qword be a 0 = qword be b 0 \<and> qword be a 1 = qword be b 1 \<longleftrightarrow> a = b"
proof -
  have split: "x = segment 0 8 x @ segment 8 8 x" if "length x = 16" for x :: bytes
    using that by (simp add: segment_def)
  have "qword be a 0 = qword be b 0 \<longleftrightarrow> segment 0 8 a = segment 0 8 b"
    "qword be a 1 = qword be b 1 \<longleftrightarrow> segment 8 8 a = segment 8 8 b"
    unfolding qword_def using assms by (simp_all add: load_native_inject segment_def)
  then show ?thesis using split [OF assms(1)] split [OF assms(2)] by metis
qed

text \<open>The predicates compare with the constants, whose bytes are the same on every host.\<close>

lemma word_bytes_ones: "word_bytes 8 (0 :: u64) = replicate 8 0" "word_bytes 8 (0xFFFFFFFFFFFFFFFF :: u64) = replicate 8 255"
  by code_simp+

lemma id_constants: "SD_ID128_NULL be = replicate 16 0" "SD_ID128_ALLF be = replicate 16 255"
  by (simp_all add: SD_ID128_NULL_def SD_ID128_ALLF_def store_native_def word_bytes_ones flip: replicate_add)

lemma id_predicates:
  assumes "length a = 16"
  shows "sd_id128_is_null be a \<longleftrightarrow> sd_id128_equal a (SD_ID128_NULL be')"
    and "sd_id128_is_allf be a \<longleftrightarrow> sd_id128_equal a (SD_ID128_ALLF be')"
proof -
  have words: "qword be (SD_ID128_NULL be) i = 0" "qword be (SD_ID128_ALLF be) i = 0xFFFFFFFFFFFFFFFF" if "i \<in> {0, 1}" for i
  proof -
    have "le_word (replicate 8 (0 :: u8)) = (0 :: u64)" "le_word (replicate 8 (255 :: u8)) = (0xFFFFFFFFFFFFFFFF :: u64)"
      by (simp_all flip: word_bytes_ones add: le_word_word_bytes)
    then show "qword be (SD_ID128_NULL be) i = 0" "qword be (SD_ID128_ALLF be) i = 0xFFFFFFFFFFFFFFFF"
      using that by (auto simp: qword_def load_native_def id_constants segment_def)
  qed
  have "length (SD_ID128_NULL be) = 16" "length (SD_ID128_ALLF be) = 16" by (simp_all add: id_constants)
  then show "sd_id128_is_null be a \<longleftrightarrow> sd_id128_equal a (SD_ID128_NULL be')"
    "sd_id128_is_allf be a \<longleftrightarrow> sd_id128_equal a (SD_ID128_ALLF be')"
    using qwords_inject [OF assms, of "SD_ID128_NULL be" be] qwords_inject [OF assms, of "SD_ID128_ALLF be" be] words
    by (simp_all add: sd_id128_is_null_def sd_id128_is_allf_def sd_id128_equal_def id_constants)
qed

text \<open>The text names the id: reading its digits back gives the bytes.\<close>

definition hex_value :: "u8 \<Rightarrow> u8" where
  "hex_value c = (if 97 \<le> c then c - 97 + 10 else c - 48)"

fun id_of_str :: "bytes \<Rightarrow> sd_id128" where
  "id_of_str (c # d # cs) = (push_bit 4 (hex_value c) OR hex_value d) # id_of_str cs"
| "id_of_str _ = []"

lemma hex_value_digit:
  assumes "n < 16"
  shows "hex_value (hex_digit n) = n" and "hex_digit n \<noteq> 0"
proof -
  have "unat n < 16" using assms by (simp add: word_less_nat_alt)
  then have "unat n \<in> {0..<16}" by simp
  then have "unat n \<in> set [0..<16]" by simp
  moreover have "list_all (\<lambda>k. hex_value (hex_digit (of_nat k)) = of_nat k \<and> hex_digit (of_nat k) \<noteq> 0) [0..<16]"
    by code_simp
  ultimately have "hex_value (hex_digit (of_nat (unat n))) = of_nat (unat n) \<and> hex_digit (of_nat (unat n)) \<noteq> 0"
    unfolding list_all_iff by blast
  then show "hex_value (hex_digit n) = n" "hex_digit n \<noteq> 0" by simp_all
qed

lemma nibbles: "drop_bit 4 (b :: u8) < 16" "(b AND 15) < (16 :: u8)" "push_bit 4 (drop_bit 4 b) OR (b AND 15) = b"
proof -
  have m: "(15 :: u8) = mask 4" by (simp add: mask_eq_exp_minus_1)
  show "drop_bit 4 b < 16"
    using unsigned_less [of b, where 'a = nat] by (simp add: word_less_nat_alt drop_bit_eq_div unat_div)
  show "(b AND 15) < 16"
    by (rule order.strict_trans1 [OF word_and_le1]) simp
  show "push_bit 4 (drop_bit 4 b) OR (b AND 15) = b"
    unfolding m by (rule bit_word_eqI) (auto simp: bit_simps)
qed

lemma id_text_roundtrip:
  "id_of_str (SD_ID128_CONST_STR x) = x" "length x = 16 \<Longrightarrow> length (SD_ID128_CONST_STR x) = SD_ID128_STRING_MAX"
proof -
  show "id_of_str (SD_ID128_CONST_STR x) = x"
    unfolding SD_ID128_CONST_STR_def by (induction x) (simp_all add: hex_value_digit nibbles)
  have "length (concat (map (\<lambda>b. [hex_digit (drop_bit 4 b), hex_digit (b AND 15)]) x)) = 2 * length x"
    by (induction x) simp_all
  then show "length x = 16 \<Longrightarrow> length (SD_ID128_CONST_STR x) = SD_ID128_STRING_MAX"
    by (simp add: SD_ID128_CONST_STR_def SD_ID128_STRING_MAX_def)
qed

lemma id_text_distinct: "SD_ID128_CONST_STR a = SD_ID128_CONST_STR b \<longleftrightarrow> sd_id128_equal a b"
  unfolding sd_id128_equal_def by (metis id_text_roundtrip(1))

end
