(* ===== verification/Struct_Layout.thy ===== *)
theory Struct_Layout
  imports Journal_Object "HOL-Library.Sublist"
begin

text \<open>
  The structures of \<^verbatim>\<open>upstream/journal-def.h\<close> as declarations with the layout a C compiler gives them, packed or
  with the natural alignment, and the flags and signatures of the file's header.  The offsets and sizes
  that the other theories read with are those of this layout, which is what the assertions of the file
  check at compile time.
\<close>

unbundle bit_operations_syntax

section \<open>Types and their layout\<close>

text \<open>
  \<open>UInt\<close> has its width in bytes, \<open>Flex\<close> is a flexible array member, \<open>Id128\<close> the union \<open>sd_id128_t\<close>;
  \<open>Struct\<close> says whether it is packed.  \<open>al\<close> is the alignment of a 64-bit integer: 8, or 4 on i386.
\<close>

datatype ctype = UInt nat | Arr ctype nat | Flex ctype | Id128 | Struct bool "(string \<times> ctype) list"

definition align_up :: "nat \<Rightarrow> nat \<Rightarrow> nat" where
  "align_up n a = (n + a - 1) div a * a"

fun calign :: "nat \<Rightarrow> ctype \<Rightarrow> nat" where
  "calign al (UInt w) = (if w = 8 then al else w)"
| "calign al (Arr t n) = calign al t"
| "calign al (Flex t) = calign al t"
| "calign al Id128 = al"
| "calign al (Struct packed []) = 1"
| "calign al (Struct packed ((n, t) # fs)) = (if packed then 1 else max (calign al t) (calign al (Struct packed fs)))"

text \<open>\<open>field_end\<close> is where the fields end that are laid out from \<open>off\<close> on, before the padding at the end.\<close>

fun csize :: "nat \<Rightarrow> ctype \<Rightarrow> nat" and field_end :: "nat \<Rightarrow> bool \<Rightarrow> nat \<Rightarrow> (string \<times> ctype) list \<Rightarrow> nat" where
  "csize al (UInt w) = w"
| "csize al (Arr t n) = n * csize al t"
| "csize al (Flex t) = 0"
| "csize al Id128 = 16"
| "csize al (Struct packed fs) = align_up (field_end al packed 0 fs) (calign al (Struct packed fs))"
| "field_end al packed off [] = off"
| "field_end al packed off ((n, t) # fs) =
     field_end al packed ((if packed then off else align_up off (calign al t)) + csize al t) fs"

definition field_start :: "nat \<Rightarrow> bool \<Rightarrow> nat \<Rightarrow> ctype \<Rightarrow> nat" where
  "field_start al packed off t = (if packed then off else align_up off (calign al t))"

fun offset_in :: "nat \<Rightarrow> bool \<Rightarrow> nat \<Rightarrow> (string \<times> ctype) list \<Rightarrow> string \<Rightarrow> nat option" where
  "offset_in al packed off [] name = None"
| "offset_in al packed off ((n, t) # fs) name =
     (if n = name then Some (field_start al packed off t)
      else offset_in al packed (field_start al packed off t + csize al t) fs name)"

fun offset_of :: "nat \<Rightarrow> ctype \<Rightarrow> string \<Rightarrow> nat option" where
  "offset_of al (Struct packed fs) name = offset_in al packed 0 fs name"
| "offset_of al t name = None"

text \<open>The offsets of all integers of eight bytes, those of nested structures included.\<close>

fun words_at :: "nat \<Rightarrow> nat \<Rightarrow> ctype \<Rightarrow> nat list" and
  words_in :: "nat \<Rightarrow> bool \<Rightarrow> nat \<Rightarrow> (string \<times> ctype) list \<Rightarrow> nat list" where
  "words_at al off (UInt w) = (if w = 8 then [off] else [])"
| "words_at al off (Struct packed fs) = words_in al packed off fs"
| "words_at al off t = []"
| "words_in al packed off [] = []"
| "words_in al packed off ((n, t) # fs) =
     words_at al (field_start al packed off t) t @ words_in al packed (field_start al packed off t + csize al t) fs"

section \<open>The declarations\<close>

definition U8 :: ctype where "U8 = UInt 1"
definition LE16 :: ctype where "LE16 = UInt 2"
definition LE32 :: ctype where "LE32 = UInt 4"
definition LE64 :: ctype where "LE64 = UInt 8"

definition ObjectHeader_struct :: ctype where
  "ObjectHeader_struct = Struct True
     [(''type'', U8), (''flags'', U8), (''reserved'', Arr U8 6), (''size'', LE64), (''payload'', Flex U8)]"

definition HashedObjectHeader_struct :: ctype where
  "HashedObjectHeader_struct = Struct True
     [(''object'', ObjectHeader_struct), (''hash'', LE64), (''next_hash_offset'', LE64)]"

definition DataObject_contents :: "bool \<Rightarrow> ctype" where
  "DataObject_contents packed = Struct packed
     [(''hashed'', HashedObjectHeader_struct), (''next_field_offset'', LE64), (''entry_offset'', LE64),
      (''entry_array_offset'', LE64), (''n_entries'', LE64), (''payload'', Flex U8)]"

definition FieldObject_contents :: "bool \<Rightarrow> ctype" where
  "FieldObject_contents packed = Struct packed
     [(''hashed'', HashedObjectHeader_struct), (''head_data_offset'', LE64), (''payload'', Flex U8)]"

definition EntryItem_struct :: ctype where
  "EntryItem_struct = Struct True [(''object_offset'', LE64), (''hash'', LE64)]"

definition EntryObject_contents :: "bool \<Rightarrow> ctype" where
  "EntryObject_contents packed = Struct packed
     [(''object'', ObjectHeader_struct), (''seqnum'', LE64), (''realtime'', LE64), (''monotonic'', LE64),
      (''boot_id'', Id128), (''xor_hash'', LE64), (''items'', Flex EntryItem_struct)]"

definition HashItem_struct :: ctype where
  "HashItem_struct = Struct True [(''head_hash_offset'', LE64), (''tail_hash_offset'', LE64)]"

definition HashTableObject_struct :: ctype where
  "HashTableObject_struct = Struct True [(''object'', ObjectHeader_struct), (''items'', Flex HashItem_struct)]"

definition EntryArrayObject_struct :: ctype where
  "EntryArrayObject_struct = Struct True
     [(''object'', ObjectHeader_struct), (''next_entry_array_offset'', LE64), (''items'', Flex LE64)]"

definition TAG_LENGTH :: nat where "TAG_LENGTH = 256 div 8"

definition TagObject_struct :: ctype where
  "TagObject_struct = Struct True
     [(''object'', ObjectHeader_struct), (''seqnum'', LE64), (''epoch'', LE64), (''tag'', Arr U8 TAG_LENGTH)]"

definition Header_contents :: "bool \<Rightarrow> ctype" where
  "Header_contents packed = Struct packed
     ([(''signature'', Arr U8 8), (''compatible_flags'', LE32), (''incompatible_flags'', LE32),
       (''state'', U8), (''reserved'', Arr U8 7),
       (''file_id'', Id128), (''machine_id'', Id128), (''boot_id'', Id128), (''seqnum_id'', Id128)] @
      map (\<lambda>n. (n, LE64))
        [''header_size'', ''arena_size'', ''data_hash_table_offset'', ''data_hash_table_size'',
         ''field_hash_table_offset'', ''field_hash_table_size'', ''tail_object_offset'', ''n_objects'',
         ''n_entries'', ''tail_entry_seqnum'', ''head_entry_seqnum'', ''entry_array_offset'',
         ''head_entry_realtime'', ''tail_entry_realtime'', ''tail_entry_monotonic'', ''n_data'', ''n_fields'',
         ''n_tags'', ''n_entry_arrays'', ''data_hash_chain_depth'', ''field_hash_chain_depth''])"

definition FSSHeader_struct :: ctype where
  "FSSHeader_struct = Struct True
     [(''signature'', Arr U8 8), (''compatible_flags'', LE32), (''incompatible_flags'', LE32),
      (''machine_id'', Id128), (''boot_id'', Id128), (''header_size'', LE64), (''start_usec'', LE64),
      (''interval_usec'', LE64), (''fsprg_secpar'', LE16), (''reserved'', Arr LE16 3), (''fsprg_state_size'', LE64)]"

text \<open>The member of the union \<open>Object\<close> that an object of each type is accessed through.\<close>

fun object_member :: "ObjectType \<Rightarrow> ctype" where
  "object_member OBJECT_UNUSED = ObjectHeader_struct"
| "object_member OBJECT_DATA = DataObject_contents False"
| "object_member OBJECT_FIELD = FieldObject_contents False"
| "object_member OBJECT_ENTRY = EntryObject_contents False"
| "object_member OBJECT_DATA_HASH_TABLE = HashTableObject_struct"
| "object_member OBJECT_FIELD_HASH_TABLE = HashTableObject_struct"
| "object_member OBJECT_ENTRY_ARRAY = EntryArrayObject_struct"
| "object_member OBJECT_TAG = TagObject_struct"

lemmas struct_defs = ObjectHeader_struct_def HashedObjectHeader_struct_def DataObject_contents_def
  FieldObject_contents_def EntryItem_struct_def EntryObject_contents_def HashItem_struct_def
  HashTableObject_struct_def EntryArrayObject_struct_def TagObject_struct_def Header_contents_def
  FSSHeader_struct_def U8_def LE16_def LE32_def LE64_def TAG_LENGTH_def

lemmas layout_defs = align_up_def field_start_def

section \<open>Flags and signatures\<close>

definition OBJECT_COMPRESSED_MAX :: u8 where "OBJECT_COMPRESSED_MAX = OBJECT_COMPRESSION_MASK"

definition HEADER_INCOMPATIBLE_COMPRESSED_XZ :: u32 where "HEADER_INCOMPATIBLE_COMPRESSED_XZ = push_bit 0 1"
definition HEADER_INCOMPATIBLE_COMPRESSED_LZ4 :: u32 where "HEADER_INCOMPATIBLE_COMPRESSED_LZ4 = push_bit 1 1"
definition HEADER_INCOMPATIBLE_COMPRESSED_ZSTD :: u32 where "HEADER_INCOMPATIBLE_COMPRESSED_ZSTD = push_bit 3 1"

definition HEADER_INCOMPATIBLE_ANY :: u32 where
  "HEADER_INCOMPATIBLE_ANY = (HEADER_INCOMPATIBLE_COMPRESSED_XZ OR HEADER_INCOMPATIBLE_COMPRESSED_LZ4 OR
     HEADER_INCOMPATIBLE_KEYED_HASH OR HEADER_INCOMPATIBLE_COMPRESSED_ZSTD)"

text \<open>By the compressions the build has: \<open>HAVE_XZ\<close>, \<open>HAVE_LZ4\<close>, \<open>HAVE_ZSTD\<close>, tested in the order of the file.\<close>

definition HEADER_INCOMPATIBLE_SUPPORTED :: "bool \<Rightarrow> bool \<Rightarrow> bool \<Rightarrow> u32" where
  "HEADER_INCOMPATIBLE_SUPPORTED xz lz4 zstd =
     (if xz \<and> lz4 \<and> zstd then HEADER_INCOMPATIBLE_ANY
      else if xz \<and> lz4 then HEADER_INCOMPATIBLE_COMPRESSED_XZ OR HEADER_INCOMPATIBLE_COMPRESSED_LZ4 OR HEADER_INCOMPATIBLE_KEYED_HASH
      else if xz \<and> zstd then HEADER_INCOMPATIBLE_COMPRESSED_XZ OR HEADER_INCOMPATIBLE_COMPRESSED_ZSTD OR HEADER_INCOMPATIBLE_KEYED_HASH
      else if lz4 \<and> zstd then HEADER_INCOMPATIBLE_COMPRESSED_LZ4 OR HEADER_INCOMPATIBLE_COMPRESSED_ZSTD OR HEADER_INCOMPATIBLE_KEYED_HASH
      else if xz then HEADER_INCOMPATIBLE_COMPRESSED_XZ OR HEADER_INCOMPATIBLE_KEYED_HASH
      else if lz4 then HEADER_INCOMPATIBLE_COMPRESSED_LZ4 OR HEADER_INCOMPATIBLE_KEYED_HASH
      else if zstd then HEADER_INCOMPATIBLE_COMPRESSED_ZSTD OR HEADER_INCOMPATIBLE_KEYED_HASH
      else HEADER_INCOMPATIBLE_KEYED_HASH)"

definition HEADER_COMPATIBLE_SEALED :: u32 where "HEADER_COMPATIBLE_SEALED = push_bit 0 1"
definition HEADER_COMPATIBLE_ANY :: u32 where "HEADER_COMPATIBLE_ANY = HEADER_COMPATIBLE_SEALED"
definition HEADER_COMPATIBLE_SUPPORTED :: "bool \<Rightarrow> u32" where
  "HEADER_COMPATIBLE_SUPPORTED gcrypt = (if gcrypt then HEADER_COMPATIBLE_SEALED else 0)"

definition HEADER_SIGNATURE :: string where "HEADER_SIGNATURE = ''LPKSHHRH''"
definition FSS_HEADER_SIGNATURE :: string where "FSS_HEADER_SIGNATURE = ''KSHHRHLP''"

text \<open>Each compression has its own bit in the order of the tests, and \<open>KEYED_HASH\<close> is supported by every build.\<close>

lemma supported_flags:
  "HEADER_INCOMPATIBLE_SUPPORTED xz lz4 zstd =
     (HEADER_INCOMPATIBLE_KEYED_HASH OR (if xz then HEADER_INCOMPATIBLE_COMPRESSED_XZ else 0) OR
      (if lz4 then HEADER_INCOMPATIBLE_COMPRESSED_LZ4 else 0) OR (if zstd then HEADER_INCOMPATIBLE_COMPRESSED_ZSTD else 0))"
  by (cases xz; cases lz4; cases zstd) (simp_all add: HEADER_INCOMPATIBLE_SUPPORTED_def HEADER_INCOMPATIBLE_ANY_def
    HEADER_INCOMPATIBLE_COMPRESSED_XZ_def HEADER_INCOMPATIBLE_COMPRESSED_LZ4_def
    HEADER_INCOMPATIBLE_COMPRESSED_ZSTD_def HEADER_INCOMPATIBLE_KEYED_HASH_def)

section \<open>The layout the code relies on\<close>

text \<open>What the file asserts at compile time: packing changes nothing, and a header has 256 bytes.\<close>

lemma sizes:
  assumes "al \<in> {4, 8}"
  shows "csize al (DataObject_contents packed) = sizeof_DataObject" "csize al (FieldObject_contents packed) = sizeof_FieldObject"
    "csize al (EntryObject_contents packed) = offsetof_EntryObject_items"
    "csize al ObjectHeader_struct = sizeof_ObjectHeader" "csize al HashedObjectHeader_struct = sizeof_HashedObjectHeader"
    "csize al HashItem_struct = sizeof_HashItem" "csize al EntryItem_struct = sizeof_EntryItem"
    "csize al TagObject_struct = 64" "csize al FSSHeader_struct = 88"
  using assms by (cases packed; auto simp: struct_defs layout_defs layout_simps)+

lemma header_size:
  "csize 8 (Header_contents False) = sizeof_Header" "csize 8 (Header_contents True) = sizeof_Header"
  "csize 4 (Header_contents False) = sizeof_Header" "csize 4 (Header_contents True) = sizeof_Header"
  by (simp_all add: struct_defs layout_defs layout_simps)

lemma item_offsets:
  assumes "al \<in> {4, 8}"
  shows "offset_of al (EntryObject_contents packed) ''items'' = Some offsetof_EntryObject_items"
    "offset_of al HashTableObject_struct ''items'' = Some offsetof_HashTableObject_items"
    "offset_of al EntryArrayObject_struct ''items'' = Some offsetof_EntryArrayObject_items"
  using assms by (cases packed; auto simp: struct_defs layout_defs layout_simps)+

text \<open>The words of an object's member, after the size in its header, are the first that are converted.\<close>

lemma member_words:
  assumes "al \<in> {4, 8}"
  shows "\<exists>ws. words_at al 0 (object_member ty) = 8 # ws \<and> prefix ws (object_fields ty sz)"
  using assms by (cases ty) (auto simp: struct_defs layout_defs)

definition header_words :: "(string \<times> (Header \<Rightarrow> u64)) list" where
  "header_words =
     [(''header_size'', header_size), (''arena_size'', arena_size),
      (''data_hash_table_offset'', data_hash_table_offset), (''data_hash_table_size'', data_hash_table_size),
      (''field_hash_table_offset'', field_hash_table_offset), (''field_hash_table_size'', field_hash_table_size),
      (''tail_object_offset'', tail_object_offset), (''n_objects'', n_objects), (''n_entries'', n_entries),
      (''tail_entry_seqnum'', tail_entry_seqnum), (''head_entry_seqnum'', head_entry_seqnum),
      (''entry_array_offset'', entry_array_offset), (''head_entry_realtime'', head_entry_realtime),
      (''tail_entry_realtime'', tail_entry_realtime), (''tail_entry_monotonic'', tail_entry_monotonic),
      (''n_data'', n_data), (''n_fields'', n_fields), (''n_tags'', n_tags), (''n_entry_arrays'', n_entry_arrays),
      (''data_hash_chain_depth'', data_hash_chain_depth), (''field_hash_chain_depth'', field_hash_chain_depth)]"

lemma header_word_offsets:
  "map (\<lambda>(n, sel). offset_of 8 (Header_contents False) n) header_words = map (\<lambda>i. Some (88 + 8 * i)) [0..<21]"
  "map (\<lambda>(n, sel). offset_of 4 (Header_contents False) n) header_words = map (\<lambda>i. Some (88 + 8 * i)) [0..<21]"
  by (simp_all add: header_words_def struct_defs layout_defs upt_rec)

lemma header_words_read:
  "map (\<lambda>(n, sel). sel (header_of_mem be m)) header_words = map (\<lambda>i. ld64 be (88 + 8 * i) m) [0..<21]"
  by (simp add: header_words_def header_of_mem_def header_with_def upt_rec)

lemma header_short_fields:
  assumes "al \<in> {4, 8}"
  shows "offset_of al (Header_contents False) ''compatible_flags'' = Some 8"
    "offset_of al (Header_contents False) ''incompatible_flags'' = Some 12"
    "offset_of al (Header_contents False) ''state'' = Some 16"
    "offset_of al (Header_contents False) ''file_id'' = Some 24"
  using assms by (auto simp: struct_defs layout_defs)

lemma header_word:
  assumes "al \<in> {4, 8}" and "(n, sel) \<in> set header_words"
  shows "\<exists>off. offset_of al (Header_contents False) n = Some off \<and> sel (header_of_mem be m) = ld64 be off m"
proof -
  obtain i where i: "i < length header_words" "header_words ! i = (n, sel)" using assms(2) by (meson in_set_conv_nth)
  have len: "length header_words = 21" by (simp add: header_words_def)
  have "map (\<lambda>(n, sel). offset_of al (Header_contents False) n) header_words = map (\<lambda>i. Some (88 + 8 * i)) [0..<21]"
    using assms(1) header_word_offsets by (elim insertE) simp_all
  then have "map (\<lambda>(n, sel). offset_of al (Header_contents False) n) header_words ! i = Some (88 + 8 * i)"
    using i(1) len by simp
  moreover have "map (\<lambda>(n, sel). sel (header_of_mem be m)) header_words ! i = ld64 be (88 + 8 * i) m"
    using i(1) len by (simp add: header_words_read)
  ultimately show ?thesis using i by simp
qed

section \<open>Properties\<close>

text \<open>The sizes and the offsets of flexible members as the code reads with them, and as the declarations have them.\<close>

definition read_with :: "(ctype \<times> nat) list" where
  "read_with =
     [(ObjectHeader_struct, sizeof_ObjectHeader), (HashedObjectHeader_struct, sizeof_HashedObjectHeader),
      (HashItem_struct, sizeof_HashItem), (EntryItem_struct, sizeof_EntryItem),
      (DataObject_contents False, sizeof_DataObject), (DataObject_contents True, sizeof_DataObject),
      (FieldObject_contents False, sizeof_FieldObject), (FieldObject_contents True, sizeof_FieldObject),
      (EntryObject_contents False, offsetof_EntryObject_items), (EntryObject_contents True, offsetof_EntryObject_items),
      (Header_contents False, sizeof_Header), (Header_contents True, sizeof_Header)]"

definition flexible_with :: "(ctype \<times> string \<times> nat) list" where
  "flexible_with =
     [(DataObject_contents False, ''payload'', sizeof_DataObject), (DataObject_contents True, ''payload'', sizeof_DataObject),
      (FieldObject_contents False, ''payload'', sizeof_FieldObject), (FieldObject_contents True, ''payload'', sizeof_FieldObject),
      (EntryObject_contents False, ''items'', offsetof_EntryObject_items),
      (EntryObject_contents True, ''items'', offsetof_EntryObject_items),
      (HashTableObject_struct, ''items'', offsetof_HashTableObject_items),
      (EntryArrayObject_struct, ''items'', offsetof_EntryArrayObject_items)]"

lemma read_with_sizes:
  "map (csize 8 \<circ> fst) read_with = map snd read_with" "map (csize 4 \<circ> fst) read_with = map snd read_with"
  by (simp_all add: read_with_def struct_defs layout_defs layout_simps)

lemma flexible_with_offsets:
  "map (\<lambda>(t, n, off). offset_of 8 t n) flexible_with = map (\<lambda>(t, n, off). Some off) flexible_with"
  "map (\<lambda>(t, n, off). offset_of 4 t n) flexible_with = map (\<lambda>(t, n, off). Some off) flexible_with"
  by (simp_all add: flexible_with_def struct_defs layout_defs layout_simps)

lemma small_offsets:
  assumes "al \<in> {4, 8}"
  shows "offset_of al ObjectHeader_struct ''type'' = Some 0" "offset_of al ObjectHeader_struct ''flags'' = Some 1"
    "offset_of al ObjectHeader_struct ''size'' = Some 8" "offset_of al HashedObjectHeader_struct ''object'' = Some 0"
    "offset_of al HashedObjectHeader_struct ''hash'' = Some 16" "offset_of al HashedObjectHeader_struct ''next_hash_offset'' = Some 24"
    "offset_of al HashItem_struct ''head_hash_offset'' = Some 0" "offset_of al HashItem_struct ''tail_hash_offset'' = Some 8"
  using assms by (auto simp: struct_defs layout_defs)

text \<open>C18: With 64-bit integers aligned to eight bytes or to four, every size and every offset of a flexible member
  that the code reads with is the one its declaration has, packed or not, and a file's header has 256 bytes.  The words that are converted in an
  object of each type are those its structure declares after the header, and the fields of a file's header, of an
  object's header, of a hashed object's header and of an item of a hash table are loaded from where the layout has them.\<close>

theorem layout_as_declared:
  assumes "al \<in> {4, 8}"
  shows "(\<forall>(t, n)\<in>set read_with. csize al t = n) \<and> (\<forall>(t, name, off)\<in>set flexible_with. offset_of al t name = Some off) \<and>
    csize al (Header_contents False) = 256 \<and>
    (\<forall>ty sz. \<exists>ws. words_at al 0 (object_member ty) = 8 # ws \<and> prefix ws (object_fields ty sz)) \<and>
    (\<forall>be m n sel. (n, sel) \<in> set header_words \<longrightarrow>
      (\<exists>off. offset_of al (Header_contents False) n = Some off \<and> sel (header_of_mem be m) = ld64 be off m)) \<and>
    (\<forall>be m. \<exists>c i s f. offset_of al (Header_contents False) ''compatible_flags'' = Some c \<and>
      offset_of al (Header_contents False) ''incompatible_flags'' = Some i \<and>
      offset_of al (Header_contents False) ''state'' = Some s \<and> offset_of al (Header_contents False) ''file_id'' = Some f \<and>
      compatible_flags (header_of_mem be m) = ld32 be c m \<and> incompatible_flags (header_of_mem be m) = ld32 be i m \<and>
      h_state (header_of_mem be m) = m ! s \<and> file_id (header_of_mem be m) = segment f 16 m) \<and>
    (\<forall>be m. \<exists>t f s. offset_of al ObjectHeader_struct ''type'' = Some t \<and> offset_of al ObjectHeader_struct ''flags'' = Some f \<and>
      offset_of al ObjectHeader_struct ''size'' = Some s \<and> o_type (object_header_of_mem be m) = m ! t \<and>
      o_flags (object_header_of_mem be m) = m ! f \<and> o_size (object_header_of_mem be m) = ld64 be s m) \<and>
    (\<forall>be m. \<exists>h n. offset_of al HashedObjectHeader_struct ''object'' = Some 0 \<and>
      offset_of al HashedObjectHeader_struct ''hash'' = Some h \<and>
      offset_of al HashedObjectHeader_struct ''next_hash_offset'' = Some n \<and>
      ho_hash (hashed_object_header_of_mem be m) = ld64 be h m \<and> ho_next_hash_offset (hashed_object_header_of_mem be m) = ld64 be n m) \<and>
    (\<forall>be m i. \<exists>h t. offset_of al HashItem_struct ''head_hash_offset'' = Some h \<and>
      offset_of al HashItem_struct ''tail_hash_offset'' = Some t \<and>
      head_hash_offset (hash_item_of_mem be m i) = ld64 be (csize al HashItem_struct * i + h) m \<and>
      tail_hash_offset (hash_item_of_mem be m i) = ld64 be (csize al HashItem_struct * i + t) m)"
proof (intro conjI allI impI)
  have "map (csize al \<circ> fst) read_with = map snd read_with" using assms read_with_sizes by (elim insertE) simp_all
  then show "\<forall>(t, n)\<in>set read_with. csize al t = n" by (auto simp: map_eq_conv)
  have "map (\<lambda>(t, n, off). offset_of al t n) flexible_with = map (\<lambda>(t, n, off). Some off) flexible_with"
    using assms flexible_with_offsets by (elim insertE) simp_all
  then show "\<forall>(t, name, off)\<in>set flexible_with. offset_of al t name = Some off" by (auto simp: map_eq_conv)
  show "csize al (Header_contents False) = 256" using assms header_size by (auto simp: sizeof_Header_def)
  show "\<exists>off. offset_of al (Header_contents False) n = Some off \<and> sel (header_of_mem be m) = ld64 be off m"
    if "(n, sel) \<in> set header_words" for be m n sel
    by (rule header_word [OF assms that])
qed (use assms in \<open>simp_all add: sizes member_words header_short_fields header_of_mem_def header_with_def small_offsets
  object_header_of_mem_def hashed_object_header_of_mem_def hash_item_of_mem_def sizeof_HashItem_def del: insert_iff\<close>)

theorem layout_as_declared_witness:
  "csize 8 (Header_contents False) = 256 \<and> csize 8 (DataObject_contents False) = sizeof_DataObject \<and>
    offset_of 8 (FieldObject_contents True) ''payload'' = Some sizeof_FieldObject \<and>
    (\<forall>be m. \<exists>off. offset_of 8 (Header_contents False) ''n_entries'' = Some off \<and> n_entries (header_of_mem be m) = ld64 be off m)"
proof -
  have al: "(8 :: nat) \<in> {4, 8}" and word: "(''n_entries'', n_entries) \<in> set header_words"
    "(DataObject_contents False, sizeof_DataObject) \<in> set read_with"
    "(FieldObject_contents True, ''payload'', sizeof_FieldObject) \<in> set flexible_with"
    by (simp_all add: header_words_def read_with_def flexible_with_def)
  show ?thesis using layout_as_declared [OF al] word by fast
qed

end
