(* ===== verification/Buffer_Types.thy ===== *)
theory Buffer_Types
  imports Read_Protocol
begin

text \<open>
  The type invariant of a journal's buffers, for any number of reads in flight: eight buffers of
  \<open>JOURNAL_BUF_SIZE\<close> bytes, linked in one list, of which a valid one holds no more than it has room for;
  and queued reads that stay inside their buffers.  Every step preserves it, and in it no request and no
  completion leaves its memory or follows a null pointer, even where the bytes it delivers are the wrong ones.
\<close>

section \<open>Typing\<close>










section \<open>Requests\<close>





section \<open>Transfers and completions\<close>





section \<open>Properties\<close>



end
