(* ===== verification/Lookup3.thy ===== *)
theory Lookup3
  imports Endian
begin

text \<open>
  Bob Jenkins' lookup3 hash as \<^verbatim>\<open>upstream/lookup3.c\<close> computes it: \<open>mix\<close> and \<open>final\<close>, the
  hashes of arrays of words, and the hashes of byte keys with their branches for the host's
  byte order and the key's alignment.  Memory is a function from addresses to bytes, because
  the aligned branches read whole words that may end past the key.  The byte-wise definition
  \<open>lookup3_bytes\<close> is the specification all branches are shown to compute.
\<close>

unbundle bit_operations_syntax

section \<open>Mixing\<close>

type_synonym abc = "u32 \<times> u32 \<times> u32"

definition rot :: "u32 \<Rightarrow> nat \<Rightarrow> u32" where
  "rot x k = push_bit k x OR drop_bit (32 - k) x"

definition mix :: "abc \<Rightarrow> abc" where
  "mix = (\<lambda>(a, b, c).
     (let a = a - c; a = a XOR rot c 4; c = c + b;
          b = b - a; b = b XOR rot a 6; a = a + c;
          c = c - b; c = c XOR rot b 8; b = b + a;
          a = a - c; a = a XOR rot c 16; c = c + b;
          b = b - a; b = b XOR rot a 19; a = a + c;
          c = c - b; c = c XOR rot b 4; b = b + a
      in (a, b, c)))"

definition final :: "abc \<Rightarrow> abc" where
  "final = (\<lambda>(a, b, c).
     (let c = c XOR b; c = c - rot b 14;
          a = a XOR c; a = a - rot c 11;
          b = b XOR a; b = b - rot a 25;
          c = c XOR b; c = c - rot b 16;
          a = a XOR c; a = a - rot c 4;
          b = b XOR a; b = b - rot a 14;
          c = c XOR b; c = c - rot b 24
      in (a, b, c)))"

section \<open>Keys of words\<close>

fun hashword_loop :: "u32 list \<Rightarrow> abc \<Rightarrow> u32 list \<times> abc" where
  "hashword_loop (k0 # k1 # k2 # k3 # ks) (a, b, c) =
     hashword_loop (k3 # ks) (mix (a + k0, b + k1, c + k2))"
| "hashword_loop ks s = (ks, s)"

text \<open>The last words; \<open>case 0\<close> leaves the state as it is.\<close>

fun hashword_tail :: "u32 list \<Rightarrow> abc \<Rightarrow> abc" where
  "hashword_tail [k0, k1, k2] (a, b, c) = final (a + k0, b + k1, c + k2)"
| "hashword_tail [k0, k1] (a, b, c) = final (a + k0, b + k1, c)"
| "hashword_tail [k0] (a, b, c) = final (a + k0, b, c)"
| "hashword_tail ks s = s"

definition jenkins_hashword :: "u32 list \<Rightarrow> u32 \<Rightarrow> u32" where
  "jenkins_hashword k initval =
     (let x = 0xdeadbeef + push_bit 2 (of_nat (length k)) + initval in
      case hashword_loop k (x, x, x) of (ks, s) \<Rightarrow>
      case hashword_tail ks s of (a, b, c) \<Rightarrow> c)"

text \<open>The seeds \<open>*pc\<close> and \<open>*pb\<close> in, the two hashes out.\<close>

definition jenkins_hashword2 :: "u32 list \<Rightarrow> u32 \<Rightarrow> u32 \<Rightarrow> u32 \<times> u32" where
  "jenkins_hashword2 k pc pb =
     (let x = 0xdeadbeef + of_nat (length k * 4) + pc in
      case hashword_loop k (x, x, x + pb) of (ks, s) \<Rightarrow>
      case hashword_tail ks s of (a, b, c) \<Rightarrow> (c, b))"

section \<open>Keys of bytes\<close>

type_synonym memory = "nat \<Rightarrow> u8"

definition bytes_at :: "memory \<Rightarrow> nat \<Rightarrow> nat \<Rightarrow> bytes" where
  "bytes_at mem p n = map (\<lambda>i. mem (p + i)) [0..<n]"

text \<open>\<open>k[i]\<close> for \<open>k\<close> a pointer to 32-bit, 16-bit or 8-bit integers at address \<open>p\<close>, as a \<open>uint32_t\<close>.\<close>

definition k32 :: "bool \<Rightarrow> memory \<Rightarrow> nat \<Rightarrow> nat \<Rightarrow> u32" where
  "k32 be mem p i = load_native be (bytes_at mem (p + 4 * i) 4)"

definition k16 :: "bool \<Rightarrow> memory \<Rightarrow> nat \<Rightarrow> nat \<Rightarrow> u32" where
  "k16 be mem p i = ucast (load_native be (bytes_at mem (p + 2 * i) 2) :: u16)"

definition k8 :: "memory \<Rightarrow> nat \<Rightarrow> nat \<Rightarrow> u32" where
  "k8 mem p i = ucast (mem (p + i))"

text \<open>One full block of 12 bytes added to the state, in the three branches and in \<open>hashbig\<close>'s two.\<close>

definition block_words :: "bool \<Rightarrow> memory \<Rightarrow> nat \<Rightarrow> abc \<Rightarrow> abc" where
  "block_words be mem p = (\<lambda>(a, b, c).
     (a + k32 be mem p 0, b + k32 be mem p 1, c + k32 be mem p 2))"

definition block_halves :: "bool \<Rightarrow> memory \<Rightarrow> nat \<Rightarrow> abc \<Rightarrow> abc" where
  "block_halves be mem p = (\<lambda>(a, b, c).
     (a + (k16 be mem p 0 + push_bit 16 (k16 be mem p 1)),
      b + (k16 be mem p 2 + push_bit 16 (k16 be mem p 3)),
      c + (k16 be mem p 4 + push_bit 16 (k16 be mem p 5))))"

definition block_bytes :: "memory \<Rightarrow> nat \<Rightarrow> abc \<Rightarrow> abc" where
  "block_bytes mem p = (\<lambda>(a, b, c).
     (a + k8 mem p 0 + push_bit 8 (k8 mem p 1) + push_bit 16 (k8 mem p 2) + push_bit 24 (k8 mem p 3),
      b + k8 mem p 4 + push_bit 8 (k8 mem p 5) + push_bit 16 (k8 mem p 6) + push_bit 24 (k8 mem p 7),
      c + k8 mem p 8 + push_bit 8 (k8 mem p 9) + push_bit 16 (k8 mem p 10) + push_bit 24 (k8 mem p 11)))"

definition block_bytes_big :: "memory \<Rightarrow> nat \<Rightarrow> abc \<Rightarrow> abc" where
  "block_bytes_big mem p = (\<lambda>(a, b, c).
     (a + push_bit 24 (k8 mem p 0) + push_bit 16 (k8 mem p 1) + push_bit 8 (k8 mem p 2) + k8 mem p 3,
      b + push_bit 24 (k8 mem p 4) + push_bit 16 (k8 mem p 5) + push_bit 8 (k8 mem p 6) + k8 mem p 7,
      c + push_bit 24 (k8 mem p 8) + push_bit 16 (k8 mem p 9) + push_bit 8 (k8 mem p 10) + k8 mem p 11))"

text \<open>\<open>while (length > 12)\<close>: the pointer, the length left and the state after it.\<close>

function hash_blocks :: "(nat \<Rightarrow> abc \<Rightarrow> abc) \<Rightarrow> nat \<Rightarrow> nat \<Rightarrow> abc \<Rightarrow> nat \<times> nat \<times> abc" where
  "hash_blocks blk p n s =
     (if 12 < n then hash_blocks blk (p + 12) (n - 12) (mix (blk p s)) else (p, n, s))"
  by pat_completeness auto

termination by (relation "measure (\<lambda>(blk, p, n, s). n)") auto

declare hash_blocks.simps [simp del]

text \<open>The last, partial block: the masked reads of the aligned branch.\<close>

definition tail_words :: "bool \<Rightarrow> memory \<Rightarrow> nat \<Rightarrow> nat \<Rightarrow> abc \<Rightarrow> abc" where
  "tail_words be mem p n = (\<lambda>(a, b, c).
     (let k = k32 be mem p in
      if n = 12 then (a + k 0, b + k 1, c + k 2)
      else if n = 11 then (a + k 0, b + k 1, c + (k 2 AND 0xffffff))
      else if n = 10 then (a + k 0, b + k 1, c + (k 2 AND 0xffff))
      else if n = 9 then (a + k 0, b + k 1, c + (k 2 AND 0xff))
      else if n = 8 then (a + k 0, b + k 1, c)
      else if n = 7 then (a + k 0, b + (k 1 AND 0xffffff), c)
      else if n = 6 then (a + k 0, b + (k 1 AND 0xffff), c)
      else if n = 5 then (a + k 0, b + (k 1 AND 0xff), c)
      else if n = 4 then (a + k 0, b, c)
      else if n = 3 then (a + (k 0 AND 0xffffff), b, c)
      else if n = 2 then (a + (k 0 AND 0xffff), b, c)
      else if n = 1 then (a + (k 0 AND 0xff), b, c)
      else (a, b, c)))"

text \<open>The variant for memory checkers, which reads the tail by bytes; its cases fall through.\<close>

definition tail_words_k8 :: "bool \<Rightarrow> memory \<Rightarrow> nat \<Rightarrow> nat \<Rightarrow> abc \<Rightarrow> abc" where
  "tail_words_k8 be mem p n = (\<lambda>(a, b, c).
     (let k = k32 be mem p; k8 = k8 mem p in
      if n = 12 then (a + k 0, b + k 1, c + k 2)
      else if n \<ge> 8 then
        (let c = (if n \<ge> 11 then c + push_bit 16 (k8 10) else c);
             c = (if n \<ge> 10 then c + push_bit 8 (k8 9) else c);
             c = (if n \<ge> 9 then c + k8 8 else c)
         in (a + k 0, b + k 1, c))
      else if n \<ge> 4 then
        (let b = (if n \<ge> 7 then b + push_bit 16 (k8 6) else b);
             b = (if n \<ge> 6 then b + push_bit 8 (k8 5) else b);
             b = (if n \<ge> 5 then b + k8 4 else b)
         in (a + k 0, b, c))
      else
        (let a = (if n \<ge> 3 then a + push_bit 16 (k8 2) else a);
             a = (if n \<ge> 2 then a + push_bit 8 (k8 1) else a);
             a = (if n \<ge> 1 then a + k8 0 else a)
         in (a, b, c))))"

definition tail_halves :: "bool \<Rightarrow> memory \<Rightarrow> nat \<Rightarrow> nat \<Rightarrow> abc \<Rightarrow> abc" where
  "tail_halves be mem p n = (\<lambda>(a, b, c).
     (let k = k16 be mem p; k8 = k8 mem p;
          a4 = a + (k 0 + push_bit 16 (k 1)); b8 = b + (k 2 + push_bit 16 (k 3))
      in if n = 12 then (a4, b8, c + (k 4 + push_bit 16 (k 5)))
      else if n = 11 then (a4, b8, c + push_bit 16 (k8 10) + k 4)
      else if n = 10 then (a4, b8, c + k 4)
      else if n = 9 then (a4, b8, c + k8 8)
      else if n = 8 then (a4, b8, c)
      else if n = 7 then (a4, b + push_bit 16 (k8 6) + k 2, c)
      else if n = 6 then (a4, b + k 2, c)
      else if n = 5 then (a4, b + k8 4, c)
      else if n = 4 then (a4, b, c)
      else if n = 3 then (a + push_bit 16 (k8 2) + k 0, b, c)
      else if n = 2 then (a + k 0, b, c)
      else if n = 1 then (a + k8 0, b, c)
      else (a, b, c)))"

definition tail_bytes :: "memory \<Rightarrow> nat \<Rightarrow> nat \<Rightarrow> abc \<Rightarrow> abc" where
  "tail_bytes mem p n = (\<lambda>(a, b, c).
     (let k = k8 mem p;
          c = (if n \<ge> 12 then c + push_bit 24 (k 11) else c);
          c = (if n \<ge> 11 then c + push_bit 16 (k 10) else c);
          c = (if n \<ge> 10 then c + push_bit 8 (k 9) else c);
          c = (if n \<ge> 9 then c + k 8 else c);
          b = (if n \<ge> 8 then b + push_bit 24 (k 7) else b);
          b = (if n \<ge> 7 then b + push_bit 16 (k 6) else b);
          b = (if n \<ge> 6 then b + push_bit 8 (k 5) else b);
          b = (if n \<ge> 5 then b + k 4 else b);
          a = (if n \<ge> 4 then a + push_bit 24 (k 3) else a);
          a = (if n \<ge> 3 then a + push_bit 16 (k 2) else a);
          a = (if n \<ge> 2 then a + push_bit 8 (k 1) else a);
          a = (if n \<ge> 1 then a + k 0 else a)
      in (a, b, c)))"

text \<open>A branch: its loop, its tail, and \<open>final\<close> unless nothing is left (\<open>case 0: return c\<close>).\<close>

definition hash_branch ::
  "(nat \<Rightarrow> abc \<Rightarrow> abc) \<Rightarrow> (nat \<Rightarrow> nat \<Rightarrow> abc \<Rightarrow> abc) \<Rightarrow> nat \<Rightarrow> nat \<Rightarrow> abc \<Rightarrow> abc" where
  "hash_branch blk tail p n s =
     (case hash_blocks blk p n s of (p', n', s') \<Rightarrow> if n' = 0 then s' else final (tail p' n' s'))"

text \<open>
  The common body of \<open>hashlittle\<close> and \<open>hashlittle2\<close>.  \<open>vg\<close> is the build for a memory checker;
  \<open>HASH_LITTLE_ENDIAN\<close> holds on a host that is not big-endian.
\<close>

definition hashlittle_body :: "bool \<Rightarrow> bool \<Rightarrow> memory \<Rightarrow> nat \<Rightarrow> nat \<Rightarrow> abc \<Rightarrow> abc" where
  "hashlittle_body be vg mem key n s =
     (if \<not> be \<and> key mod 4 = 0 then
        hash_branch (block_words be mem)
          (if vg then tail_words_k8 be mem else tail_words be mem) key n s
      else if \<not> be \<and> key mod 2 = 0 then
        hash_branch (block_halves be mem) (tail_halves be mem) key n s
      else hash_branch (block_bytes mem) (tail_bytes mem) key n s)"

definition jenkins_hashlittle :: "bool \<Rightarrow> bool \<Rightarrow> memory \<Rightarrow> nat \<Rightarrow> nat \<Rightarrow> u32 \<Rightarrow> u32" where
  "jenkins_hashlittle be vg mem key n initval =
     (let x = 0xdeadbeef + of_nat n + initval in
      case hashlittle_body be vg mem key n (x, x, x) of (a, b, c) \<Rightarrow> c)"

definition jenkins_hashlittle2 ::
  "bool \<Rightarrow> bool \<Rightarrow> memory \<Rightarrow> nat \<Rightarrow> nat \<Rightarrow> u32 \<Rightarrow> u32 \<Rightarrow> u32 \<times> u32" where
  "jenkins_hashlittle2 be vg mem key n pc pb =
     (let x = 0xdeadbeef + of_nat n + pc in
      case hashlittle_body be vg mem key n (x, x, x + pb) of (a, b, c) \<Rightarrow> (c, b))"

definition jenkins_hash64 :: "bool \<Rightarrow> bool \<Rightarrow> memory \<Rightarrow> nat \<Rightarrow> nat \<Rightarrow> u64" where
  "jenkins_hash64 be vg mem data n =
     (case jenkins_hashlittle2 be vg mem data n 0 0 of
        (a, b) \<Rightarrow> push_bit 32 (ucast a) OR ucast b)"

definition tail_words_big :: "bool \<Rightarrow> memory \<Rightarrow> nat \<Rightarrow> nat \<Rightarrow> abc \<Rightarrow> abc" where
  "tail_words_big be mem p n = (\<lambda>(a, b, c).
     (let k = k32 be mem p in
      if n = 12 then (a + k 0, b + k 1, c + k 2)
      else if n = 11 then (a + k 0, b + k 1, c + (k 2 AND 0xffffff00))
      else if n = 10 then (a + k 0, b + k 1, c + (k 2 AND 0xffff0000))
      else if n = 9 then (a + k 0, b + k 1, c + (k 2 AND 0xff000000))
      else if n = 8 then (a + k 0, b + k 1, c)
      else if n = 7 then (a + k 0, b + (k 1 AND 0xffffff00), c)
      else if n = 6 then (a + k 0, b + (k 1 AND 0xffff0000), c)
      else if n = 5 then (a + k 0, b + (k 1 AND 0xff000000), c)
      else if n = 4 then (a + k 0, b, c)
      else if n = 3 then (a + (k 0 AND 0xffffff00), b, c)
      else if n = 2 then (a + (k 0 AND 0xffff0000), b, c)
      else if n = 1 then (a + (k 0 AND 0xff000000), b, c)
      else (a, b, c)))"

definition tail_words_big_k8 :: "bool \<Rightarrow> memory \<Rightarrow> nat \<Rightarrow> nat \<Rightarrow> abc \<Rightarrow> abc" where
  "tail_words_big_k8 be mem p n = (\<lambda>(a, b, c).
     (let k = k32 be mem p; k8 = k8 mem p in
      if n = 12 then (a + k 0, b + k 1, c + k 2)
      else if n \<ge> 8 then
        (let c = (if n \<ge> 11 then c + push_bit 8 (k8 10) else c);
             c = (if n \<ge> 10 then c + push_bit 16 (k8 9) else c);
             c = (if n \<ge> 9 then c + push_bit 24 (k8 8) else c)
         in (a + k 0, b + k 1, c))
      else if n \<ge> 4 then
        (let b = (if n \<ge> 7 then b + push_bit 8 (k8 6) else b);
             b = (if n \<ge> 6 then b + push_bit 16 (k8 5) else b);
             b = (if n \<ge> 5 then b + push_bit 24 (k8 4) else b)
         in (a + k 0, b, c))
      else
        (let a = (if n \<ge> 3 then a + push_bit 8 (k8 2) else a);
             a = (if n \<ge> 2 then a + push_bit 16 (k8 1) else a);
             a = (if n \<ge> 1 then a + push_bit 24 (k8 0) else a)
         in (a, b, c))))"

definition tail_bytes_big :: "memory \<Rightarrow> nat \<Rightarrow> nat \<Rightarrow> abc \<Rightarrow> abc" where
  "tail_bytes_big mem p n = (\<lambda>(a, b, c).
     (let k = k8 mem p;
          c = (if n \<ge> 12 then c + k 11 else c);
          c = (if n \<ge> 11 then c + push_bit 8 (k 10) else c);
          c = (if n \<ge> 10 then c + push_bit 16 (k 9) else c);
          c = (if n \<ge> 9 then c + push_bit 24 (k 8) else c);
          b = (if n \<ge> 8 then b + k 7 else b);
          b = (if n \<ge> 7 then b + push_bit 8 (k 6) else b);
          b = (if n \<ge> 6 then b + push_bit 16 (k 5) else b);
          b = (if n \<ge> 5 then b + push_bit 24 (k 4) else b);
          a = (if n \<ge> 4 then a + k 3 else a);
          a = (if n \<ge> 3 then a + push_bit 8 (k 2) else a);
          a = (if n \<ge> 2 then a + push_bit 16 (k 1) else a);
          a = (if n \<ge> 1 then a + push_bit 24 (k 0) else a)
      in (a, b, c)))"

definition jenkins_hashbig :: "bool \<Rightarrow> bool \<Rightarrow> memory \<Rightarrow> nat \<Rightarrow> nat \<Rightarrow> u32 \<Rightarrow> u32" where
  "jenkins_hashbig be vg mem key n initval =
     (let x = 0xdeadbeef + of_nat n + initval in
      case (if be \<and> key mod 4 = 0 then
              hash_branch (block_words be mem)
                (if vg then tail_words_big_k8 be mem else tail_words_big be mem) key n (x, x, x)
            else hash_branch (block_bytes_big mem) (tail_bytes_big mem) key n (x, x, x))
      of (a, b, c) \<Rightarrow> c)"

section \<open>Specification\<close>

text \<open>
  The key as a byte string, in blocks of 12; a short last block counts as padded with zeros.
  \<open>w\<close> gives the value of up to four bytes.
\<close>

definition add_block :: "(bytes \<Rightarrow> u32) \<Rightarrow> bytes \<Rightarrow> abc \<Rightarrow> abc" where
  "add_block w bs = (\<lambda>(a, b, c).
     (a + w (take 4 bs), b + w (take 4 (drop 4 bs)), c + w (take 4 (drop 8 bs))))"

function lookup3_bytes :: "(bytes \<Rightarrow> u32) \<Rightarrow> bytes \<Rightarrow> abc \<Rightarrow> abc" where
  "lookup3_bytes w bs s =
     (if bs = [] then s
      else if length bs \<le> 12 then final (add_block w bs s)
      else lookup3_bytes w (drop 12 bs) (mix (add_block w (take 12 bs) s)))"
  by pat_completeness auto

termination by (relation "measure (\<lambda>(w, bs, s). length bs)") auto

declare lookup3_bytes.simps [simp del]

text \<open>Big-endian value of up to four bytes, the missing ones being low zeros.\<close>

definition be_value :: "bytes \<Rightarrow> u32" where
  "be_value bs = le_word (rev (bs @ replicate (4 - length bs) 0))"


section \<open>Values of a few bytes\<close>

lemma le_word_Cons_plus:
  "le_word (b # bs) = (ucast b + push_bit 8 (le_word bs) :: u32)"
proof -
  have "(ucast b :: u32) AND push_bit 8 (le_word bs) = 0"
    by (rule bit_word_eqI) (auto simp: bit_and_iff bit_push_bit_iff bit_unsigned_iff dest: bit_imp_le_length)
  then show ?thesis by (simp add: disjunctive_add_eq_or)
qed

lemma le_word_take: "(le_word (take k bs) :: u32) = le_word bs AND mask (8 * k)"
  by (rule bit_word_eqI) (auto simp: bit_and_iff bit_mask_iff bit_le_word)

lemma le_word_drop:
  "k \<le> length bs \<Longrightarrow> (le_word (replicate k 0 @ drop k bs) :: u32) = le_word bs AND NOT (mask (8 * k))"
  by (rule bit_word_eqI) (auto simp: bit_and_iff bit_not_iff bit_mask_iff bit_le_word nth_append)

lemma length_bytes_at [simp]: "length (bytes_at mem p n) = n"
  by (simp add: bytes_at_def)

lemma nth_bytes_at: "i < n \<Longrightarrow> bytes_at mem p n ! i = mem (p + i)"
  by (simp add: bytes_at_def)

lemma take_bytes_at [simp]: "take k (bytes_at mem p n) = bytes_at mem p (min k n)"
  by (rule nth_equalityI) (simp_all add: nth_bytes_at)

lemma drop_bytes_at [simp]: "drop k (bytes_at mem p n) = bytes_at mem (p + k) (n - k)"
  by (rule nth_equalityI) (simp_all add: nth_bytes_at add.assoc)

lemma bytes_at_Suc: "bytes_at mem p (Suc n) = mem p # bytes_at mem (Suc p) n"
  by (simp add: bytes_at_def upt_conv_Cons map_Suc_upt [symmetric] del: upt_Suc)

lemma bytes_at_0 [simp]: "bytes_at mem p 0 = []"
  by (simp add: bytes_at_def)

lemma bytes_at_eq_Nil [simp]: "bytes_at mem p n = [] \<longleftrightarrow> n = 0"
  by (simp add: bytes_at_def)

lemma bytes_at_few:
  "bytes_at mem p 1 = [mem p]"
  "bytes_at mem p 2 = [mem p, mem (p + 1)]"
  "bytes_at mem p 3 = [mem p, mem (p + 1), mem (p + 2)]"
  "bytes_at mem p 4 = [mem p, mem (p + 1), mem (p + 2), mem (p + 3)]"
  by (simp_all add: numeral_eq_Suc bytes_at_Suc)

lemmas le_word_sum = le_word_Cons_plus push_bit_add push_bit_push_bit

lemma le_value_few:
  "le_word (bytes_at mem p 1) = k8 mem p 0"
  "le_word (bytes_at mem p 2) = k8 mem p 0 + push_bit 8 (k8 mem p 1)"
  "le_word (bytes_at mem p 3) = k8 mem p 0 + push_bit 8 (k8 mem p 1) + push_bit 16 (k8 mem p 2)"
  "le_word (bytes_at mem p 4) =
     k8 mem p 0 + push_bit 8 (k8 mem p 1) + push_bit 16 (k8 mem p 2) + push_bit 24 (k8 mem p 3)"
  by (simp_all add: bytes_at_few bytes_at_Suc le_word_sum k8_def add.assoc del: le_word.simps(2))

lemma be_value_few:
  "be_value (bytes_at mem p 1) = push_bit 24 (k8 mem p 0)"
  "be_value (bytes_at mem p 2) = push_bit 24 (k8 mem p 0) + push_bit 16 (k8 mem p 1)"
  "be_value (bytes_at mem p 3) = push_bit 24 (k8 mem p 0) + push_bit 16 (k8 mem p 1) + push_bit 8 (k8 mem p 2)"
  "be_value (bytes_at mem p 4) =
     push_bit 24 (k8 mem p 0) + push_bit 16 (k8 mem p 1) + push_bit 8 (k8 mem p 2) + k8 mem p 3"
  by (simp_all add: bytes_at_few bytes_at_Suc be_value_def le_word_sum k8_def ac_simps numeral_2_eq_2
    numeral_3_eq_3 del: le_word.simps(2))

lemma value_nil [simp]: "be_value [] = 0"
  by (simp add: be_value_def)

lemma k16_le: "k16 False mem p i = le_word (bytes_at mem (p + 2 * i) 2)"
proof -
  have "ucast (le_word bs :: u16) = (le_word bs :: u32)" if "length bs = 2" for bs
    using that by (intro bit_word_eqI) (auto simp: bit_unsigned_iff bit_le_word)
  then show ?thesis by (simp add: k16_def load_native_def)
qed

lemma k32_le: "k32 False mem p i = le_word (bytes_at mem (p + 4 * i) 4)"
  by (simp add: k32_def load_native_def)

lemma k32_be: "k32 True mem p i = be_value (bytes_at mem (p + 4 * i) 4)"
  by (simp add: k32_def load_native_def be_value_def)

lemma le_value_masks:
  "le_word (bytes_at mem p 4) AND (0xff :: u32) = le_word (bytes_at mem p 1)"
  "le_word (bytes_at mem p 4) AND (0xffff :: u32) = le_word (bytes_at mem p 2)"
  "le_word (bytes_at mem p 4) AND (0xffffff :: u32) = le_word (bytes_at mem p 3)"
  using le_word_take [of 1 "bytes_at mem p 4"] le_word_take [of 2 "bytes_at mem p 4"]
    le_word_take [of 3 "bytes_at mem p 4"]
  by (simp_all add: mask_eq_exp_minus_1)

lemma be_value_masked:
  assumes "n \<le> 4"
  shows "be_value (bytes_at mem p (4 - n)) = be_value (bytes_at mem p 4) AND NOT (mask (8 * n))"
proof -
  have "rev (bytes_at mem p (4 - n) @ replicate n 0) = replicate n 0 @ drop n (rev (bytes_at mem p 4))"
    by (simp add: drop_rev)
  then show ?thesis
    using le_word_drop [of n "rev (bytes_at mem p 4)"] assms by (simp add: be_value_def)
qed

lemma be_value_masks:
  "be_value (bytes_at mem p 4) AND 0xff000000 = be_value (bytes_at mem p 1)"
  "be_value (bytes_at mem p 4) AND 0xffff0000 = be_value (bytes_at mem p 2)"
  "be_value (bytes_at mem p 4) AND 0xffffff00 = be_value (bytes_at mem p 3)"
proof -
  have m: "(0xff000000 :: u32) = NOT (mask (8 * 3))" "(0xffff0000 :: u32) = NOT (mask (8 * 2))"
    "(0xffffff00 :: u32) = NOT (mask (8 * 1))"
    by (simp_all add: mask_eq_exp_minus_1)
  note b = be_value_masked [of _ mem p, symmetric]
  show "be_value (bytes_at mem p 4) AND 0xff000000 = be_value (bytes_at mem p 1)"
    unfolding m using b [of 3] by simp
  show "be_value (bytes_at mem p 4) AND 0xffff0000 = be_value (bytes_at mem p 2)"
    unfolding m using b [of 2] by simp
  show "be_value (bytes_at mem p 4) AND 0xffffff00 = be_value (bytes_at mem p 3)"
    unfolding m using b [of 1] by simp
qed

section \<open>Every branch computes the specification\<close>

text \<open>A branch reads blocks and tails of the key as the specification does, with byte value \<open>w\<close>.\<close>

locale key_reader =
  fixes mem :: memory
    and w :: "bytes \<Rightarrow> u32"
    and blk :: "nat \<Rightarrow> abc \<Rightarrow> abc"
    and tail :: "nat \<Rightarrow> nat \<Rightarrow> abc \<Rightarrow> abc"
  assumes blk_adds: "\<And>p s. blk p s = add_block w (bytes_at mem p 12) s"
    and tail_adds: "\<And>p n s. 0 < n \<Longrightarrow> n \<le> 12 \<Longrightarrow> tail p n s = add_block w (bytes_at mem p n) s"
begin

lemma hash_branch_correct: "hash_branch blk tail p n s = lookup3_bytes w (bytes_at mem p n) s"
proof (induction n arbitrary: p s rule: less_induct)
  case (less n)
  consider (zero) "n = 0" | (last) "0 < n" "n \<le> 12" | (more) "12 < n" by linarith
  then show ?case
  proof cases
    case zero
    then show ?thesis
      by (simp add: hash_branch_def hash_blocks.simps [of blk] lookup3_bytes.simps [of w "[]"])
  next
    case last
    then show ?thesis
      by (simp add: hash_branch_def hash_blocks.simps [of blk p n]
        lookup3_bytes.simps [of w "bytes_at mem p n"] tail_adds)
  next
    case more
    have "hash_branch blk tail p n s = hash_branch blk tail (p + 12) (n - 12) (mix (blk p s))"
      using more by (simp add: hash_branch_def hash_blocks.simps [of blk p n])
    also have "\<dots> = lookup3_bytes w (bytes_at mem (p + 12) (n - 12)) (mix (blk p s))"
      by (rule less.IH) (use more in simp)
    also have "\<dots> = lookup3_bytes w (bytes_at mem p n) s"
    proof -
      have "bytes_at mem p n \<noteq> []" using more by (metis length_bytes_at length_0_conv not_less0)
      then show ?thesis
        using more by (subst (2) lookup3_bytes.simps) (simp add: blk_adds min_def)
    qed
    finally show ?thesis .
  qed
qed

end

lemma upto_12: "0 < n \<Longrightarrow> n \<le> (12::nat) \<Longrightarrow> n \<in> {1, 2, 3, 4, 5, 6, 7, 8, 9, 10, 11, 12}"
  by (simp add: numeral_eq_Suc le_Suc_eq)

lemma k8_shift: "k8 mem (p + i) j = k8 mem p (i + j)"
  by (simp add: k8_def add.assoc)

lemmas le_few = le_value_few [unfolded One_nat_def]
lemmas le_masks = le_value_masks [unfolded One_nat_def]
lemmas be_few = be_value_few [unfolded One_nat_def]
lemmas be_masks = be_value_masks [unfolded One_nat_def]

interpretation le_words: key_reader mem le_word "block_words False mem" "tail_words False mem" for mem
proof
  show "block_words False mem p s = add_block le_word (bytes_at mem p 12) s" for p s
    by (cases s) (simp add: block_words_def add_block_def k32_le le_masks del: add_2_eq_Suc')
  show "tail_words False mem p n s = add_block le_word (bytes_at mem p n) s" if "0 < n" "n \<le> 12" for p n s
    using upto_12 [OF that]
    by (cases s, elim insertE emptyE; simp only:)
      (simp_all add: tail_words_def add_block_def k32_le le_masks Let_def del: add_2_eq_Suc')
qed

interpretation le_words_k8: key_reader mem le_word "block_words False mem" "tail_words_k8 False mem" for mem
proof
  show "block_words False mem p s = add_block le_word (bytes_at mem p 12) s" for p s
    by (cases s) (simp add: block_words_def add_block_def k32_le le_masks del: add_2_eq_Suc')
  show "tail_words_k8 False mem p n s = add_block le_word (bytes_at mem p n) s" if "0 < n" "n \<le> 12" for p n s
    using upto_12 [OF that]
    by (cases s, elim insertE emptyE; simp only:)
      (simp_all add: tail_words_k8_def add_block_def k32_le le_few(1-3) k8_shift ac_simps Let_def del: add_2_eq_Suc')
qed

interpretation le_halves: key_reader mem le_word "block_halves False mem" "tail_halves False mem" for mem
proof
  show "block_halves False mem p s = add_block le_word (bytes_at mem p 12) s" for p s
    by (cases s) (simp add: block_halves_def add_block_def k16_le le_few k8_shift ac_simps push_bit_add push_bit_push_bit del: add_2_eq_Suc')
  show "tail_halves False mem p n s = add_block le_word (bytes_at mem p n) s" if "0 < n" "n \<le> 12" for p n s
    using upto_12 [OF that]
    by (cases s, elim insertE emptyE; simp only:)
      (simp_all add: tail_halves_def add_block_def k16_le le_few k8_shift ac_simps push_bit_add push_bit_push_bit Let_def del: add_2_eq_Suc')
qed

interpretation le_bytes: key_reader mem le_word "block_bytes mem" "tail_bytes mem" for mem
proof
  show "block_bytes mem p s = add_block le_word (bytes_at mem p 12) s" for p s
    by (cases s) (simp add: block_bytes_def add_block_def le_few k8_shift ac_simps del: add_2_eq_Suc')
  show "tail_bytes mem p n s = add_block le_word (bytes_at mem p n) s" if "0 < n" "n \<le> 12" for p n s
    using upto_12 [OF that]
    by (cases s, elim insertE emptyE; simp only:)
      (simp_all add: tail_bytes_def add_block_def le_few k8_shift ac_simps Let_def del: add_2_eq_Suc')
qed

interpretation be_words: key_reader mem be_value "block_words True mem" "tail_words_big True mem" for mem
proof
  show "block_words True mem p s = add_block be_value (bytes_at mem p 12) s" for p s
    by (cases s) (simp add: block_words_def add_block_def k32_be be_masks del: add_2_eq_Suc')
  show "tail_words_big True mem p n s = add_block be_value (bytes_at mem p n) s" if "0 < n" "n \<le> 12" for p n s
    using upto_12 [OF that]
    by (cases s, elim insertE emptyE; simp only:)
      (simp_all add: tail_words_big_def add_block_def k32_be be_masks Let_def del: add_2_eq_Suc')
qed

interpretation be_words_k8: key_reader mem be_value "block_words True mem" "tail_words_big_k8 True mem" for mem
proof
  show "block_words True mem p s = add_block be_value (bytes_at mem p 12) s" for p s
    by (cases s) (simp add: block_words_def add_block_def k32_be be_masks del: add_2_eq_Suc')
  show "tail_words_big_k8 True mem p n s = add_block be_value (bytes_at mem p n) s" if "0 < n" "n \<le> 12" for p n s
    using upto_12 [OF that]
    by (cases s, elim insertE emptyE; simp only:)
      (simp_all add: tail_words_big_k8_def add_block_def k32_be be_few(1-3) k8_shift ac_simps Let_def del: add_2_eq_Suc')
qed

interpretation be_bytes: key_reader mem be_value "block_bytes_big mem" "tail_bytes_big mem" for mem
proof
  show "block_bytes_big mem p s = add_block be_value (bytes_at mem p 12) s" for p s
    by (cases s) (simp add: block_bytes_big_def add_block_def be_few k8_shift ac_simps del: add_2_eq_Suc')
  show "tail_bytes_big mem p n s = add_block be_value (bytes_at mem p n) s" if "0 < n" "n \<le> 12" for p n s
    using upto_12 [OF that]
    by (cases s, elim insertE emptyE; simp only:)
      (simp_all add: tail_bytes_big_def add_block_def be_few k8_shift ac_simps Let_def del: add_2_eq_Suc')
qed

lemma hashlittle_body_correct:
  "hashlittle_body be vg mem key n s = lookup3_bytes le_word (bytes_at mem key n) s"
  by (simp add: hashlittle_body_def le_words.hash_branch_correct le_words_k8.hash_branch_correct
    le_halves.hash_branch_correct le_bytes.hash_branch_correct)

lemma hashbig_branches:
  "jenkins_hashbig be vg mem key n initval =
     (let x = 0xdeadbeef + of_nat n + initval in
      case lookup3_bytes be_value (bytes_at mem key n) (x, x, x) of (a, b, c) \<Rightarrow> c)"
  by (simp add: jenkins_hashbig_def Let_def be_words.hash_branch_correct be_words_k8.hash_branch_correct
    be_bytes.hash_branch_correct)

section \<open>Keys of words against keys of bytes\<close>

lemma map_k32_shift: "map (k32 be mem (p + 12)) [0..<n] = map (k32 be mem p) [3..<n + 3]"
  by (rule nth_equalityI) (simp_all add: k32_def algebra_simps)

lemma hashword_bytes:
  assumes w: "\<And>q. k32 be mem q 0 = w (bytes_at mem q 4)" and nil: "w [] = 0"
  shows "(case hashword_loop (map (k32 be mem p) [0..<n]) s of (ks, s') \<Rightarrow> hashword_tail ks s') =
    lookup3_bytes w (bytes_at mem p (4 * n)) s"
proof (induction n arbitrary: p s rule: less_induct)
  case (less n)
  have k: "k32 be mem p i = w (bytes_at mem (p + 4 * i) 4)" for i
    using w [of "p + 4 * i"] by (simp add: k32_def)
  obtain a b c where s: "s = (a, b, c)" by (cases s)
  consider "n = 0" | "n = 1" | "n = 2" | "n = 3" | (more) "3 < n" by linarith
  then show ?case
  proof cases
    case more
    have up: "[0..<n] = 0 # 1 # 2 # [3..<n]"
      using more by (simp add: upt_conv_Cons numeral_2_eq_2 numeral_3_eq_3)
    have "[3..<n] = 3 # [4..<n]" using more by (simp add: upt_conv_Cons)
    then have loop: "hashword_loop (map (k32 be mem p) [0..<n]) s =
        hashword_loop (map (k32 be mem p) [3..<n]) (mix (add_block w (bytes_at mem p 12) s))"
      unfolding up s by (simp add: k add_block_def)
    have shift: "map (k32 be mem p) [3..<n] = map (k32 be mem (p + 12)) [0..<n - 3]"
      using more by (simp add: map_k32_shift)
    have "lookup3_bytes w (bytes_at mem p (4 * n)) s =
        lookup3_bytes w (bytes_at mem (p + 12) (4 * (n - 3))) (mix (add_block w (bytes_at mem p 12) s))"
      using more by (subst lookup3_bytes.simps) (simp add: min_def diff_mult_distrib2)
    then show ?thesis
      using less.IH [of "n - 3" "p + 12"] more unfolding loop shift by simp
  qed (simp_all add: lookup3_bytes.simps [of w] s k add_block_def nil bytes_at_Suc upt_rec
      numeral_2_eq_2 numeral_3_eq_3)
qed

section \<open>Properties\<close>

text \<open>C23: \<open>hashlittle2\<close> gives the two hashes of the key's bytes and of nothing else: on hosts of either
  byte order, in the build for memory checkers and the other, in each of the three branches for
  the key's alignment, although the aligned ones read past the key's end.\<close>

theorem hashlittle2_correct:
  "jenkins_hashlittle2 be vg mem key n pc pb =
     (case lookup3_bytes le_word (bytes_at mem key n)
        (0xdeadbeef + of_nat n + pc, 0xdeadbeef + of_nat n + pc, 0xdeadbeef + of_nat n + pc + pb)
      of (a, b, c) \<Rightarrow> (c, b))"
  by (simp add: jenkins_hashlittle2_def hashlittle_body_correct Let_def)

text \<open>\<open>hashbig\<close> gives the hash of the key's bytes taken big-endian, on hosts of either byte order,
  in both builds and for every alignment.\<close>

lemma hashbig_correct:
  "jenkins_hashbig be vg mem key n initval =
     (case lookup3_bytes be_value (bytes_at mem key n)
        (0xdeadbeef + of_nat n + initval, 0xdeadbeef + of_nat n + initval, 0xdeadbeef + of_nat n + initval)
      of (a, b, c) \<Rightarrow> c)"
  by (simp add: hashbig_branches Let_def)

text \<open>The four hashes agree where their comments say so: the first hash of \<open>hashlittle2\<close> and of
  \<open>hashword2\<close> with a zero second seed is \<open>hashlittle\<close> and \<open>hashword\<close>, and \<open>hashword\<close> of the words
  at an address is \<open>hashlittle\<close> of their bytes on a little-endian host and \<open>hashbig\<close> on a
  big-endian one.\<close>

lemma lookup3_variants_agree:
  "fst (jenkins_hashlittle2 be vg mem key n initval 0) = jenkins_hashlittle be vg mem key n initval \<and>
   fst (jenkins_hashword2 ks initval 0) = jenkins_hashword ks initval \<and>
   jenkins_hashword (map (k32 False mem key) [0..<m]) initval =
     jenkins_hashlittle False vg mem key (4 * m) initval \<and>
   jenkins_hashword (map (k32 True mem key) [0..<m]) initval =
     jenkins_hashbig True vg mem key (4 * m) initval"
proof (intro conjI)
  have len: "push_bit 2 (of_nat m) = (of_nat (4 * m) :: u32)" for m
    by (simp add: push_bit_eq_mult mult.commute)
  show "fst (jenkins_hashlittle2 be vg mem key n initval 0) = jenkins_hashlittle be vg mem key n initval"
    by (simp add: jenkins_hashlittle2_def jenkins_hashlittle_def Let_def split: prod.split)
  show "fst (jenkins_hashword2 ks initval 0) = jenkins_hashword ks initval"
    using len [of "length ks"]
    by (simp add: jenkins_hashword2_def jenkins_hashword_def Let_def mult.commute split: prod.split)
  have split: "(case r of (ks, s) \<Rightarrow> case hashword_tail ks s of (a, b, c) \<Rightarrow> c) =
      (case (case r of (ks, s) \<Rightarrow> hashword_tail ks s) of (a, b, c) \<Rightarrow> c)" for r
    by (simp split: prod.split)
  show "jenkins_hashword (map (k32 False mem key) [0..<m]) initval =
      jenkins_hashlittle False vg mem key (4 * m) initval"
    unfolding jenkins_hashword_def jenkins_hashlittle_def Let_def split
    using len [of m] hashword_bytes [of False mem le_word key m]
    by (simp add: hashlittle_body_correct k32_le)
  show "jenkins_hashword (map (k32 True mem key) [0..<m]) initval =
      jenkins_hashbig True vg mem key (4 * m) initval"
    unfolding jenkins_hashword_def hashbig_branches Let_def split
    using len [of m] hashword_bytes [of True mem be_value key m]
    by (simp add: k32_be)
qed

text \<open>\<open>mix\<close> is six steps of one shape, with the roles of the three words rotated after each.\<close>

definition mix_step :: "nat \<Rightarrow> abc \<Rightarrow> abc" where
  "mix_step k = (\<lambda>(x, y, z). (y, z + y, (x - z) XOR rot z k))"

definition unmix_step :: "nat \<Rightarrow> abc \<Rightarrow> abc" where
  "unmix_step k = (\<lambda>(y, z', x'). ((x' XOR rot (z' - y) k) + (z' - y), y, z' - y))"

lemma bij_mix_step: "bij (mix_step k)"
  by (rule o_bij [of "unmix_step k"])
    (auto simp: mix_step_def unmix_step_def fun_eq_iff xor.assoc)

lemma mix_steps:
  "mix = mix_step 4 \<circ> mix_step 19 \<circ> mix_step 16 \<circ> mix_step 8 \<circ> mix_step 6 \<circ> mix_step 4"
  by (rule ext) (simp add: mix_def mix_step_def Let_def split: prod.split)

text \<open>\<open>mix\<close> is reversible, as its comment says: it is a permutation of the states.\<close>

theorem mix_reversible: "bij mix"
  unfolding mix_steps by (intro bij_comp bij_mix_step)

text \<open>\<open>final\<close> in the same way.\<close>

definition final_step :: "nat \<Rightarrow> abc \<Rightarrow> abc" where
  "final_step k = (\<lambda>(x, y, z). (y, z, (x XOR z) - rot z k))"

lemma final_steps:
  "final (a, b, c) = final_step 24 (final_step 14 (final_step 4 (final_step 16 (final_step 25
     (final_step 11 (final_step 14 (c, a, b)))))))"
  by (simp add: final_def final_step_def Let_def)

end
