(* ===== verification/Humane.thy ===== *)
theory Humane
  imports Jio_Prelude
begin

text \<open>
  \<^verbatim>\<open>humane.c\<close>: a byte count as a short string with a unit, and the decimal output the reports
  share.  The \<open>double\<close> is exact: the conversion from \<open>uint64_t\<close> rounds to 53 significant bits
  (to even), dividing by 1024 only lowers the exponent, and \<open>%.2f\<close> rounds the exact value to
  hundredths (to even).  So \<open>z\<close> is \<open>m / 1024 ^ order\<close> for the rounded count \<open>m\<close>.
\<close>

section \<open>Decimal output\<close>

definition digit :: "nat \<Rightarrow> char" where "digit d = char_of (48 + d)"

text \<open>\<open>%u\<close> and \<open>%PRIu64\<close>.\<close>

fun dec :: "nat \<Rightarrow> string" where
  "dec n = (if n < 10 then [digit n] else dec (n div 10) @ [digit (n mod 10)])"

declare dec.simps [simp del]

text \<open>\<open>snprintf\<close> into a buffer of \<open>n\<close> bytes: at most \<open>n - 1\<close> characters.\<close>

definition snprintf :: "nat \<Rightarrow> string \<Rightarrow> string" where
  "snprintf n s = take (n - 1) s"

lemma length_dec_le: "n < 10 ^ Suc k \<Longrightarrow> length (dec n) \<le> Suc k"
proof (induction k arbitrary: n)
  case 0
  then show ?case by (subst dec.simps) simp
next
  case (Suc k)
  show ?case
  proof (cases "n < 10")
    case True
    then show ?thesis by (subst dec.simps) simp
  next
    case False
    have "n div 10 < 10 ^ Suc k" using Suc.prems by (simp add: less_mult_imp_div_less)
    from Suc.IH [OF this] False show ?thesis by (subst dec.simps) simp
  qed
qed

section \<open>Rounding\<close>

text \<open>\<open>x / d\<close> rounded to the nearest integer, a tie to the even one.\<close>

definition round_even :: "nat \<Rightarrow> nat \<Rightarrow> nat" where
  "round_even x d =
     (let q = x div d; r = x mod d in
      if 2 * r < d then q else if d < 2 * r then q + 1 else if even q then q else q + 1)"

fun bit_length :: "nat \<Rightarrow> nat" where
  "bit_length n = (if n = 0 then 0 else Suc (bit_length (n div 2)))"

declare bit_length.simps [simp del]

text \<open>The conversion of an integer to \<open>double\<close>.\<close>

definition to_double :: "nat \<Rightarrow> nat" where
  "to_double n = (let e = bit_length n - 53 in round_even n (2 ^ e) * 2 ^ e)"

section \<open>humane\_bytes\<close>

definition humane_units :: "string list" where
  "humane_units = [''B'', ''KiB'', ''MiB'', ''GiB'', ''TiB'', ''PiB'', ''EiB'']"

text \<open>\<open>sizeof(humane->buf)\<close>.\<close>

definition humane_buf_size :: nat where "humane_buf_size = 12"

lemma less_power_1024: "n < 1024 ^ n"
  by (rule less_le_trans [OF less_exp]) (simp add: power_mono)

text \<open>\<open>while (z >= 1024)\<close>, with \<open>z = m / 1024 ^ order\<close>.\<close>

function humane_order :: "nat \<Rightarrow> nat \<Rightarrow> nat" where
  "humane_order m order = (if 1024 * 1024 ^ order \<le> m then humane_order m (order + 1) else order)"
  by pat_completeness auto

termination
proof (relation "measure (\<lambda>(m, order). m - order)")
  fix m order :: nat
  assume "1024 * 1024 ^ order \<le> m"
  then have "order < m" using less_power_1024 [of "Suc order"] by simp
  then show "((m, order + 1), m, order) \<in> measure (\<lambda>(m, order). m - order)" by simp
qed simp

declare humane_order.simps [simp del]

definition two_digits :: "nat \<Rightarrow> string" where
  "two_digits n = [digit (n div 10), digit (n mod 10)]"

definition humane_text :: "nat \<Rightarrow> nat \<Rightarrow> string \<Rightarrow> string" where
  "humane_text m order unit =
     (let h = round_even (100 * m) (1024 ^ order) in
      dec (h div 100) @ ''.'' @ two_digits (h mod 100) @ '' '' @ unit)"

definition humane_bytes :: "u64 \<Rightarrow> string res" where
  "humane_bytes bytes =
     (let m = to_double (unat bytes); order = humane_order m 0 in
      res_map (\<lambda>unit. snprintf humane_buf_size (humane_text m order unit))
        (arr_get humane_units order))"

section \<open>What is printed\<close>

lemma bit_length_bound: "n < 2 ^ bit_length n"
proof (induction n rule: bit_length.induct)
  case (1 n)
  show ?case
  proof (cases "n = 0")
    case True
    then show ?thesis by simp
  next
    case False
    then have "n div 2 < 2 ^ bit_length (n div 2)" using 1 by simp
    then have "n < 2 ^ Suc (bit_length (n div 2))" by simp
    then show ?thesis using False by (subst bit_length.simps) simp
  qed
qed

lemma bit_length_le: "n < 2 ^ k \<Longrightarrow> bit_length n \<le> k"
proof (induction k arbitrary: n)
  case 0
  then show ?case by (simp add: bit_length.simps)
next
  case (Suc k)
  then have "n div 2 < 2 ^ k" by simp
  from Suc.IH [OF this] show ?case by (subst bit_length.simps) simp
qed

lemma nearest_bounds:
  fixes a b r d :: nat
  shows "a = b \<and> 2 * r \<le> d \<or> a = b + d \<and> d \<le> 2 * r \<Longrightarrow> r < d \<Longrightarrow>
    2 * (b + r) \<le> 2 * a + d \<and> 2 * a \<le> 2 * (b + r) + d"
  by auto

lemma round_even_bounds:
  assumes "0 < d"
  shows "2 * x \<le> 2 * (round_even x d * d) + d" and "2 * (round_even x d * d) \<le> 2 * x + d"
proof -
  have x: "x = x div d * d + x mod d" and r: "x mod d < d" using assms by simp_all
  have cases: "round_even x d * d = x div d * d \<and> 2 * (x mod d) \<le> d \<or>
      round_even x d * d = x div d * d + d \<and> d \<le> 2 * (x mod d)"
    by (simp add: round_even_def Let_def)
  then have "2 * (x div d * d + x mod d) \<le> 2 * (round_even x d * d) + d \<and>
      2 * (round_even x d * d) \<le> 2 * (x div d * d + x mod d) + d"
    using r by (rule nearest_bounds)
  then show "2 * x \<le> 2 * (round_even x d * d) + d" and "2 * (round_even x d * d) \<le> 2 * x + d"
    unfolding x [symmetric] by blast+
qed

lemma round_even_le: "0 < d \<Longrightarrow> x \<le> k * d \<Longrightarrow> round_even x d \<le> k"
proof -
  assume d: "0 < d" and x: "x \<le> k * d"
  have "2 * (round_even x d * d) \<le> 2 * (k * d) + d"
    using round_even_bounds(2) [OF d, of x] x by linarith
  also have "\<dots> < 2 * (Suc k * d)" using d by simp
  finally have "round_even x d * d < Suc k * d" by simp
  then show ?thesis by (simp only: mult_less_cancel2) simp
qed

lemma to_double_small: "n < 2 ^ 53 \<Longrightarrow> to_double n = n"
  using bit_length_le [of n 53] by (simp add: to_double_def Let_def round_even_def)

lemma to_double_u64: "n < 2 ^ 64 \<Longrightarrow> to_double n \<le> 2 ^ 64"
proof -
  assume n: "n < 2 ^ 64"
  let ?e = "bit_length n - 53"
  have e: "?e \<le> 11" using bit_length_le [OF n] by simp
  then have "2 ^ 64 = (2 ^ (64 - ?e) * 2 ^ ?e :: nat)" by (simp add: power_add [symmetric])
  then have "round_even n (2 ^ ?e) \<le> 2 ^ (64 - ?e)"
    using n by (intro round_even_le) auto
  then have "round_even n (2 ^ ?e) * 2 ^ ?e \<le> 2 ^ (64 - ?e) * 2 ^ ?e" by simp
  then show ?thesis
    using e by (simp add: to_double_def Let_def power_add [symmetric])
qed

lemma humane_order_spec:
  "order \<le> humane_order m order \<and> m < 1024 * 1024 ^ humane_order m order \<and>
   (humane_order m order = order \<or> 1024 ^ humane_order m order \<le> m)"
proof (induction m order rule: humane_order.induct)
  case (1 m order)
  show ?case
  proof (cases "1024 * 1024 ^ order \<le> m")
    case True
    then have "humane_order m order = humane_order m (order + 1)" by (subst humane_order.simps) simp
    then show ?thesis using 1 [OF True] True by auto
  next
    case False
    then have "humane_order m order = order" by (subst humane_order.simps) simp
    then show ?thesis using False by simp
  qed
qed

lemma humane_order_le_6: "m \<le> 2 ^ 64 \<Longrightarrow> humane_order m 0 \<le> 6"
proof (rule ccontr)
  assume m: "m \<le> 2 ^ 64" and "\<not> humane_order m 0 \<le> 6"
  then have "7 \<le> humane_order m 0" by simp
  then have "(1024 :: nat) ^ 7 \<le> 1024 ^ humane_order m 0" by (rule power_increasing) simp
  then have "(1024 :: nat) ^ 7 \<le> m" using humane_order_spec [of 0 m] \<open>7 \<le> humane_order m 0\<close> by auto
  with m show False by simp
qed


section \<open>Properties\<close>

text \<open>C32: Every count is printed within the buffer and without truncation, with a unit the table has:
  the unit is the largest the value reaches (1024 of the one below), and the two decimals are the
  value in that unit rounded to the nearest hundredth.\<close>

theorem humane_bytes_prints_rounded:
  "\<exists>order h. humane_bytes bytes =
       Ok (dec (h div 100) @ ''.'' @ two_digits (h mod 100) @ '' '' @ humane_units ! order) \<and>
     order < length humane_units \<and>
     length (dec (h div 100) @ ''.'' @ two_digits (h mod 100) @ '' '' @ humane_units ! order)
       < humane_buf_size \<and>
     to_double (unat bytes) < 1024 ^ (order + 1) \<and> (order = 0 \<or> 1024 ^ order \<le> to_double (unat bytes)) \<and>
     2 * (100 * to_double (unat bytes)) \<le> 2 * (h * 1024 ^ order) + 1024 ^ order \<and>
     2 * (h * 1024 ^ order) \<le> 2 * (100 * to_double (unat bytes)) + 1024 ^ order"
proof -
  let ?m = "to_double (unat bytes)"
  let ?k = "humane_order ?m 0"
  let ?h = "round_even (100 * ?m) (1024 ^ ?k)"
  have m: "?m \<le> 2 ^ 64" by (rule to_double_u64 [OF unat_u64_less])
  have k: "?k \<le> 6" by (rule humane_order_le_6 [OF m])
  have spec: "?m < 1024 * 1024 ^ ?k" "?k = 0 \<or> 1024 ^ ?k \<le> ?m" using humane_order_spec [of 0 ?m] by auto
  have "?h \<le> 102400" by (rule round_even_le) (use spec(1) in simp_all)
  then have "?h div 100 < 10 ^ Suc 3" by simp
  then have digits: "length (dec (?h div 100)) \<le> 4" using length_dec_le by fastforce
  have "?k = 0 \<or> ?k = 1 \<or> ?k = 2 \<or> ?k = 3 \<or> ?k = 4 \<or> ?k = 5 \<or> ?k = 6" using k by arith
  then have unit: "length (humane_units ! ?k) \<le> 3" by (elim disjE) (simp_all add: humane_units_def)
  let ?text = "dec (?h div 100) @ ''.'' @ two_digits (?h mod 100) @ '' '' @ humane_units ! ?k"
  have fits: "length ?text < humane_buf_size"
    using digits unit by (simp add: two_digits_def humane_buf_size_def)
  have len: "?k < length humane_units" using k by (simp add: humane_units_def)
  have "humane_bytes bytes = Ok ?text"
    using len fits by (simp add: humane_bytes_def Let_def humane_text_def snprintf_def)
  then show ?thesis
    using len fits spec round_even_bounds [of "1024 ^ ?k" "100 * ?m"]
    by (intro exI [of _ ?k] exI [of _ ?h]) simp
qed

text \<open>Rounding happens after the unit is chosen, so a count just below a unit is printed as 1024 of
  the smaller one, which the buffer, sized for 1023.99, just holds.\<close>

theorem humane_bytes_prints_1024: "humane_bytes 1048575 = Ok ''1024.00 KiB''"
proof -
  have m: "to_double (unat (1048575 :: u64)) = 1048575" by (simp add: to_double_small)
  have k: "humane_order 1048575 0 = 1" by (simp add: humane_order.simps)
  have h: "round_even (100 * 1048575) (1024 ^ 1) = 102400" by (simp add: round_even_def)
  have "dec 1024 = ''1024''" by (simp add: dec.simps digit_def char_of_def bit_iff_odd)
  moreover have "two_digits 0 = ''00''" by (simp add: two_digits_def digit_def char_of_def bit_iff_odd)
  ultimately show ?thesis
    unfolding humane_bytes_def m Let_def k humane_text_def h
    by (simp add: humane_units_def snprintf_def humane_buf_size_def)
qed

text \<open>\<open>humane_bytes\<close> never fails.\<close>

definition humane_str :: "u64 \<Rightarrow> string" where
  "humane_str n = snprintf humane_buf_size (humane_text (to_double (unat n)) (humane_order (to_double (unat n)) 0)
     (humane_units ! humane_order (to_double (unat n)) 0))"

lemma humane_bytes_str: "humane_bytes n = Ok (humane_str n)"
proof -
  have "humane_order (to_double (unat n)) 0 \<le> 6" by (rule humane_order_le_6 [OF to_double_u64 [OF unat_u64_less]])
  then show ?thesis by (simp add: humane_bytes_def humane_str_def Let_def humane_units_def)
qed

section \<open>The examples of the source\<close>

text \<open>The program behind \<open>#if 0\<close>: the numbers it prints, and its lines.\<close>

definition humane_nums :: "u64 list" where
  "humane_nums = [0, 1, 512, 1024, 1024 + 512, 1024 * 1024, 1024 * 1024 * 1024, 1024 * 1024 * 1024 * 1024,
     1024 * 1024 * 1024 * 1024 * 1024, 1024 * 1024 * 1024 * 1024 * 1024 * 1024, 0xffffffffffffffff]"

definition humane_main :: "string res list" where
  "humane_main = map (\<lambda>n. res_map (\<lambda>h. dec (unat n) @ '' humane: '' @ h) (humane_bytes n)) humane_nums"

lemma humane_main_prints: "humane_main = map (\<lambda>n. Ok (dec (unat n) @ '' humane: '' @ humane_str n)) humane_nums"
  by (simp add: humane_main_def humane_bytes_str)

text \<open>The greatest count is rounded up to the next power of two by the conversion to \<open>double\<close>.\<close>

lemma humane_bytes_max: "humane_bytes 0xffffffffffffffff = Ok ''16.00 EiB''"
proof -
  have n: "unat (0xffffffffffffffff :: u64) = 18446744073709551615" by simp
  have "bit_length 18446744073709551615 = 64" by (simp add: bit_length.simps)
  then have m: "to_double 18446744073709551615 = 18446744073709551616" by (simp add: to_double_def round_even_def)
  have k: "humane_order 18446744073709551616 0 = 6" by (simp add: humane_order.simps)
  have h: "round_even (100 * 18446744073709551616) (1024 ^ 6) = 1600" by (simp add: round_even_def)
  have "dec 16 = ''16''" by (simp add: dec.simps digit_def char_of_def bit_iff_odd)
  moreover have "two_digits 0 = ''00''" by (simp add: two_digits_def digit_def char_of_def bit_iff_odd)
  ultimately show ?thesis
    unfolding humane_bytes_def n m Let_def k humane_text_def h
    by (simp add: humane_units_def snprintf_def humane_buf_size_def)
qed

end
