(* ===== verification/Printf.thy ===== *)
theory Printf
  imports Humane
begin

text \<open>
  The conversions of \<open>printf\<close> for hexadecimal numbers and for strings of a given precision.
\<close>

definition hex_char :: "nat \<Rightarrow> char" where
  "hex_char n = char_of (if n < 10 then 48 + n else 87 + n)"

text \<open>\<open>%x\<close> and \<open>%PRIx64\<close>.\<close>

fun hex_nat :: "nat \<Rightarrow> string" where
  "hex_nat n = (if n < 16 then [hex_char n] else hex_nat (n div 16) @ [hex_char (n mod 16)])"

declare hex_nat.simps [simp del]

text \<open>The number that the digits are read back as.\<close>

definition unhex :: "string \<Rightarrow> nat" where
  "unhex s = foldl (\<lambda>n c. 16 * n + (let k = of_char c in if k < 58 then k - 48 else k - 87)) 0 s"

lemma hex_nat_roundtrip: "unhex (hex_nat n) = n"
proof (induction n rule: hex_nat.induct)
  case (1 n)
  have digit: "(let k = of_char (hex_char d) in if k < 58 then k - 48 else k - 87) = d" if "d < 16" for d :: nat
    using that by (simp add: hex_char_def)
  show ?case
  proof (cases "n < 16")
    case True
    then show ?thesis using digit [of n] by (simp add: hex_nat.simps [of n] unhex_def)
  next
    case False
    then show ?thesis
      using 1 digit [of "n mod 16"] by (subst hex_nat.simps) (simp add: unhex_def)
  qed
qed

text \<open>The bytes of a C string as characters.\<close>

definition chars :: "bytes \<Rightarrow> string" where
  "chars bs = map (\<lambda>b. char_of (unat b)) bs"

text \<open>
  \<open>%.*s\<close> of the memory that begins with \<open>bs\<close>: up to the first NUL, and at most as much as the precision, where
  that is not negative.
\<close>

definition print_prec :: "int \<Rightarrow> bytes \<Rightarrow> string res" where
  "print_prec prec bs =
     (let s = takeWhile (\<lambda>b. b \<noteq> 0) bs in
      if 0 \<le> prec \<and> nat prec \<le> length s then Ok (chars (take (nat prec) s))
      else if length s < length bs then Ok (chars s)
      else Fail OutOfBounds)"

lemma print_prec_in:
  assumes "n \<le> length bs"
  shows "print_prec (int n) bs = Ok (chars (takeWhile (\<lambda>b. b \<noteq> 0) (take n bs)))"
proof -
  let ?s = "takeWhile (\<lambda>b. b \<noteq> 0) bs"
  have t: "takeWhile (\<lambda>b. b \<noteq> 0) (take n bs) = take n ?s"
    by (induction bs arbitrary: n) (auto simp: take_Cons split: nat.splits)
  show ?thesis
  proof (cases "n \<le> length ?s")
    case False
    then show ?thesis using assms t by (simp add: print_prec_def Let_def)
  qed (simp add: print_prec_def Let_def t)
qed

lemma print_prec_negative_overruns: "prec < 0 \<Longrightarrow> 0 \<notin> set bs \<Longrightarrow> print_prec prec bs = Fail OutOfBounds"
proof -
  assume neg: "prec < 0" and no_nul: "0 \<notin> set bs"
  have all: "takeWhile (\<lambda>b. b \<noteq> 0) bs = bs" using no_nul by (induction bs) auto
  show ?thesis unfolding print_prec_def all Let_def using neg by simp
qed

end
