(* ===== verification/Lookup3_Drivers.thy ===== *)
theory Lookup3_Drivers
  imports Lookup3 Printf
begin

text \<open>
  The tests at the end of \<^verbatim>\<open>upstream/lookup3.c\<close>, behind \<open>SELF_TEST\<close>, as functions that give the text they
  print.  They call the hashes by the names the functions had before they were renamed; those are taken
  for the renamed ones.  Local arrays lie anywhere in memory.  The times that \<open>driver1\<close> measures are arguments.
\<close>

unbundle bit_operations_syntax

section \<open>Output\<close>

text \<open>\<open>%.8x\<close> and \<open>%x\<close>.\<close>

definition hex8 :: "u32 \<Rightarrow> string" where
  "hex8 w = map (\<lambda>i. hex_char (unat w div 16 ^ i mod 16)) (rev [0..<8])"

definition hex :: "u32 \<Rightarrow> string" where
  "hex w = (if w = 0 then ''0'' else dropWhile (\<lambda>c. c = CHR ''0'') (hex8 w))"

text \<open>The words of a line, with a blank between them.\<close>

fun spaced :: "string list \<Rightarrow> string" where
  "spaced [] = []"
| "spaced [s] = s"
| "spaced (s # ss) = s @ '' '' @ spaced ss"

section \<open>The whole key is hashed: driver2\<close>

definition MAXPAIR :: nat where "MAXPAIR = 60"
definition MAXLEN :: nat where "MAXLEN = 70"

definition zeroed :: "memory \<Rightarrow> nat \<Rightarrow> nat \<Rightarrow> memory" where
  "zeroed mem p n = (\<lambda>x. if p \<le> x \<and> x < p + n then 0 else mem x)"

text \<open>The two exclusive ors that set bits \<open>j\<close> and up of the byte \<open>i\<close> of a key to \<open>k\<close>, the rest going around.\<close>

definition mark :: "memory \<Rightarrow> nat \<Rightarrow> nat \<Rightarrow> u32 \<Rightarrow> memory" where
  "mark mem x j k =
     (let m1 = mem(x := mem x XOR ucast (push_bit j k)) in m1(x := m1 x XOR ucast (drop_bit (8 - j) k)))"

text \<open>The words \<open>e\<close>, \<open>f\<close>, \<open>g\<close>, \<open>h\<close>, \<open>x\<close>, \<open>y\<close>: the bits no trial has changed, left, set and cleared so far.\<close>

type_synonym unseen_bits = "u32 list"

definition see :: "u32 \<Rightarrow> u32 \<Rightarrow> unseen_bits \<Rightarrow> unseen_bits" where
  "see c d = map2 (AND) [c XOR d, NOT (c XOR d), c, NOT c, d, NOT d]"

text \<open>The trials from \<open>k\<close> on: where they end, and what is left unseen.\<close>

function trials :: "bool \<Rightarrow> bool \<Rightarrow> nat \<Rightarrow> nat \<Rightarrow> nat \<Rightarrow> nat \<Rightarrow> nat \<Rightarrow> u32 \<Rightarrow> nat \<Rightarrow> memory \<times> unseen_bits
    \<Rightarrow> nat \<times> memory \<times> unseen_bits" where
  "trials be vg a b hlen i j m k (mem, un) =
     (if MAXPAIR \<le> k then (k, mem, un)
      else
        let mem0 = zeroed (zeroed mem a (hlen + 1)) b (hlen + 1);
            mem1 = mark mem0 (a + i) j (of_nat k);
            c = jenkins_hashlittle be vg mem1 a hlen m;
            mem2 = mark mem1 (b + i) j (of_nat (k + 1));
            d = jenkins_hashlittle be vg mem2 b hlen m;
            un' = see c d un
        in if list_all (\<lambda>w. w = 0) un' then (k, mem2, un') else trials be vg a b hlen i j m (k + 2) (mem2, un'))"
  by pat_completeness auto
termination by (relation "measure (\<lambda>(be, vg, a, b, hlen, i, j, m, k, s). MAXPAIR - k)") auto

declare trials.simps [simp del]

text \<open>The bytes, bits and seeds of one length in order, until \<open>z\<close>, the most trials yet, is \<open>MAXPAIR\<close>.\<close>

fun bits_loop :: "bool \<Rightarrow> bool \<Rightarrow> nat \<Rightarrow> nat \<Rightarrow> nat \<Rightarrow> (nat \<times> nat \<times> nat) list \<Rightarrow> nat \<Rightarrow> memory
    \<Rightarrow> nat \<times> memory \<times> string list" where
  "bits_loop be vg a b hlen [] z mem = (z, mem, [])"
| "bits_loop be vg a b hlen ((i, j, m) # todo) z mem =
     (case trials be vg a b hlen i j (of_nat m) 0 (mem, replicate 6 (NOT 0)) of (k, mem', un) \<Rightarrow>
        let z' = max z k;
            line = (if k = MAXPAIR
              then [''Some bit didn'' @ [char_of (39 :: nat)] @ ''t change: '' @ spaced (map hex8 un) @ ''  i '' @ dec i @
                '' j '' @ dec j @ '' m '' @ dec m @ '' len '' @ dec hlen]
              else [])
        in if z' = MAXPAIR then (z', mem', line)
           else case bits_loop be vg a b hlen todo z' mem' of (zz, mm, out) \<Rightarrow> (zz, mm, line @ out))"

definition positions :: "nat \<Rightarrow> (nat \<times> nat \<times> nat) list" where
  "positions hlen = concat (map (\<lambda>i. concat (map (\<lambda>j. map (\<lambda>m. (i, j, m)) [1..<8]) [0..<8])) [0..<hlen])"

text \<open>\<open>%2d\<close>.\<close>

definition dec2 :: "nat \<Rightarrow> string" where
  "dec2 n = (if n < 10 then '' '' else []) @ dec n"

text \<open>The seed that is printed is where its loop ended, 0 where it was never entered.\<close>

fun lengths_loop :: "bool \<Rightarrow> bool \<Rightarrow> nat \<Rightarrow> nat \<Rightarrow> nat list \<Rightarrow> memory \<Rightarrow> string list" where
  "lengths_loop be vg a b [] mem = []"
| "lengths_loop be vg a b (hlen # hlens) mem =
     (case bits_loop be vg a b hlen (positions hlen) 0 mem of (z, mem', out) \<Rightarrow>
        out @ (if z < MAXPAIR
               then [''Mix success  '' @ dec2 hlen @ '' bytes  '' @ dec2 (if hlen = 0 then 0 else 8) @ '' initvals  required  '' @
                  dec (z div 2) @ ''  trials'']
               else []) @ lengths_loop be vg a b hlens mem')"

definition driver2 :: "bool \<Rightarrow> bool \<Rightarrow> memory \<Rightarrow> nat \<Rightarrow> nat \<Rightarrow> string list" where
  "driver2 be vg mem qa qb =
     [''No more than '' @ dec (MAXPAIR div 2) @ '' trials should ever be needed ''] @
     lengths_loop be vg qa (qb + 1) [0..<MAXLEN] mem @ [[]]"

section \<open>Only the key is hashed: driver3\<close>

text \<open>\<open>p\<close> is where the text starts in one of the four arrays.\<close>

definition hash_row :: "bool \<Rightarrow> bool \<Rightarrow> memory \<Rightarrow> nat \<Rightarrow> string" where
  "hash_row be vg mem p = spaced (map (\<lambda>k. hex8 (jenkins_hashlittle be vg mem p (73 - k) 13)) [1..<13])"

definition words_row :: "bool \<Rightarrow> memory \<Rightarrow> nat \<Rightarrow> string" where
  "words_row be mem q =
     (let word_hash = (\<lambda>k. hex8 (jenkins_hashword (map (k32 be mem q) [0..<(73 - k) div 4]) 13)) in
      word_hash 1 @ replicate 28 CHR '' '' @ word_hash 5 @ replicate 28 CHR '' '' @ word_hash 9)"

definition variants_lines :: "bool \<Rightarrow> bool \<Rightarrow> memory \<Rightarrow> nat \<Rightarrow> string list" where
  "variants_lines be vg mem q =
     (let i = fst (jenkins_hashlittle2 be vg mem q 73 47 0); i' = fst (jenkins_hashword2 [0xdeadbeef] 47 0) in
      (if jenkins_hashlittle be vg mem q 73 47 \<noteq> i then [''hashlittle2 and hashlittle mismatch''] else []) @
      (if jenkins_hashword [0xdeadbeef] 47 \<noteq> i'
       then [''hashword2 and hashword mismatch '' @ hex i' @ '' '' @ hex (jenkins_hashword [0xdeadbeef] 47)] else []))"

text \<open>One key of \<open>i\<close> zeros at \<open>b\<close>, hashed before and after the bytes around it are set.\<close>

definition around_key :: "bool \<Rightarrow> bool \<Rightarrow> nat \<Rightarrow> nat \<Rightarrow> nat \<Rightarrow> memory \<Rightarrow> memory \<times> string list" where
  "around_key be vg h b i mem =
     (let mem1 = zeroed mem b i;
          ref = jenkins_hashlittle be vg mem1 b i 1;
          mem2 = mem1(b + i := NOT 0, b - 1 := NOT 0);
          x = jenkins_hashlittle be vg mem2 b i 1;
          y = jenkins_hashlittle be vg mem2 b i 1
      in (mem2, if ref \<noteq> x \<or> ref \<noteq> y
            then [''alignment error: '' @ spaced [hex8 ref, hex8 x, hex8 y, dec h, dec i]] else []))"

fun around_keys :: "bool \<Rightarrow> bool \<Rightarrow> nat \<Rightarrow> (nat \<times> nat) list \<Rightarrow> memory \<Rightarrow> memory \<times> string list" where
  "around_keys be vg buf [] mem = (mem, [])"
| "around_keys be vg buf ((h, i) # todo) mem =
     (case around_key be vg h (buf + 1 + h) i mem of (mem1, out1) \<Rightarrow>
      case around_keys be vg buf todo mem1 of (mem2, out2) \<Rightarrow> (mem2, out1 @ out2))"

text \<open>The four arrays with the text, which starts up to three bytes into them, and the buffer.\<close>

definition driver3 :: "bool \<Rightarrow> bool \<Rightarrow> memory \<Rightarrow> nat \<Rightarrow> nat \<Rightarrow> nat \<Rightarrow> nat \<Rightarrow> nat \<Rightarrow> memory \<times> string list" where
  "driver3 be vg mem q qq qqq qqqq buf =
     (case around_keys be vg buf (concat (map (\<lambda>h. map (\<lambda>i. (h, i)) [0..<MAXLEN]) [0..<8])) mem of (mem', out) \<Rightarrow>
        (mem', [''Endianness.  These lines should all be the same (for values filled in):'', words_row be mem q] @
           map (hash_row be vg mem) [q, qq + 1, qqq + 2, qqqq + 3] @ [[]] @ variants_lines be vg mem q @ out))"

section \<open>Empty keys and test vectors: driver4 and driver5\<close>

fun empty_hashes :: "bool \<Rightarrow> bool \<Rightarrow> memory \<Rightarrow> nat \<Rightarrow> nat \<Rightarrow> u32 \<Rightarrow> u32 list" where
  "empty_hashes be vg mem buf 0 h = []"
| "empty_hashes be vg mem buf (Suc n) h =
     (let h' = jenkins_hashlittle be vg mem buf 0 h in h' # empty_hashes be vg mem buf n h')"

definition driver4 :: "bool \<Rightarrow> bool \<Rightarrow> memory \<Rightarrow> nat \<Rightarrow> string list" where
  "driver4 be vg mem buf =
     [''These should all be different''] @
     map (\<lambda>(i, h). dec2 i @ ''  0-byte strings, hash is  '' @ hex8 h)
       (enumerate 0 (empty_hashes be vg (mem(buf := NOT 0)) buf 8 0))"

text \<open>\<open>es\<close> and \<open>fs\<close> are the addresses of the two string literals.\<close>

definition hash_line :: "u32 \<times> u32 \<Rightarrow> string" where
  "hash_line = (\<lambda>(c, b). ''hash is '' @ hex8 c @ '' '' @ hex8 b)"

definition driver5 :: "bool \<Rightarrow> bool \<Rightarrow> memory \<Rightarrow> nat \<Rightarrow> nat \<Rightarrow> string list" where
  "driver5 be vg mem es fs =
     [hash_line (jenkins_hashlittle2 be vg mem es 0 0 0),
      hash_line (jenkins_hashlittle2 be vg mem es 0 0 0xdeadbeef),
      hash_line (jenkins_hashlittle2 be vg mem es 0 0xdeadbeef 0xdeadbeef),
      hash_line (jenkins_hashlittle2 be vg mem fs 30 0 0),
      hash_line (jenkins_hashlittle2 be vg mem fs 30 0 1),
      hash_line (jenkins_hashlittle2 be vg mem fs 30 1 0),
      ''hash is '' @ hex8 (jenkins_hashlittle be vg mem fs 30 0),
      ''hash is '' @ hex8 (jenkins_hashlittle be vg mem fs 30 1)]"

section \<open>The timing and the whole test: driver1 and main\<close>

text \<open>\<open>a\<close> and \<open>z\<close> are the times before and after; \<open>%d\<close> prints the low 32 bits of their difference.\<close>

definition signed_dec :: "int \<Rightarrow> string" where
  "signed_dec n = (if n < 0 then CHR ''-'' # dec (nat (- n)) else dec (nat n))"

definition driver1 :: "bool \<Rightarrow> bool \<Rightarrow> memory \<Rightarrow> nat \<Rightarrow> int \<Rightarrow> int \<Rightarrow> string list" where
  "driver1 be vg mem buf a z =
     (let mem1 = (\<lambda>x. if buf \<le> x \<and> x < buf + 256 then 120 else mem x);
          h = jenkins_hashlittle be vg mem1 buf 1 0 in
      if 0 < z - a then [''time '' @ signed_dec (sint (word_of_int (z - a) :: 32 word)) @ '' '' @ hex8 h] else [])"

text \<open>The addresses of the arrays and literals of the drivers, and what \<open>time\<close> gives.\<close>

record self_test_env =
  te_mem :: memory
  te_buf1 :: nat
  te_times :: "int \<times> int"
  te_q2 :: "nat \<times> nat"
  te_q3 :: "nat \<times> nat \<times> nat \<times> nat \<times> nat"
  te_buf4 :: nat
  te_lits :: "nat \<times> nat"

definition self_test :: "bool \<Rightarrow> bool \<Rightarrow> self_test_env \<Rightarrow> int \<times> string list" where
  "self_test be vg env =
     (1, driver1 be vg (te_mem env) (te_buf1 env) (fst (te_times env)) (snd (te_times env)) @
         driver2 be vg (te_mem env) (fst (te_q2 env)) (snd (te_q2 env)) @
         (case te_q3 env of (q, qq, qqq, qqqq, buf) \<Rightarrow> snd (driver3 be vg (te_mem env) q qq qqq qqqq buf)) @
         driver4 be vg (te_mem env) (te_buf4 env) @
         driver5 be vg (te_mem env) (fst (te_lits env)) (snd (te_lits env)))"

text \<open>The time is printed only if a second has begun in between.\<close>

lemma driver1_silent: "z \<le> a \<Longrightarrow> driver1 be vg mem buf a z = []"
  by (simp add: driver1_def)

text \<open>The string of \<open>driver5\<close>'s test vectors: ``Four score and seven years ago''.\<close>

definition four_score :: bytes where
  "four_score = [70, 111, 117, 114, 32, 115, 99, 111, 114, 101, 32, 97, 110, 100, 32, 115, 101, 118, 101,
     110, 32, 121, 101, 97, 114, 115, 32, 97, 103, 111]"

lemma lookup3_step: "12 < length bs \<Longrightarrow>
    lookup3_bytes w bs s = lookup3_bytes w (drop 12 bs) (mix (add_block w (take 12 bs) s))"
  by (subst lookup3_bytes.simps) auto

lemma lookup3_last: "0 < length bs \<Longrightarrow> length bs \<le> 12 \<Longrightarrow> lookup3_bytes w bs s = final (add_block w bs s)"
  by (subst lookup3_bytes.simps) auto

definition add_words :: "u32 \<Rightarrow> u32 \<Rightarrow> u32 \<Rightarrow> abc \<Rightarrow> abc" where
  "add_words i j k = (\<lambda>(a, b, c). (a + i, b + j, c + k))"

lemma add_four_score:
  "add_block le_word (take 12 four_score) = add_words 0x72756f46 0x6f637320 0x61206572"
  "add_block le_word (take 12 (drop 12 four_score)) = add_words 0x7320646e 0x6e657665 0x61657920"
  "add_block le_word (drop 24 four_score) = add_words 0x61207372 0x6f67 0"
  by (simp_all add: add_block_def add_words_def four_score_def)

lemma four_score_hash:
  assumes "bytes_at mem p 30 = four_score"
  shows "jenkins_hashlittle2 be vg mem p 30 pc pb =
     (case final (add_words 0x61207372 0x6f67 0 (mix (add_words 0x7320646e 0x6e657665 0x61657920
        (mix (add_words 0x72756f46 0x6f637320 0x61206572
          (0xdeadbeef + 30 + pc, 0xdeadbeef + 30 + pc, 0xdeadbeef + 30 + pc + pb))))))
      of (a, b, c) \<Rightarrow> (c, b))"
proof -
  have len: "length four_score = 30" by (simp add: four_score_def)
  have "lookup3_bytes le_word four_score s = final (add_block le_word (drop 24 four_score)
      (mix (add_block le_word (take 12 (drop 12 four_score)) (mix (add_block le_word (take 12 four_score) s)))))" for s
    using lookup3_step [of four_score le_word s] lookup3_step [of "drop 12 four_score" le_word]
      lookup3_last [of "drop 24 four_score" le_word] by (simp add: len)
  then show ?thesis
    by (simp add: jenkins_hashlittle2_def hashlittle_body_correct assms Let_def add_four_score)
qed

lemma empty_hash2: "jenkins_hashlittle2 be vg mem p 0 pc pb = (0xdeadbeef + pc + pb, 0xdeadbeef + pc)"
  by (simp add: jenkins_hashlittle2_def hashlittle_body_correct lookup3_bytes.simps Let_def)

lemma hashlittle_of_bytes:
  "bytes_at mem p n = bytes_at mem' p' n \<Longrightarrow> jenkins_hashlittle be vg mem p n initval = jenkins_hashlittle be vg mem' p' n initval"
  by (simp add: jenkins_hashlittle_def hashlittle_body_correct)

section \<open>The tests pass\<close>

text \<open>The keys of a trial, an even \<open>k\<close> and its successor, differ in bit \<open>j\<close> of byte \<open>i\<close> and nowhere else.\<close>

lemma mark_one_bit:
  assumes "even k" and "j < 8"
  shows "mark (\<lambda>y. 0) x j k y XOR mark (\<lambda>y. 0) x j (k + 1) y = (if y = x then push_bit j 1 else 0)"
proof -
  have one: "k + 1 = k XOR 1" using assms(1) by (simp add: xor_one_eq)
  have "drop_bit (8 - j) (k XOR 1) = drop_bit (8 - j) k"
    using assms(2) by (intro bit_eqI) (auto simp: bit_drop_bit_eq bit_xor_iff bit_1_iff)
  moreover have "(ucast (push_bit j (k XOR 1)) :: u8) = ucast (push_bit j k) XOR push_bit j 1"
    by (intro bit_word_eqI) (auto simp: bit_unsigned_iff bit_push_bit_iff bit_xor_iff bit_1_iff simp del: push_bit_of_1)
  ultimately show ?thesis
    unfolding one by (simp add: mark_def Let_def ac_simps)
qed

lemma around_key_silent: "snd (around_key be vg h (Suc b) i mem) = []"
proof -
  let ?m = "zeroed mem (Suc b) i"
  have "bytes_at (?m(Suc b + i := NOT 0, Suc b - 1 := NOT 0)) (Suc b) i = bytes_at ?m (Suc b) i"
    by (intro nth_equalityI) (auto simp: nth_bytes_at)
  from hashlittle_of_bytes [OF this] show ?thesis by (simp add: around_key_def Let_def)
qed

lemma around_key_inside:
  assumes "h < 8" and "i < MAXLEN" and "x < buf \<or> buf + (MAXLEN + 20) \<le> x"
  shows "fst (around_key be vg h (buf + 1 + h) i mem) x = mem x"
  using assms by (auto simp: around_key_def Let_def zeroed_def MAXLEN_def)

lemma around_keys_silent: "snd (around_keys be vg buf todo mem) = []"
proof (induction be vg buf todo mem rule: around_keys.induct)
  case (2 be vg buf h i todo mem)
  then show ?case using around_key_silent [of be vg h "buf + h" i mem] by (auto split: prod.splits)
qed simp

lemma around_keys_inside:
  assumes "\<forall>(h, i)\<in>set todo. h < 8 \<and> i < MAXLEN" and "x < buf \<or> buf + (MAXLEN + 20) \<le> x"
  shows "fst (around_keys be vg buf todo mem) x = mem x"
  using assms
proof (induction be vg buf todo mem rule: around_keys.induct)
  case (2 be vg buf h i todo mem)
  then show ?case using around_key_inside [of h i x buf be vg mem] by (auto split: prod.splits)
qed simp

lemma hash_row_at:
  assumes "bytes_at mem p 72 = bytes_at mem q 72"
  shows "hash_row be vg mem p = hash_row be vg mem q"
proof -
  have "bytes_at mem p (73 - k) = bytes_at mem q (73 - k)" if "k \<in> set [1..<13]" for k
  proof -
    have "min (73 - k) 72 = 73 - k" using that by auto
    then show ?thesis using arg_cong [OF assms, of "take (73 - k)"] by simp
  qed
  then have "map (\<lambda>k. hex8 (jenkins_hashlittle be vg mem p (73 - k) 13)) [1..<13] =
      map (\<lambda>k. hex8 (jenkins_hashlittle be vg mem q (73 - k) 13)) [1..<13]"
    by (intro map_cong [OF refl] arg_cong [of _ _ hex8] hashlittle_of_bytes)
  then show ?thesis by (simp only: hash_row_def)
qed

lemma variants_lines_none: "variants_lines be vg mem q = []"
  using lookup3_variants_agree by (simp add: variants_lines_def Let_def)

lemma words_row_columns:
  "words_row False mem q = (let col = \<lambda>k. hex8 (jenkins_hashlittle False vg mem q (73 - k) 13) in
     col 1 @ replicate 28 CHR '' '' @ col 5 @ replicate 28 CHR '' '' @ col 9)"
proof -
  have "jenkins_hashword (map (k32 False mem q) [0..<m]) 13 = jenkins_hashlittle False vg mem q (4 * m) 13" for m
    using lookup3_variants_agree by blast
  from this [of 18] this [of 17] this [of 16] show ?thesis by (simp add: words_row_def Let_def)
qed

section \<open>Properties\<close>

text \<open>C24: Wherever the text lies, on every host and in both builds, \<open>driver3\<close> finds nothing: the hashes of the text
  at the four alignments are the same line, the variants agree and no byte next to a key changes its hash;
  on a little-endian host the words' hashes are those of the bytes, in columns 1, 5 and 9.  It writes to its
  buffer only.\<close>

theorem driver3_finds_nothing:
  assumes "bytes_at mem (qq + 1) 72 = bytes_at mem q 72" and "bytes_at mem (qqq + 2) 72 = bytes_at mem q 72"
    and "bytes_at mem (qqqq + 3) 72 = bytes_at mem q 72"
  shows "snd (driver3 be vg mem q qq qqq qqqq buf) =
      [''Endianness.  These lines should all be the same (for values filled in):'', words_row be mem q] @
      replicate 4 (hash_row be vg mem q) @ [[]] \<and>
    (be \<or> words_row be mem q = (let col = \<lambda>k. hex8 (jenkins_hashlittle be vg mem q (73 - k) 13) in
       col 1 @ replicate 28 CHR '' '' @ col 5 @ replicate 28 CHR '' '' @ col 9)) \<and>
    (\<forall>x. x < buf \<or> buf + (MAXLEN + 20) \<le> x \<longrightarrow> fst (driver3 be vg mem q qq qqq qqqq buf) x = mem x)"
proof (intro conjI allI impI)
  let ?todo = "concat (map (\<lambda>h. map (\<lambda>i. (h, i)) [0..<MAXLEN]) [0..<8])"
  show "snd (driver3 be vg mem q qq qqq qqqq buf) =
      [''Endianness.  These lines should all be the same (for values filled in):'', words_row be mem q] @
      replicate 4 (hash_row be vg mem q) @ [[]]"
  proof -
    obtain mem' where "around_keys be vg buf ?todo mem = (mem', [])"
      using around_keys_silent [of be vg buf ?todo mem] by (metis prod.collapse)
    moreover have "replicate 4 r = [r, r, r, r]" for r :: string by (simp add: numeral_eq_Suc)
    ultimately show ?thesis by (simp only: driver3_def split variants_lines_none list.map assms [THEN hash_row_at]) simp
  qed
  show "be \<or> words_row be mem q = (let col = \<lambda>k. hex8 (jenkins_hashlittle be vg mem q (73 - k) 13) in
       col 1 @ replicate 28 CHR '' '' @ col 5 @ replicate 28 CHR '' '' @ col 9)"
    using words_row_columns [of mem q vg] by (cases be) simp_all
  show "fst (driver3 be vg mem q qq qqq qqqq buf) x = mem x" if "x < buf \<or> buf + (MAXLEN + 20) \<le> x" for x
    using around_keys_inside [of ?todo x buf be vg mem, OF _ that] by (auto simp: driver3_def split: prod.split)
qed

text \<open>Memory that holds the same letter everywhere.\<close>

theorem driver3_finds_nothing_witness:
  "snd (driver3 False False (\<lambda>x. 120) 1000 2000 3000 4000 5000) =
     [''Endianness.  These lines should all be the same (for values filled in):'', words_row False (\<lambda>x. 120) 1000] @
     replicate 4 (hash_row False False (\<lambda>x. 120) 1000) @ [[]]"
proof -
  have "bytes_at (\<lambda>x. 120) p 72 = bytes_at (\<lambda>x. 120) 1000 72" for p by (rule nth_equalityI) (simp_all add: nth_bytes_at)
  from driver3_finds_nothing [OF this this this] show ?thesis by blast
qed

text \<open>The seeds of \<open>driver4\<close> are multiples of one number: its eight hashes differ.\<close>

lemma empty_hash: "jenkins_hashlittle be vg mem p 0 h = 0xdeadbeef + h"
  by (simp add: jenkins_hashlittle_def hashlittle_body_correct lookup3_bytes.simps)

lemma driver4_hashes_differ: "distinct (empty_hashes be vg mem buf 8 0)"
proof -
  have "8 = Suc (Suc (Suc (Suc (Suc (Suc (Suc (Suc 0)))))))" by simp
  then have "empty_hashes be vg mem buf 8 0 = map (\<lambda>i. of_nat i * 0xdeadbeef) [1, 2, 3, 4, 5, 6, 7, 8]"
    by (simp only:) (simp add: empty_hash Let_def)
  then show ?thesis by simp
qed

text \<open>\<open>driver5\<close> prints what the comments beside it say.\<close>

lemma hex8_values: "hex8 0xdeadbeef = ''deadbeef''" "hex8 0xbd5b7dde = ''bd5b7dde''" "hex8 0x9c093ccd = ''9c093ccd''"
  "hex8 0x17770551 = ''17770551''" "hex8 0xce7226e6 = ''ce7226e6''" "hex8 0xe3607cae = ''e3607cae''"
  "hex8 0xbd371de4 = ''bd371de4''" "hex8 0xcd628161 = ''cd628161''" "hex8 0x6cbea4b3 = ''6cbea4b3''"
  by (simp_all add: hex8_def hex_char_def upt_rec char_of_def bit_iff_odd)

lemma four_score_vectors:
  assumes "bytes_at mem p 30 = four_score"
  shows "jenkins_hashlittle2 be vg mem p 30 0 0 = (0x17770551, 0xce7226e6)"
    and "jenkins_hashlittle2 be vg mem p 30 0 1 = (0xe3607cae, 0xbd371de4)"
    and "jenkins_hashlittle2 be vg mem p 30 1 0 = (0xcd628161, 0x6cbea4b3)"
  unfolding four_score_hash [OF assms] mix_steps
  by (simp_all add: add_words_def final_steps mix_step_def final_step_def rot_def)

lemma driver5_vectors:
  assumes "bytes_at mem fs 30 = four_score"
  shows "driver5 be vg mem es fs =
    [''hash is deadbeef deadbeef'', ''hash is bd5b7dde deadbeef'', ''hash is 9c093ccd bd5b7dde'',
     ''hash is 17770551 ce7226e6'', ''hash is e3607cae bd371de4'', ''hash is cd628161 6cbea4b3'',
     ''hash is 17770551'', ''hash is cd628161'']"
proof -
  have "jenkins_hashlittle be vg mem fs 30 i = fst (jenkins_hashlittle2 be vg mem fs 30 i 0)" for i
    using lookup3_variants_agree by metis
  moreover have "(0xdeadbeef :: u32) + 0 = 0xdeadbeef" "(0xdeadbeef :: u32) + 0xdeadbeef = 0xbd5b7dde"
    "(0xdeadbeef :: u32) + 0 + 0xdeadbeef = 0xbd5b7dde" "(0xbd5b7dde :: u32) + 0xdeadbeef = 0x9c093ccd" by simp_all
  ultimately show ?thesis
    unfolding driver5_def hash_line_def empty_hash2 four_score_vectors [OF assms]
    by (simp only: split fst_conv hex8_values add_0_right) (simp add: four_score_vectors [OF assms] hex8_values)
qed

end
