(* ===== verification/Journal_Open.thy ===== *)
theory Journal_Open
  imports Journal_Iter
begin

text \<open>
  Opening the journals of a machine (\<^verbatim>\<open>journals.c\<close>): the requests for the two directories, the
  two passes over the directory's entries, the opening of every journal with its completions in
  any order, the registration of files and buffers, and the loop over the open journals.  What
  the kernel, \<^verbatim>\<open>readdir\<close> and \<^verbatim>\<open>malloc\<close> answer is in the environment records; a request that is
  queued is a value, and the closure's dispatch is a flag in the result.
\<close>

section \<open>State and environment\<close>

record journals =
  dirfd :: int
  n_journals :: nat
  n_allocated :: nat
  n_opened :: nat
  js :: "journal list" \<comment> \<open>\<open>journals[]\<close>, \<open>n_allocated\<close> of them\<close>

text \<open>A queued \<open>openat\<close>.\<close>

record open_req =
  at_fd :: int
  at_path :: string
  at_flags :: int

definition PERSISTENT_PATH :: string where "PERSISTENT_PATH = ''/var/log/journal''"

text \<open>\<open>O_DIRECTORY|O_RDONLY\<close> on Linux.\<close>

definition dir_flags :: int where "dir_flags = 65536"

definition journals_open :: "bool \<Rightarrow> open_req res" where
  "journals_open op_new =
     (if \<not> op_new then Fail (Errno (- ENOMEM))
      else Ok \<lparr>at_fd = 0, at_path = PERSISTENT_PATH, at_flags = dir_flags\<rparr>)"

definition var_opened :: "int \<Rightarrow> bool \<Rightarrow> string \<Rightarrow> open_req res" where
  "var_opened result op_new machid =
     (if result < 0 then Fail (Errno result)
      else if \<not> op_new then Fail (Errno (- ENOMEM))
      else Ok \<lparr>at_fd = result, at_path = machid, at_flags = dir_flags\<rparr>)"

text \<open>
  What the directory and the allocator answer in \<open>get_journals\<close>: the errno of a failing
  \<open>fdopendir\<close>, the entries in the first and in the second pass, \<open>calloc\<close>, \<open>dup\<close>, \<open>iou_resize\<close>,
  and \<open>iou_op_new\<close> for each journal.
\<close>

record dir_env =
  de_fdopendir :: "int option"
  de_first :: "string list"
  de_second :: "string list"
  de_calloc :: bool
  de_dup :: int
  de_resize :: int
  de_op_new :: "nat \<Rightarrow> bool"

definition dot_entry :: "string \<Rightarrow> bool" where
  "dot_entry name \<longleftrightarrow> name \<noteq> [] \<and> hd name = CHR ''.''"

text \<open>The first pass counts, the second stores; the store comes before the assertion.\<close>

fun count_entries :: "string list \<Rightarrow> nat \<Rightarrow> nat" where
  "count_entries [] n = n"
| "count_entries (d # ds) n = (if dot_entry d then count_entries ds n else count_entries ds (n + 1))"

fun store_entries :: "string list \<Rightarrow> journals \<Rightarrow> journals res" where
  "store_entries [] j = Ok j"
| "store_entries (d # ds) j =
     (if dot_entry d then store_entries ds j
      else res_bind (arr_upd (js j) (n_journals j) (\<lambda>jr. jr\<lparr>j_name := d\<rparr>)) (\<lambda>jrs.
           let j1 = j\<lparr>js := jrs, n_journals := n_journals j + 1\<rparr> in
           res_bind (assert_that (n_journals j1 \<le> n_allocated j1)) (\<lambda>_. store_entries ds j1)))"

fun queue_opens :: "(nat \<Rightarrow> bool) \<Rightarrow> journals \<Rightarrow> int \<Rightarrow> nat list \<Rightarrow> open_req list res" where
  "queue_opens op_new j flags [] = Ok []"
| "queue_opens op_new j flags (i # is) =
     (if \<not> op_new i then Fail (Errno (- ENOMEM))
      else res_map (\<lambda>reqs. \<lparr>at_fd = dirfd j, at_path = j_name (js j ! i), at_flags = flags\<rparr> # reqs)
             (queue_opens op_new j flags is))"

text \<open>The return value, and the journals stored at \<open>*journals\<close> with the requests queued for them.\<close>

definition get_journals ::
  "int \<Rightarrow> dir_env \<Rightarrow> int \<Rightarrow> (int \<times> (journals \<times> open_req list) option) res" where
  "get_journals result env flags =
     (if result < 0 then Fail (Errno result)
      else case de_fdopendir env of
        Some errno \<Rightarrow> Ok (errno, None)
      | None \<Rightarrow>
          let n = count_entries (de_first env) 0 in
          if n = 0 then Ok (0, None)
          else if \<not> de_calloc env then Fail (Errno (- ENOMEM))
          else
            let j = \<lparr>dirfd = 0, n_journals = 0, n_allocated = n, n_opened = 0,
                     js = replicate n (calloc_journal '''')\<rparr> in
            res_bind (store_entries (de_second env) j) (\<lambda>j.
            let j = j\<lparr>dirfd := de_dup env\<rparr> in
            if de_resize env < 0 then Fail (Errno (de_resize env))
            else res_map (\<lambda>reqs. (0, Some (j, reqs)))
                   (queue_opens (de_op_new env) j flags [0..<n_journals j])))"

text \<open>What the allocator and the registrations answer once all opens have completed.\<close>

record reg_env =
  re_malloc_fds :: bool
  re_register_files :: "int list \<Rightarrow> int"
  re_malloc_bufs :: bool
  re_register_buffers :: "nat \<Rightarrow> int"

definition number_journals :: "journal list \<Rightarrow> journal list" where
  "number_journals jrs = map (\<lambda>i. (jrs ! i)\<lparr>j_idx := i\<rparr>) [0..<length jrs]"

definition number_bufs :: "journal list \<Rightarrow> journal list" where
  "number_bufs jrs = map (\<lambda>i. (jrs ! i)\<lparr>bufs := map (\<lambda>k. (bufs (jrs ! i) ! k)
     \<lparr>b_idx := i * JOURNAL_BUF_CNT + k\<rparr>) [0..<JOURNAL_BUF_CNT]\<rparr>) [0..<length jrs]"

text \<open>The journal whose open has completed.\<close>

definition opened_one :: "int \<Rightarrow> journal \<Rightarrow> journal" where
  "opened_one result jr =
     (if result < 0 then jr\<lparr>j_fd := - 1\<rparr> else (link_bufs jr)\<lparr>j_fd := result\<rparr>)"

text \<open>What is printed on standard error for a journal that may not be opened.\<close>

definition denied_line :: "string \<Rightarrow> string" where
  "denied_line name = ''Permission denied opening '' @ [CHR 0x22] @ name @ [CHR 0x22] @ '', ignoring'' @ newline"

text \<open>\<open>opened_journal\<close>: what is printed on standard error, and what is returned; the flag is whether the closure
  was dispatched.\<close>

definition opened_journal :: "reg_env \<Rightarrow> int \<Rightarrow> nat \<Rightarrow> journals \<Rightarrow> string \<times> (journals \<times> bool) res" where
  "opened_journal env result i j =
     (let j1 = j\<lparr>n_opened := n_opened j + 1\<rparr> in
      if result < 0 \<and> result \<noteq> - EPERM \<and> result \<noteq> - EACCES then ([], Fail (Errno result))
      else
        (if result < 0 then denied_line (j_name (js j1 ! i)) else [],
        let j2 = j1\<lparr>js := (js j1)[i := opened_one result (js j1 ! i)]\<rparr> in
        if n_opened j2 = n_journals j2 then
          if \<not> re_malloc_fds env then Fail (Errno (- ENOMEM))
          else
            let fds = map j_fd (js j2); j3 = j2\<lparr>js := number_journals (js j2)\<rparr>;
                r = re_register_files env fds in
            if r < 0 then Fail (Errno r)
            else if \<not> re_malloc_bufs env then Fail (Errno (- ENOMEM))
            else
              let j4 = j3\<lparr>js := number_bufs (js j3)\<rparr>;
                  r = re_register_buffers env (JOURNAL_BUF_CNT * n_journals j4) in
              if r < 0 then Fail (Errno r) else Ok (j4, True)
        else Ok (j2, False)))"

text \<open>The completions of the queued opens, as the ring delivers them, with what they print.\<close>

fun complete_opens :: "reg_env \<Rightarrow> (nat \<times> int) list \<Rightarrow> journals \<Rightarrow> string \<times> (journals \<times> bool list) res" where
  "complete_opens env [] j = ([], Ok (j, []))"
| "complete_opens env ((i, result) # cs) j =
     (case opened_journal env result i j of
        (err, Fail e) \<Rightarrow> (err, Fail e)
      | (err, Ok (j1, d)) \<Rightarrow>
          (case complete_opens env cs j1 of (err', r) \<Rightarrow> (err @ err', res_map (\<lambda>(j2, ds). (j2, d # ds)) r)))"

text \<open>\<open>journals_for_each\<close>: the closure for every journal with a descriptor.\<close>

fun for_each_journal :: "(journal, 's) closure \<Rightarrow> journal list \<Rightarrow> 's \<Rightarrow> 's res" where
  "for_each_journal closure [] s = Ok s"
| "for_each_journal closure (jr # jrs) s =
     (if j_fd jr < 0 then for_each_journal closure jrs s
      else res_bind (closure jr s) (for_each_journal closure jrs))"

definition journals_for_each :: "journals \<Rightarrow> (journal, 's) closure \<Rightarrow> 's \<Rightarrow> 's res" where
  "journals_for_each j closure s = for_each_journal closure (take (n_journals j) (js j)) s"

section \<open>The entries found\<close>

lemma count_entries_eq: "count_entries ds n = n + length (filter (\<lambda>d. \<not> dot_entry d) ds)"
  by (induction ds arbitrary: n) auto

lemma calloc_journal_name: "(calloc_journal a)\<lparr>j_name := d\<rparr> = calloc_journal d"
  by (simp add: calloc_journal_def)

lemma store_entries_eq:
  assumes "js j = map calloc_journal done @ replicate m (calloc_journal '''')"
    and "n_journals j = length done" and "n_allocated j = length done + m"
    and "length (filter (\<lambda>d. \<not> dot_entry d) ds) \<le> m"
  shows "store_entries ds j = Ok (j\<lparr>js := map calloc_journal (done @ filter (\<lambda>d. \<not> dot_entry d) ds) @
      replicate (m - length (filter (\<lambda>d. \<not> dot_entry d) ds)) (calloc_journal ''''),
      n_journals := length done + length (filter (\<lambda>d. \<not> dot_entry d) ds)\<rparr>)"
  using assms
proof (induction ds arbitrary: j "done" m)
  case Nil
  then show ?case by simp
next
  case (Cons d ds)
  show ?case
  proof (cases "dot_entry d")
    case True
    then show ?thesis using Cons by simp
  next
    case False
    then obtain m' where m: "m = Suc m'" using Cons.prems(4) by (cases m) auto
    let ?j = "j\<lparr>js := map calloc_journal (done @ [d]) @ replicate m' (calloc_journal ''''),
        n_journals := length (done @ [d])\<rparr>"
    have upd: "arr_upd (js j) (n_journals j) (\<lambda>jr. jr\<lparr>j_name := d\<rparr>) =
        Ok (map calloc_journal (done @ [d]) @ replicate m' (calloc_journal ''''))"
      using Cons.prems(1,2) m by (simp add: arr_upd_def nth_append calloc_journal_name list_update_append)
    have "store_entries (d # ds) j = store_entries ds ?j"
      using False upd Cons.prems(2,3) m by (simp add: Let_def)
    then show ?thesis
      using Cons.IH [of ?j "done @ [d]" m'] Cons.prems m False by simp
  qed
qed

lemma store_entries_overrun:
  assumes "js j = map calloc_journal done @ replicate m (calloc_journal '''')"
    and "n_journals j = length done" and "n_allocated j = length done + m"
    and "m < length (filter (\<lambda>d. \<not> dot_entry d) ds)"
  shows "store_entries ds j = Fail OutOfBounds"
  using assms
proof (induction ds arbitrary: j "done" m)
  case Nil
  then show ?case by simp
next
  case (Cons d ds)
  show ?case
  proof (cases "dot_entry d \<or> m = 0")
    case True
    then show ?thesis
      using Cons.IH [OF Cons.prems(1-3)] Cons.prems by (cases "dot_entry d") (simp_all add: arr_upd_def)
  next
    case False
    then obtain m' where m: "m = Suc m'" by (cases m) auto
    let ?j = "j\<lparr>js := map calloc_journal (done @ [d]) @ replicate m' (calloc_journal ''''),
        n_journals := length (done @ [d])\<rparr>"
    have upd: "arr_upd (js j) (n_journals j) (\<lambda>jr. jr\<lparr>j_name := d\<rparr>) =
        Ok (map calloc_journal (done @ [d]) @ replicate m' (calloc_journal ''''))"
      using Cons.prems(1,2) m by (simp add: arr_upd_def nth_append calloc_journal_name list_update_append)
    have "store_entries (d # ds) j = store_entries ds ?j"
      using False upd Cons.prems(2,3) m by (simp add: Let_def)
    then show ?thesis
      using Cons.IH [of ?j "done @ [d]" m'] Cons.prems m False by simp
  qed
qed

lemma queue_opens_eq:
  "(\<forall>i\<in>set is. op_new i) \<Longrightarrow> queue_opens op_new j flags is =
     Ok (map (\<lambda>i. \<lparr>at_fd = dirfd j, at_path = j_name (js j ! i), at_flags = flags\<rparr>) is)"
  by (induction "is") auto

section \<open>Completions in any order\<close>

text \<open>A tolerated result: a descriptor, or a permission error.\<close>

definition tolerated :: "int \<Rightarrow> bool" where
  "tolerated r \<longleftrightarrow> 0 \<le> r \<or> r = - EPERM \<or> r = - EACCES"

definition reg_ok :: "reg_env \<Rightarrow> bool" where
  "reg_ok env \<longleftrightarrow> re_malloc_fds env \<and> re_malloc_bufs env \<and> (\<forall>fds. 0 \<le> re_register_files env fds) \<and>
     (\<forall>n. 0 \<le> re_register_buffers env n)"

text \<open>The journals after the completions in \<open>D\<close>.\<close>

definition opened_js :: "(nat \<Rightarrow> int) \<Rightarrow> nat set \<Rightarrow> journal list \<Rightarrow> journal list" where
  "opened_js res D jrs = map (\<lambda>i. if i \<in> D then opened_one (res i) (jrs ! i) else jrs ! i) [0..<length jrs]"

lemma opened_js_step:
  "i \<notin> D \<Longrightarrow> i < length jrs \<Longrightarrow>
     (opened_js res D jrs)[i := opened_one (res i) (opened_js res D jrs ! i)] = opened_js res (insert i D) jrs"
  by (rule nth_equalityI) (auto simp: opened_js_def nth_list_update)

text \<open>What these print: a line for each journal that was refused, in the order of the completions.\<close>

definition denied_lines :: "string list \<Rightarrow> (nat \<times> int) list \<Rightarrow> string" where
  "denied_lines names cs = concat (map (\<lambda>(i, r). if r < 0 then denied_line (names ! i) else []) cs)"

lemma denied_lines_simps [simp]:
  "denied_lines names [] = []"
  "denied_lines names ((i, r) # cs) = (if r < 0 then denied_line (names ! i) else []) @ denied_lines names cs"
  by (simp_all add: denied_lines_def)

lemma opened_js_name: "length jrs = n \<Longrightarrow> i < n \<Longrightarrow> j_name (opened_js res D jrs ! i) = j_name (jrs ! i)"
  by (simp add: opened_js_def opened_one_def link_bufs_frame)

lemma complete_opens_any:
  assumes "reg_ok env" and "\<forall>i<n. tolerated (res i)" and "distinct (map fst cs)"
    and "\<forall>(i, r)\<in>set cs. i < n \<and> r = res i" and "D = {..<n} - fst ` set cs" and "cs \<noteq> []"
    and "n_journals j = n" and "n_opened j = card D" and "js j = opened_js res D jrs" and "length jrs = n"
  shows "complete_opens env cs j = (denied_lines (map j_name jrs) cs, Ok (j\<lparr>n_opened := n,
      js := number_bufs (number_journals (opened_js res {..<n} jrs))\<rparr>, replicate (length cs - 1) False @ [True]))"
  using assms(3-9)
proof (induction cs arbitrary: j D)
  case Nil
  then show ?case by simp
next
  case (Cons c cs)
  obtain i where c: "c = (i, res i)" and i: "i < n" using Cons.prems(2) by (cases c) auto
  have notin: "i \<notin> D" and D: "insert i D = {..<n} - fst ` set cs"
    using Cons.prems(1,2,3) c i by auto
  have "finite D" using Cons.prems(3) by simp
  then have card: "card (insert i D) = Suc (card D)" using notin by simp
  have step: "(js j)[i := opened_one (res i) (js j ! i)] = opened_js res (insert i D) jrs"
    using opened_js_step [OF notin, of jrs res] i assms(10) Cons.prems(7) by simp
  have tol: "\<not> (res i < 0 \<and> res i \<noteq> - EPERM \<and> res i \<noteq> - EACCES)"
    using assms(2) i by (auto simp: tolerated_def)
  let ?j = "j\<lparr>n_opened := Suc (card D), js := opened_js res (insert i D) jrs\<rparr>"
  let ?err = "if res i < 0 then denied_line (map j_name jrs ! i) else []"
  have name: "j_name (js j ! i) = map j_name jrs ! i"
    using opened_js_name [OF assms(10) i] Cons.prems(7) i assms(10) by simp
  show ?case
  proof (cases cs)
    case Nil
    then have all: "insert i D = {..<n}" using D by simp
    then have "Suc (card D) = n" using card by simp
    then have "opened_journal env (res i) i j = (?err, Ok (j\<lparr>n_opened := n,
        js := number_bufs (number_journals (opened_js res {..<n} jrs))\<rparr>, True))"
      using tol step all Cons.prems(5,6) assms(1) name
      by (simp add: opened_journal_def Let_def reg_ok_def not_less)
    then show ?thesis using c Nil by simp
  next
    case (Cons c' cs')
    then have "card (insert i D) < n"
      using D Cons.prems(1,2) psubset_card_mono [of "{..<n}" "insert i D"] by (cases c') auto
    then have "opened_journal env (res i) i j = (?err, Ok (?j, False))"
      using tol step card Cons.prems(5,6) name by (simp add: opened_journal_def Let_def)
    moreover have "complete_opens env cs ?j = (denied_lines (map j_name jrs) cs, Ok (?j\<lparr>n_opened := n,
        js := number_bufs (number_journals (opened_js res {..<n} jrs))\<rparr>, replicate (length cs - 1) False @ [True]))"
      by (rule Cons.IH [OF _ _ D]) (use Cons.prems Cons card in auto)
    ultimately show ?thesis using c Cons by simp
  qed
qed


lemma lseg_cong:
  assumes "length bs = length bs'"
    and "\<And>x. x < length bs \<Longrightarrow> lru_prev (bs ! x) = lru_prev (bs' ! x) \<and> lru_next (bs ! x) = lru_next (bs' ! x)"
  shows "lseg bs p xs n = lseg bs' p xs n"
  using assms by (induction xs arbitrary: p) auto

lemma coherent_number_bufs:
  assumes "coherent content jr"
  shows "coherent content (jr\<lparr>bufs := map (\<lambda>k. (bufs jr ! k)\<lparr>b_idx := g k\<rparr>) [0..<JOURNAL_BUF_CNT]\<rparr>)"
proof -
  let ?bs = "map (\<lambda>k. (bufs jr ! k)\<lparr>b_idx := g k\<rparr>) [0..<JOURNAL_BUF_CNT]"
  have len: "length (bufs jr) = JOURNAL_BUF_CNT" using assms by (simp add: coherent_def)
  have "lseg ?bs p xs n = lseg (bufs jr) p xs n" for p xs n
    by (rule lseg_cong) (simp_all add: len)
  then have "lru_list (jr\<lparr>bufs := ?bs\<rparr>) xs = lru_list jr xs" for xs
    by (simp add: lru_list_def)
  moreover have "list_all (holds content) ?bs"
    using assms len by (simp add: coherent_def list_all_length holds_def)
  ultimately show ?thesis
    using assms by (simp add: coherent_def)
qed

section \<open>Properties\<close>

text \<open>The journals once all opens have completed with the results \<open>res\<close>.\<close>

definition opened_journals :: "string list \<Rightarrow> (nat \<Rightarrow> int) \<Rightarrow> journal list" where
  "opened_journals names res =
     number_bufs (number_journals (opened_js res {..<length names} (map calloc_journal names)))"

lemma opened_journals_complete:
  assumes "reg_ok env" and "\<forall>i<length names. tolerated (res i)" and "distinct (map fst cs)"
    and "fst ` set cs = {..<length names}" and "\<forall>(i, r)\<in>set cs. r = res i" and "names \<noteq> []"
    and "n_journals j = length names" and "n_opened j = 0" and "js j = map calloc_journal names"
  shows "complete_opens env cs j = (denied_lines names cs,
    Ok (j\<lparr>n_opened := length names, js := opened_journals names res\<rparr>, replicate (length names - 1) False @ [True]))"
proof -
  have len: "length cs = length names"
    using distinct_card [OF assms(3)] assms(4) by simp
  have "cs \<noteq> []" using len assms(6) by auto
  moreover have "\<forall>(i, r)\<in>set cs. i < length names \<and> r = res i"
    using assms(4,5) by (auto simp: image_iff set_eq_iff) force
  moreover have "{} = {..<length names} - fst ` set cs" using assms(4) by simp
  moreover have "js j = opened_js res {} (map calloc_journal names)"
    using assms(9) map_nth [of "map calloc_journal names"] by (simp add: opened_js_def)
  ultimately show ?thesis
    using complete_opens_any [OF assms(1,2,3), of "{}" j "map calloc_journal names"] assms(7,8) len
    by (simp add: opened_journals_def comp_def calloc_journal_def)
qed

lemma opened_journals_nth:
  assumes "i < length names"
  shows "j_name (opened_journals names res ! i) = names ! i \<and> j_idx (opened_journals names res ! i) = i \<and>
    j_fd (opened_journals names res ! i) = (if res i < 0 then - 1 else res i) \<and>
    (\<forall>k<JOURNAL_BUF_CNT. b_idx (bufs (opened_journals names res ! i) ! k) = i * JOURNAL_BUF_CNT + k) \<and>
    (0 \<le> res i \<longrightarrow> (\<forall>content. coherent content (opened_journals names res ! i)))"
proof -
  let ?jr = "(opened_one (res i) (calloc_journal (names ! i)))\<lparr>j_idx := i\<rparr>"
  have eq: "opened_journals names res ! i = ?jr\<lparr>bufs := map (\<lambda>k. (bufs ?jr ! k)\<lparr>b_idx := i * JOURNAL_BUF_CNT + k\<rparr>)
      [0..<JOURNAL_BUF_CNT]\<rparr>"
    using assms by (simp add: opened_journals_def number_bufs_def number_journals_def opened_js_def)
  have "coherent content ?jr" if "0 \<le> res i" for content
    using that link_bufs_coherent [of content "names ! i"]
    by (simp add: opened_one_def coherent_j_idx)
  then show ?thesis
    unfolding eq using coherent_number_bufs [of _ ?jr]
    by (auto simp: opened_one_def link_bufs_frame) (simp_all add: calloc_journal_def)
qed

lemma length_opened_journals [simp]: "length (opened_journals names res) = length names"
  by (simp add: opened_journals_def number_bufs_def number_journals_def opened_js_def)

text \<open>C19: Once the opens of all journals have completed, in whatever order, each with a descriptor or
  a permission error, the closure has been dispatched exactly once, by the last completion; each
  journal then has its own name, its descriptor or -1, its registered index, buffers with their
  own registered indices, and, when it is open, coherent empty buffers linked for reading.  On standard
  error is a line for each journal that was refused, in the order of the completions.\<close>

theorem opens_complete_in_any_order:
  assumes "reg_ok env" and "\<forall>i<n. tolerated (res i)" and "distinct (map fst cs)"
    and "fst ` set cs = {..<n}" and "\<forall>(i, r)\<in>set cs. r = res i" and "0 < n" and "length names = n"
    and "n_journals j = n" and "n_opened j = 0" and "js j = map calloc_journal names"
  shows "\<exists>j'. complete_opens env cs j = (denied_lines names cs, Ok (j', replicate (n - 1) False @ [True])) \<and>
    (\<forall>i<n. j_name (js j' ! i) = names ! i \<and> j_idx (js j' ! i) = i \<and>
       j_fd (js j' ! i) = (if res i < 0 then - 1 else res i) \<and>
       (\<forall>k<JOURNAL_BUF_CNT. b_idx (bufs (js j' ! i) ! k) = i * JOURNAL_BUF_CNT + k) \<and>
       (0 \<le> res i \<longrightarrow> (\<forall>content. coherent content (js j' ! i))))"
proof -
  have "complete_opens env cs j = (denied_lines names cs,
      Ok (j\<lparr>n_opened := n, js := opened_journals names res\<rparr>, replicate (n - 1) False @ [True]))"
    using opened_journals_complete [of env names res cs j] assms by auto
  then show ?thesis using opened_journals_nth [of _ names res] assms(7) by simp
qed

theorem opens_complete_in_any_order_witness:
  "\<exists>j'. complete_opens \<lparr>re_malloc_fds = True, re_register_files = \<lambda>fds. 0, re_malloc_bufs = True,
      re_register_buffers = \<lambda>n. 0\<rparr> [(1, - EACCES), (0, 5)]
      \<lparr>dirfd = 3, n_journals = 2, n_allocated = 2, n_opened = 0, js = map calloc_journal [''a'', ''b'']\<rparr>
    = (''Permission denied opening '' @ [CHR 0x22, CHR ''b'', CHR 0x22] @ '', ignoring'' @ newline, Ok (j', [False, True])) \<and> j_fd (js j' ! 0) = 5 \<and> j_fd (js j' ! 1) = - 1"
proof -
  have "\<exists>j'. complete_opens \<lparr>re_malloc_fds = True, re_register_files = \<lambda>fds. 0, re_malloc_bufs = True,
      re_register_buffers = \<lambda>n. 0\<rparr> [(1, - EACCES), (0, 5)]
      \<lparr>dirfd = 3, n_journals = 2, n_allocated = 2, n_opened = 0, js = map calloc_journal [''a'', ''b'']\<rparr>
      = (denied_lines [''a'', ''b''] [(1, - EACCES), (0, 5)], Ok (j', replicate (2 - 1) False @ [True])) \<and>
    (\<forall>i<2. j_name (js j' ! i) = [''a'', ''b''] ! i \<and> j_idx (js j' ! i) = i \<and>
       j_fd (js j' ! i) = (if (if i = 0 then 5 else - EACCES) < 0 then - 1 else (if i = 0 then 5 else - EACCES)) \<and>
       (\<forall>k<JOURNAL_BUF_CNT. b_idx (bufs (js j' ! i) ! k) = i * JOURNAL_BUF_CNT + k) \<and>
       (0 \<le> (if i = 0 then 5 else - EACCES) \<longrightarrow> (\<forall>content. coherent content (js j' ! i))))"
    by (rule opens_complete_in_any_order) (auto simp: reg_ok_def tolerated_def)
  moreover have "denied_lines [''a'', ''b''] [(1, - EACCES), (0, 5)] =
      ''Permission denied opening '' @ [CHR 0x22, CHR ''b'', CHR 0x22] @ '', ignoring'' @ newline"
    by (simp add: denied_line_def EACCES_def)
  ultimately show ?thesis by (force simp: EACCES_def)
qed

lemma get_journals_listing:
  assumes "0 \<le> result" and "de_fdopendir env = None" and "de_second env = de_first env"
    and "names = filter (\<lambda>d. \<not> dot_entry d) (de_first env)" and "names \<noteq> []"
    and "de_calloc env" and "0 \<le> de_resize env" and "\<forall>i. de_op_new env i"
  shows "get_journals result env flags = Ok (0, Some
    (\<lparr>dirfd = de_dup env, n_journals = length names, n_allocated = length names, n_opened = 0,
      js = map calloc_journal names\<rparr>,
     map (\<lambda>name. \<lparr>at_fd = de_dup env, at_path = name, at_flags = flags\<rparr>) names))"
proof -
  let ?j = "\<lparr>dirfd = 0, n_journals = 0, n_allocated = length names, n_opened = 0,
      js = replicate (length names) (calloc_journal '''')\<rparr>"
  have store: "store_entries (de_first env) ?j =
      Ok (?j\<lparr>js := map calloc_journal names, n_journals := length names\<rparr>)"
    using store_entries_eq [of ?j "[]" "length names" "de_first env"] assms(4) by simp
  have open_all: "queue_opens (de_op_new env) j flags [0..<length names] =
      Ok (map (\<lambda>i. \<lparr>at_fd = dirfd j, at_path = j_name (js j ! i), at_flags = flags\<rparr>) [0..<length names])" for j
    by (rule queue_opens_eq) (use assms(8) in simp)
  have reqs: "map (\<lambda>i. \<lparr>at_fd = d, at_path = j_name (map calloc_journal names ! i), at_flags = flags\<rparr>)
      [0..<length names] = map (\<lambda>name. \<lparr>at_fd = d, at_path = name, at_flags = flags\<rparr>) names" for d
    by (rule nth_equalityI) (simp_all add: calloc_journal_def)
  show ?thesis
    using assms store open_all reqs
    by (simp add: get_journals_def Let_def count_entries_eq)
qed

text \<open>C28: For a directory that does not change between the two passes, \<open>get_journals\<close> stores one journal
  for each entry that does not begin with a dot, in the directory's order and with nothing opened
  yet, and queues one open for each, relative to the duplicated directory descriptor.\<close>

theorem get_journals_lists_directory:
  assumes "0 \<le> result" and "de_fdopendir env = None" and "de_second env = de_first env"
    and "names = filter (\<lambda>d. \<not> dot_entry d) (de_first env)" and "names \<noteq> []"
    and "de_calloc env" and "0 \<le> de_resize env" and "\<forall>i. de_op_new env i"
  shows "get_journals result env flags = Ok (0, Some
    (\<lparr>dirfd = de_dup env, n_journals = length names, n_allocated = length names, n_opened = 0,
      js = map calloc_journal names\<rparr>,
     map (\<lambda>name. \<lparr>at_fd = de_dup env, at_path = name, at_flags = flags\<rparr>) names))"
  by (rule get_journals_listing [OF assms])

definition var_dir :: dir_env where
  "var_dir = \<lparr>de_fdopendir = None, de_first = [''.'', ''..'', ''system.journal'', ''.x'', ''user.journal''],
     de_second = [''.'', ''..'', ''system.journal'', ''.x'', ''user.journal''],
     de_calloc = True, de_dup = 7, de_resize = 0, de_op_new = \<lambda>i. True\<rparr>"

theorem get_journals_lists_directory_witness:
  "\<exists>reqs. get_journals 4 var_dir 0 = Ok (0, Some
    (\<lparr>dirfd = 7, n_journals = 2, n_allocated = 2, n_opened = 0,
      js = map calloc_journal [''system.journal'', ''user.journal'']\<rparr>, reqs))"
  using get_journals_lists_directory [of 4 var_dir "[''system.journal'', ''user.journal'']" 0]
  by (simp add: var_dir_def dot_entry_def)

text \<open>If entries appear in the directory between the two passes, the second pass writes a name
  past the end of the allocated journals: the assertion on the count comes only after the store.\<close>

lemma growing_directory_overruns:
  assumes "0 \<le> result" and "de_fdopendir env = None" and "de_calloc env"
    and "0 < length (filter (\<lambda>d. \<not> dot_entry d) (de_first env))"
    and "length (filter (\<lambda>d. \<not> dot_entry d) (de_first env))
      < length (filter (\<lambda>d. \<not> dot_entry d) (de_second env))"
  shows "get_journals result env flags = Fail OutOfBounds"
proof -
  let ?m = "length (filter (\<lambda>d. \<not> dot_entry d) (de_first env))"
  let ?j = "\<lparr>dirfd = 0, n_journals = 0, n_allocated = ?m, n_opened = 0,
      js = replicate ?m (calloc_journal '''')\<rparr>"
  have "store_entries (de_second env) ?j = Fail OutOfBounds"
    by (rule store_entries_overrun [of _ "[]" ?m]) (use assms(5) in simp_all)
  then show ?thesis
    using assms by (simp add: get_journals_def Let_def count_entries_eq)
qed

lemma growing_directory_overruns_witness:
  "get_journals 4 (var_dir\<lparr>de_second := [''system.journal'', ''user.journal'', ''user-1.journal'']\<rparr>) 0
    = Fail OutOfBounds"
  by (rule growing_directory_overruns) (simp_all add: var_dir_def dot_entry_def)

text \<open>A failure of \<open>fdopendir\<close>, and a directory without journals, make \<open>get_journals\<close> return a value
  that is not negative with no journals stored and nothing queued: the caller sees success, and
  the closure that waits for the journals is never dispatched.\<close>

lemma directory_failure_looks_like_success:
  assumes "0 \<le> result" and "de_fdopendir env = Some e \<and> 0 < e \<or>
      de_fdopendir env = None \<and> (\<forall>d\<in>set (de_first env). dot_entry d)"
  shows "\<exists>r\<ge>0. get_journals result env flags = Ok (r, None)"
  using assms by (auto simp: get_journals_def Let_def count_entries_eq)

lemma directory_failure_looks_like_success_witness:
  "\<exists>r\<ge>0. get_journals 4 (var_dir\<lparr>de_fdopendir := Some ENOMEM\<rparr>) 0 = Ok (r, None)"
  by (rule directory_failure_looks_like_success [where e = ENOMEM]) (simp_all add: ENOMEM_def)

lemma journals_for_each_filter:
  "journals_for_each j closure s =
     dispatch_all closure (filter (\<lambda>jr. 0 \<le> j_fd jr) (take (n_journals j) (js j))) s"
proof -
  have "for_each_journal closure jrs s = dispatch_all closure (filter (\<lambda>jr. 0 \<le> j_fd jr) jrs) s" for jrs
  proof (induction jrs arbitrary: s)
    case (Cons jr jrs)
    then show ?case by (cases "closure jr s") auto
  qed simp
  then show ?thesis by (simp add: journals_for_each_def)
qed

text \<open>\<open>journals_for_each\<close> dispatches the closure for the journals that were opened, each once and in
  their order, skips those whose open was refused, and stops at the closure's first failure.\<close>

lemma journals_for_each_open_ones:
  "journals_for_each j closure s =
     dispatch_all closure (filter (\<lambda>jr. 0 \<le> j_fd jr) (take (n_journals j) (js j))) s"
  by (rule journals_for_each_filter)

end
