(* ===== verification/Report_Run.thy ===== *)
theory Report_Run
  imports Journal_Open Humane "HOL-Library.Multiset"
begin

text \<open>
  What the subcommands share: a journal's header is loaded and a closure is dispatched for its
  objects, and a value is printed.  A locale states when a closure never fails along a list of
  objects, so that a whole iteration is a fold; the closures of the reports are shown to be such.
\<close>

section \<open>Header first, then the objects\<close>

text \<open>
  \<open>journal_get_header\<close> with \<open>journal_iter_objects\<close> as its closure, as the \<open>per_journal\<close> thunks
  chain them; \<open>it\<close> is what the allocated iterator holds.
\<close>

definition header_then_objects ::
  "'j reader \<Rightarrow> bool \<Rightarrow> (iter, 's) closure \<Rightarrow> iter \<Rightarrow> 'j \<Rightarrow> 's \<Rightarrow> (iter \<times> 'j \<times> 's) res option" where
  "header_then_objects rd be closure it j s =
     (case journal_get_header rd be j of
        Fail e \<Rightarrow> Some (Fail e)
      | Ok (header, j') \<Rightarrow> journal_iter_objects rd be header closure it j' s)"

text \<open>\<open>journal_get_header\<close> with \<open>journal_get_object_header\<close> of the tail object as its closure.\<close>

definition header_then_tail ::
  "'j reader \<Rightarrow> bool \<Rightarrow> 'j \<Rightarrow> ((Header \<times> ObjectHeader) \<times> 'j) res" where
  "header_then_tail rd be j =
     res_bind (journal_get_header rd be j) (\<lambda>(header, j').
       res_map (\<lambda>(h, j''). ((header, h), j'')) (journal_get_object_header rd be (tail_object_offset header) j'))"

definition file_header :: "bytes \<Rightarrow> Header" where
  "file_header content = parse_header (segment 0 sizeof_Header content)"

text \<open>A file with a whole header and a chain of objects from its end to the tail object.\<close>

definition journal_file :: "bytes \<Rightarrow> (u64 \<times> ObjectHeader) list \<Rightarrow> bool" where
  "journal_file content objs \<longleftrightarrow> sizeof_Header \<le> length content \<and>
     object_chain content (header_size (file_header content)) (tail_object_offset (file_header content)) objs"

context complete_reader
begin

lemma get_header:
  assumes "inv j" and "sizeof_Header \<le> length content"
  obtains j' where "journal_get_header rd be j = Ok (file_header content, j')" and "inv j'"
proof -
  obtain j' where "rd j 0 256 = Ok (segment (unat (0 :: u64)) 256 content, j')" "inv j'"
    by (rule rd_in_range [OF assms(1), of 256 0])
      (use assms(2) in \<open>simp_all add: sizeof_Header_def max_rw_count_def\<close>)
  then show ?thesis
    using that [of j'] assms(2) got_header_parse [of "segment 0 256 content" be]
    by (simp add: journal_get_header_def file_header_def sizeof_Header_def)
qed

lemma header_then_objects_visits:
  assumes "inv j" and "journal_file content objs"
  shows "\<exists>it' j'. inv j' \<and> it_offset it' = 0 \<and>
    header_then_objects rd be closure it j s =
      Some (res_map (\<lambda>s'. (it', j', s')) (dispatch_all closure (visits (it_header it) objs) s))"
proof -
  obtain j1 where j1: "journal_get_header rd be j = Ok (file_header content, j1)" "inv j1"
    using get_header [OF assms(1)] assms(2) unfolding journal_file_def by blast
  have "object_chain content (header_size (file_header content)) (tail_object_offset (file_header content)) objs"
    using assms(2) by (simp add: journal_file_def)
  from iter_objects_visits [OF j1(2) this] j1(1) show ?thesis
    by (simp add: header_then_objects_def)
qed

lemma header_then_tail_reads:
  assumes "inv j" and "sizeof_Header \<le> length content"
    and "unat (tail_object_offset (file_header content)) + sizeof_ObjectHeader \<le> length content"
  obtains j' where "inv j'" and "header_then_tail rd be j =
    Ok ((file_header content, header_at content (tail_object_offset (file_header content))), j')"
proof -
  let ?off = "tail_object_offset (file_header content)"
  obtain j1 where j1: "journal_get_header rd be j = Ok (file_header content, j1)" "inv j1"
    by (rule get_header [OF assms(1,2)])
  obtain j' where j': "rd j1 ?off 16 = Ok (segment (unat ?off) 16 content, j')" "inv j'"
    by (rule rd_in_range [OF j1(2), of 16 ?off])
      (use assms(3) in \<open>simp_all add: sizeof_ObjectHeader_def max_rw_count_def\<close>)
  show ?thesis
    by (rule that [OF j'(2)])
      (use j1(1) j'(1) assms(3) got_object_header_parse [of "segment (unat ?off) 16 content" be]
        in \<open>simp add: header_then_tail_def journal_get_object_header_def header_at_def sizeof_ObjectHeader_def\<close>)
qed

end

definition object_iters :: "(u64 \<times> ObjectHeader) list \<Rightarrow> iter list" where
  "object_iters objs = map (\<lambda>(off, h). \<lparr>it_offset = off, it_header = h\<rparr>) objs"

lemma visits_split: "visits h0 objs =
  object_iters objs @ [\<lparr>it_offset = 0, it_header = if objs = [] then h0 else snd (List.last objs)\<rparr>]"
  unfolding object_iters_def by (induction h0 objs rule: visits.induct) auto

text \<open>The objects of a chain are not at offset 0.\<close>

lemma object_chain_offsets: "object_chain content off tail objs \<Longrightarrow> \<forall>i\<in>set (object_iters objs). it_offset i \<noteq> 0"
  unfolding object_iters_def by (induction content off tail objs rule: object_chain.induct) auto

text \<open>A journal of 296 bytes whose header describes two objects.\<close>

definition sample_journal :: bytes where
  "sample_journal = replicate 88 0 @ [0, 1, 0, 0, 0, 0, 0, 0] @ replicate 40 0 @ [24, 1, 0, 0, 0, 0, 0, 0] @
     replicate 112 0 @ drop 256 two_objects"

lemma length_sample_journal: "length sample_journal = 296"
  by (simp add: sample_journal_def two_objects_def)

lemma sample_journal_header:
  "header_size (file_header sample_journal) = 256" "tail_object_offset (file_header sample_journal) = 280"
  by (simp_all add: file_header_def parse_header_def header_with_def sample_journal_def segment_def
    le64_at_def sizeof_Header_def)

lemma sample_journal_file: "journal_file sample_journal two_objects_list"
  by (simp add: journal_file_def length_sample_journal sample_journal_header sizeof_Header_def
    two_objects_list_def sizeof_ObjectHeader_def)
    (simp add: sample_journal_def two_objects_def segment_def parse_object_header_def le64_at_def ALIGN64_def)

section \<open>Closures that do not fail\<close>

locale total_closure =
  fixes closure :: "('i, 's) closure"
    and admits :: "'i \<Rightarrow> bool"
    and good :: "'s \<Rightarrow> bool"
    and effect :: "'i \<Rightarrow> 's \<Rightarrow> 's"
  assumes closure_ok: "admits i \<Longrightarrow> good s \<Longrightarrow> closure i s = Ok (effect i s)"
    and good_effect: "admits i \<Longrightarrow> good s \<Longrightarrow> good (effect i s)"
begin

lemma dispatch_all_fold:
  assumes "\<forall>i\<in>set is. admits i" and "good s"
  shows "dispatch_all closure is s = Ok (fold effect is s)" and "good (fold effect is s)"
proof -
  have "dispatch_all closure is s = Ok (fold effect is s) \<and> good (fold effect is s)"
    using assms by (induction "is" arbitrary: s) (simp_all add: closure_ok good_effect)
  then show "dispatch_all closure is s = Ok (fold effect is s)" and "good (fold effect is s)"
    by blast+
qed

end

text \<open>Closures that also add up: \<open>adds is s s'\<close> says what the inputs \<open>is\<close> add to \<open>s\<close>.\<close>

locale summing_closure = total_closure closure admits good effect
  for closure :: "('i, 's) closure" and admits :: "'i \<Rightarrow> bool" and good :: "'s \<Rightarrow> bool"
    and effect :: "'i \<Rightarrow> 's \<Rightarrow> 's" +
  fixes adds :: "'i list \<Rightarrow> 's \<Rightarrow> 's \<Rightarrow> bool"
  assumes adds_Nil: "good s \<Longrightarrow> adds [] s s"
    and adds_append: "adds is s s' \<Longrightarrow> adds is' s' s'' \<Longrightarrow> adds (is @ is') s s''"
    and adds_effect: "admits i \<Longrightarrow> good s \<Longrightarrow> adds [i] s (effect i s)"
begin

lemma dispatch_all_adds:
  assumes "\<forall>i\<in>set is. admits i" and "good s"
  obtains s' where "dispatch_all closure is s = Ok s'" and "good s'" and "adds is s s'"
proof -
  have "adds is s (fold effect is s)"
    using assms
  proof (induction "is" arbitrary: s)
    case (Cons i "is")
    have "adds is (effect i s) (fold effect is (effect i s))"
      by (rule Cons.IH) (use Cons.prems good_effect in simp_all)
    then show ?case using adds_append [OF adds_effect, of i s "is"] Cons.prems by simp
  qed (simp add: adds_Nil)
  then show ?thesis using dispatch_all_fold [OF assms] that by blast
qed

end

section \<open>Printing\<close>

text \<open>\<open>%16s\<close>: padded on the left with blanks to a width.\<close>

definition pad_left :: "nat \<Rightarrow> string \<Rightarrow> string" where
  "pad_left w s = replicate (w - length s) (CHR '' '') @ s"

definition tab :: string where "tab = [CHR 0x09]"

fun res_concat :: "string res list \<Rightarrow> string res" where
  "res_concat [] = Ok []"
| "res_concat (r # rs) = res_bind r (\<lambda>s. res_map ((@) s) (res_concat rs))"

lemma res_concat_Ok: "res_concat (map (\<lambda>i. Ok (g i)) xs) = Ok (concat (map g xs))"
  by (induction xs) simp_all

end
