(* ===== verification/Schedule.thy ===== *)
theory Schedule
  imports Report_Run
begin

text \<open>
  Several chains of thunks that go on whenever one of their operations completes, over state that
  they share: any order of steps is a run.  \<open>iou_run\<close> returns when nothing is outstanding any more, or
  with the first failure of a chain.  What the chains do is a parameter; a locale states the law
  that makes every order reach the same end.
\<close>

section \<open>Steps and outcomes\<close>

type_synonym ('p, 't) chain = "'p \<Rightarrow> 't \<Rightarrow> ('p \<times> 't) res"

inductive run_step :: "('p, 't) chain \<Rightarrow> ('p \<Rightarrow> bool) \<Rightarrow> 'p list \<times> 't \<Rightarrow> 'p list \<times> 't \<Rightarrow> bool"
  for step finished where
  proceed: "k < length ps \<Longrightarrow> \<not> finished (ps ! k) \<Longrightarrow> step (ps ! k) t = Ok (p, t') \<Longrightarrow>
     run_step step finished (ps, t) (ps[k := p], t')"

inductive_cases run_stepE: "run_step step finished (ps, t) s"

text \<open>What \<open>iou_run\<close> returns from a state: the state in which all chains have ended, or a failure.\<close>

inductive run_ends :: "('p, 't) chain \<Rightarrow> ('p \<Rightarrow> bool) \<Rightarrow> 'p list \<times> 't \<Rightarrow> ('p list \<times> 't) res \<Rightarrow> bool"
  for step finished where
  all_ended: "\<forall>p\<in>set ps. finished p \<Longrightarrow> run_ends step finished (ps, t) (Ok (ps, t))"
| one_failed: "k < length ps \<Longrightarrow> \<not> finished (ps ! k) \<Longrightarrow> step (ps ! k) t = Fail e \<Longrightarrow>
     run_ends step finished (ps, t) (Fail e)"
| onward: "run_step step finished s s' \<Longrightarrow> run_ends step finished s' r \<Longrightarrow> run_ends step finished s r"

text \<open>The same with what the chains print on standard error, a step of a chain in the state \<open>p\<close> the text \<open>err p\<close>.\<close>

inductive run_prints ::
  "('p, 't) chain \<Rightarrow> ('p \<Rightarrow> bool) \<Rightarrow> ('p \<Rightarrow> string) \<Rightarrow> 'p list \<times> 't \<Rightarrow> ('p list \<times> 't) res \<Rightarrow> string \<Rightarrow> bool"
  for step finished err where
  all_ended: "\<forall>p\<in>set ps. finished p \<Longrightarrow> run_prints step finished err (ps, t) (Ok (ps, t)) []"
| one_failed: "k < length ps \<Longrightarrow> \<not> finished (ps ! k) \<Longrightarrow> step (ps ! k) t = Fail e \<Longrightarrow>
     run_prints step finished err (ps, t) (Fail e) (err (ps ! k))"
| onward: "k < length ps \<Longrightarrow> \<not> finished (ps ! k) \<Longrightarrow> step (ps ! k) t = Ok (p, t') \<Longrightarrow>
     run_prints step finished err (ps[k := p], t') r text \<Longrightarrow>
     run_prints step finished err (ps, t) r (err (ps ! k) @ text)"

lemma run_prints_ends: "run_prints step finished err s r text \<Longrightarrow> run_ends step finished s r"
  by (induction rule: run_prints.induct) (blast intro: run_ends.intros run_step.intros)+

lemma run_ends_prints: "run_ends step finished s r \<Longrightarrow> \<exists>text. run_prints step finished err s r text"
proof (induction rule: run_ends.induct)
  case (onward s s' r)
  then show ?case by (cases rule: run_step.cases) (blast intro: run_prints.onward)
qed (blast intro: run_prints.intros)+

lemma run_prints_none: "run_prints step finished err ([], t) x text \<longleftrightarrow> x = Ok ([], t) \<and> text = []"
proof
  assume "run_prints step finished err ([], t) x text"
  then show "x = Ok ([], t) \<and> text = []" by cases simp_all
qed (auto intro: run_prints.all_ended)

lemma run_prints_silent: "run_prints step finished (\<lambda>p. []) s r text \<Longrightarrow> text = []"
  by (induction rule: run_prints.induct) simp_all

section \<open>The law of a chain\<close>

text \<open>
  \<open>pinv b p l\<close> relates a chain's state to the task \<open>b\<close> it was started for and to a ghost \<open>l\<close> that says how
  far it has come; \<open>tinv gs t\<close> relates the shared state to the tasks and ghosts of all chains.  A step
  keeps both and comes closer to the end, or it fails as \<open>doomed\<close> allows for its task.
\<close>

locale scheduled =
  fixes step :: "('p, 't) chain"
    and finished :: "'p \<Rightarrow> bool"
    and pinv :: "'b \<Rightarrow> 'p \<Rightarrow> 'l \<Rightarrow> bool"
    and tinv :: "('b \<times> 'l) list \<Rightarrow> 't \<Rightarrow> bool"
    and left :: "'p \<Rightarrow> 'l \<Rightarrow> nat"
    and doomed :: "'b \<Rightarrow> fault \<Rightarrow> bool"
  assumes step_law: "k < length gs \<Longrightarrow> gs ! k = (b, l) \<Longrightarrow> pinv b p l \<Longrightarrow> \<not> finished p \<Longrightarrow> tinv gs t \<Longrightarrow>
      (\<exists>p' t' l'. step p t = Ok (p', t') \<and> pinv b p' l' \<and> tinv (gs[k := (b, l')]) t' \<and> left p' l' < left p l) \<or>
      (\<exists>e. step p t = Fail e \<and> doomed b e)"
begin

definition run_inv :: "('b \<times> 'l) list \<Rightarrow> 'p list \<times> 't \<Rightarrow> bool" where
  "run_inv gs s \<longleftrightarrow> list_all2 (\<lambda>g p. pinv (fst g) p (snd g)) gs (fst s) \<and> tinv gs (snd s)"

definition run_left :: "('b \<times> 'l) list \<Rightarrow> 'p list \<Rightarrow> nat" where
  "run_left gs ps = (\<Sum>k<length ps. left (ps ! k) (snd (gs ! k)))"

lemma run_inv_length: "run_inv gs s \<Longrightarrow> length (fst s) = length gs"
  by (auto simp: run_inv_def dest: list_all2_lengthD)

lemma run_inv_step:
  assumes "run_inv gs (ps, t)" and "k < length ps" and "\<not> finished (ps ! k)"
  shows "(\<exists>p t' gs'. step (ps ! k) t = Ok (p, t') \<and> run_inv gs' (ps[k := p], t') \<and> map fst gs' = map fst gs \<and>
      run_left gs' (ps[k := p]) < run_left gs ps) \<or>
    (\<exists>e. step (ps ! k) t = Fail e \<and> (\<exists>b\<in>set (map fst gs). doomed b e))"
proof -
  have len: "length gs = length ps" using run_inv_length [OF assms(1)] by simp
  obtain b l where g: "gs ! k = (b, l)" by (cases "gs ! k")
  have all: "list_all2 (\<lambda>g p. pinv (fst g) p (snd g)) gs ps" and t: "tinv gs t"
    using assms(1) by (simp_all add: run_inv_def)
  have pinv: "pinv b (ps ! k) l" using list_all2_nthD2 [OF all assms(2)] g by simp
  have k: "k < length gs" using assms(2) len by simp
  have b: "b \<in> set (map fst gs)" using nth_mem [OF k] g by force
  from step_law [OF k g pinv assms(3) t] show ?thesis
  proof
    assume "\<exists>p' t' l'. step (ps ! k) t = Ok (p', t') \<and> pinv b p' l' \<and> tinv (gs[k := (b, l')]) t' \<and>
        left p' l' < left (ps ! k) l"
    then obtain p t' l' where st: "step (ps ! k) t = Ok (p, t')" "pinv b p l'" "tinv (gs[k := (b, l')]) t'"
      "left p l' < left (ps ! k) l" by blast
    let ?gs = "gs[k := (b, l')]"
    have "list_all2 (\<lambda>g p. pinv (fst g) p (snd g)) ?gs (ps[k := p])"
      by (rule list_all2_update_cong [OF all]) (use st(2) in simp)
    moreover have "map fst ?gs = map fst gs" using k g by (simp add: map_update list_update_same_conv)
    moreover have "run_left ?gs (ps[k := p]) < run_left gs ps"
      unfolding run_left_def length_list_update
      by (rule sum_strict_mono_ex1)
        (use st(4) assms(2) len g in \<open>auto simp: nth_list_update intro!: bexI [of _ k]\<close>)
    ultimately show ?thesis using st(1,3) by (auto simp: run_inv_def)
  qed (use b in blast)
qed

lemma run_step_inv:
  assumes "run_step step finished s s'" and "run_inv gs s"
  obtains gs' where "run_inv gs' s'" and "map fst gs' = map fst gs" and "run_left gs' (fst s') < run_left gs (fst s)"
proof -
  obtain ps t where s: "s = (ps, t)" by (cases s)
  from assms(1)[unfolded s] obtain k p t' where st: "k < length ps" "\<not> finished (ps ! k)"
    "step (ps ! k) t = Ok (p, t')" "s' = (ps[k := p], t')"
    by (auto elim: run_stepE)
  from run_inv_step [OF assms(2)[unfolded s] st(1,2)] st(3,4) s that show ?thesis by auto
qed

text \<open>No run is longer than what is left at its start.\<close>

lemma runs:
  assumes "(run_step step finished ^^ m) s s'" and "run_inv gs s"
  obtains gs' where "run_inv gs' s'" and "map fst gs' = map fst gs"
    and "m + run_left gs' (fst s') \<le> run_left gs (fst s)"
proof -
  have "\<exists>gs'. run_inv gs' s' \<and> map fst gs' = map fst gs \<and> m + run_left gs' (fst s') \<le> run_left gs (fst s)"
    using assms(1)
  proof (induction m arbitrary: s')
    case (Suc m)
    from Suc.prems obtain u where u: "(run_step step finished ^^ m) s u" "run_step step finished u s'" by auto
    obtain gs1 where 1: "run_inv gs1 u" "map fst gs1 = map fst gs" "m + run_left gs1 (fst u) \<le> run_left gs (fst s)"
      using Suc.IH [OF u(1)] by blast
    show ?case by (rule run_step_inv [OF u(2) 1(1)]) (use 1(2,3) in fastforce)
  qed (use assms(2) in auto)
  then show ?thesis using that by blast
qed

text \<open>Every outcome is the end of all chains or an allowed failure, and there is one.\<close>

lemma outcomes:
  assumes "run_ends step finished s r" and "run_inv gs s"
  shows "(\<exists>ps t gs'. r = Ok (ps, t) \<and> run_inv gs' (ps, t) \<and> map fst gs' = map fst gs \<and> (\<forall>p\<in>set ps. finished p)) \<or>
    (\<exists>e. r = Fail e \<and> (\<exists>b\<in>set (map fst gs). doomed b e))"
  using assms
proof (induction arbitrary: gs rule: run_ends.induct)
  case (all_ended ps t)
  then show ?case by blast
next
  case (one_failed k ps t e)
  from run_inv_step [OF one_failed.prems one_failed.hyps(1,2)] one_failed.hyps(3) show ?case by simp
next
  case (onward s s' r)
  obtain gs' where gs': "run_inv gs' s'" "map fst gs' = map fst gs"
    by (rule run_step_inv [OF onward.hyps(1) onward.prems]) blast
  from onward.IH [OF gs'(1)] gs'(2) show ?case by simp
qed

lemma outcome_exists:
  assumes "run_inv gs s"
  shows "\<exists>r. run_ends step finished s r"
  using assms
proof (induction "run_left gs (fst s)" arbitrary: s gs rule: less_induct)
  case less
  obtain ps t where s: "s = (ps, t)" by (cases s)
  show ?case
  proof (cases "\<forall>p\<in>set ps. finished p")
    case True
    then show ?thesis unfolding s by (blast intro: run_ends.all_ended)
  next
    case False
    then obtain k where k: "k < length ps" "\<not> finished (ps ! k)" by (auto simp: in_set_conv_nth)
    from run_inv_step [OF less.prems[unfolded s] k] show ?thesis
    proof
      assume "\<exists>p t' gs'. step (ps ! k) t = Ok (p, t') \<and> run_inv gs' (ps[k := p], t') \<and> map fst gs' = map fst gs \<and>
          run_left gs' (ps[k := p]) < run_left gs ps"
      then obtain p t' gs' where st: "step (ps ! k) t = Ok (p, t')" "run_inv gs' (ps[k := p], t')"
        "run_left gs' (ps[k := p]) < run_left gs ps" by blast
      have "run_step step finished s (ps[k := p], t')" unfolding s by (rule run_step.proceed) (use k st(1) in simp_all)
      moreover have "\<exists>r. run_ends step finished (ps[k := p], t') r"
        by (rule less.hyps [OF _ st(2)]) (use st(3) s in simp)
      ultimately show ?thesis by (blast intro: run_ends.onward)
    qed (use k s in \<open>blast intro: run_ends.one_failed\<close>)
  qed
qed

text \<open>If no chain prints as long as it keeps its invariant, neither does a run.\<close>

lemma prints_nothing:
  assumes "run_prints step finished err s r text" and "run_inv gs s"
    and quiet: "\<And>b p l. pinv b p l \<Longrightarrow> \<not> finished p \<Longrightarrow> err p = []"
  shows "text = []"
  using assms(1,2)
proof (induction arbitrary: gs rule: run_prints.induct)
  case (one_failed k ps t e)
  have "k < length gs" using run_inv_length [OF one_failed.prems] one_failed.hyps(1) by simp
  then have "pinv (fst (gs ! k)) (ps ! k) (snd (gs ! k))"
    using one_failed.prems one_failed.hyps(1) by (auto simp: run_inv_def list_all2_conv_all_nth)
  then show ?case using quiet one_failed.hyps(2) by blast
next
  case (onward k ps t p t' r out)
  have "k < length gs" using run_inv_length [OF onward.prems] onward.hyps(1) by simp
  then have "pinv (fst (gs ! k)) (ps ! k) (snd (gs ! k))"
    using onward.prems onward.hyps(1) by (auto simp: run_inv_def list_all2_conv_all_nth)
  then have "err (ps ! k) = []" using quiet onward.hyps(2) by blast
  moreover obtain gs' where "run_inv gs' (ps[k := p], t')"
    using run_inv_step [OF onward.prems onward.hyps(1,2)] onward.hyps(3) by auto
  ultimately show ?case using onward.IH by simp
qed simp

lemma not_stuck:
  assumes "run_inv gs (ps, t)" and "k < length ps" and "\<not> finished (ps ! k)" and "\<forall>b\<in>set (map fst gs). \<forall>e. \<not> doomed b e"
  shows "\<exists>p t'. step (ps ! k) t = Ok (p, t')"
  using run_inv_step [OF assms(1-3)] assms(4) by blast

end

end
