(* ===== verification/Journal_Chain.thy ===== *)
theory Journal_Chain
  imports Schedule
begin

text \<open>
  A journal's chain of thunks as the subcommands build it, as a machine of four phases: the header is
  loaded, the iterator stepped to the next object, and the thunk of the subcommand dispatched, up to the
  dispatch at offset 0.  A step is one dispatch or one read.  All journals are read through one host,
  each by its registered index; the chains are instances of \<open>Schedule\<close> once the dispatches of the
  subcommand keep the invariants it states.
\<close>

section \<open>Several files behind one host\<close>

text \<open>The host as far as one registered file goes.\<close>

definition only_file :: "nat \<Rightarrow> host \<Rightarrow> host" where
  "only_file i h = h\<lparr>host_kread := (\<lambda>f. host_kread h i)\<rparr>"

lemma only_file_sel [simp]:
  "host_be (only_file i h) = host_be h" "host_op_new (only_file i h) = host_op_new h"
  "host_kread (only_file i h) f = host_kread h i"
  by (simp_all add: only_file_def)

definition identity :: "journal \<Rightarrow> string \<times> int \<times> nat" where
  "identity j = (j_name j, j_fd j, j_idx j)"

lemma identity_upd_buf [simp]: "identity (upd_buf i f j) = identity j"
  by (simp add: identity_def)

lemma journal_read_identity:
  assumes "journal_read op_new j off len = Ok s" and "coherent content j"
  shows "case s of Hit j' bs \<Rightarrow> identity j' = identity j
    | Queued j' p \<Rightarrow> identity j' = identity j \<and> op_file (p_op p) = j_idx j"
  using assms
  by (cases rule: journal_read_Ok_cases) (auto simp: identity_def dest: buf_used_frame)

lemma read_chain_only_file:
  assumes "coherent content j"
  shows "read_chain (only_file (j_idx j) h) j off len = read_chain h j off len"
proof (cases "journal_read (host_op_new h off) j off len")
  case (Ok s)
  then show ?thesis
    using journal_read_identity [OF Ok assms] by (auto simp: read_chain_def split: read_step.splits)
qed (simp add: read_chain_def)

text \<open>Reads change the buffers of a journal, never which journal it is.\<close>

lemma read_identity:
  assumes "read_chain h j off len = Ok (bs, j')"
  shows "identity j' = identity j"
proof -
  have used: "identity k' = identity k" if "buf_used k i = Ok k'" for k k' i
    using buf_used_frame [OF that] by (simp add: identity_def)
  have read: "case s of Hit k' bs \<Rightarrow> identity k' = identity k | Queued k' p \<Rightarrow> identity k' = identity k"
    if "journal_read new k off len = Ok s" for new k s
    using that by (auto simp: journal_read_def Let_def res_bind_Ok_iff split: if_splits option.splits dest!: used)
  have got: "identity k' = identity k" if "buf_got_read r p dest k = Ok (bs, k')" for r p dest k k'
    using that by (auto simp: buf_got_read_def res_elims split: if_splits option.splits)
  have fill: "identity (kernel_fill op bs k) = identity k" for op bs k
    by (simp add: kernel_fill_def split: read_op.split)
  obtain s where s: "journal_read (host_op_new h off) j off len = Ok s"
    using assms by (auto simp: read_chain_def res_bind_Ok_iff)
  show ?thesis
    using assms s read [OF s] by (auto simp: read_chain_def fill split: read_step.splits prod.splits dest!: got)
qed

lemma get_header_identity: "journal_get_header (read_chain h) be j = Ok (header, j') \<Longrightarrow> identity j' = identity j"
  by (auto simp: journal_get_header_def res_map_Ok_iff dest: read_identity)

lemma next_object_identity: "journal_iter_next_object (read_chain h) be header it j = Ok (it', j') \<Longrightarrow> identity j' = identity j"
  by (auto simp: journal_iter_next_object_def Let_def res_map_Ok_iff split: if_splits dest: read_identity)

lemma get_object_identity: "journal_get_object (read_chain h) be off sz dest j = Ok (bs, j') \<Longrightarrow> identity j' = identity j"
  by (auto simp: journal_get_object_def res_elims split: if_splits dest: read_identity)

lemma get_object_header_identity: "journal_get_object_header (read_chain h) be off j = Ok (oh, j') \<Longrightarrow> identity j' = identity j"
  by (auto simp: journal_get_object_header_def res_map_Ok_iff dest: read_identity)

text \<open>A journal that is \<open>b\<close> up to its buffers, and whose registered file has this content.\<close>

definition served :: "host \<Rightarrow> bytes \<Rightarrow> journal \<Rightarrow> journal \<Rightarrow> bool" where
  "served h content b j \<longleftrightarrow> identity j = identity b \<and> coherent content j \<and>
     reads_file (only_file (j_idx b) h) content \<and> reads_fully (only_file (j_idx b) h) content"

lemma served_idx: "served h content b j \<Longrightarrow> j_idx j = j_idx b"
  by (simp add: served_def identity_def)

interpretation indexed: complete_reader "read_chain h" "served h content b" content for h content b
proof
  fix j j' :: journal and off len :: u64 and bs
  assume s: "served h content b j" and rd: "read_chain h j off len = Ok (bs, j')"
  then have c: "coherent content j" and f: "reads_file (only_file (j_idx b) h) content"
    by (simp_all add: served_def)
  have "read_chain (only_file (j_idx b) h) j off len = Ok (bs, j')"
    using rd read_chain_only_file [OF c, of h off len] served_idx [OF s] by simp
  from read_chain_sound [OF f c this] read_identity [OF rd] s
  show "bs = segment (unat off) (unat len) content \<and> length bs = unat len \<and> served h content b j'"
    by (auto simp only: served_def)
next
  fix j :: journal and off len :: u64
  assume s: "served h content b j" and len: "len \<noteq> 0" "unat off + unat len \<le> length content" "unat len \<le> max_rw_count"
  then have c: "coherent content j" and f: "reads_file (only_file (j_idx b) h) content"
    "reads_fully (only_file (j_idx b) h) content"
    by (simp_all add: served_def)
  show "\<exists>bs j'. read_chain h j off len = Ok (bs, j')"
    using read_chain_complete [OF f c len] read_chain_only_file [OF c, of h off len] served_idx [OF s] by auto
qed

lemma file_host_served:
  assumes "length content < 2 ^ 63" and "coherent content j"
  shows "served (file_host be content) content j j"
proof -
  have "only_file (j_idx j) (file_host be content) = file_host be content"
    by (simp add: only_file_def file_host_def)
  then show ?thesis
    using file_host_reads [OF assms(1), of be] file_host_fully [of be content] assms(2) by (simp add: served_def)
qed

section \<open>The machine of a journal\<close>

datatype phase =
    Loading_Header \<comment> \<open>\<open>journal_get_header\<close> is queued\<close>
  | Stepping Header \<comment> \<open>before \<open>journal_iter_next_object\<close>\<close>
  | Dispatching Header \<comment> \<open>before the thunk of the subcommand\<close>
  | Finished

record 'p proc =
  pr_phase :: phase
  pr_iter :: iter
  pr_bufs :: journal
  pr_data :: 'p

text \<open>What the thunk does for one object, or at offset 0; a second state is shared by the journals.\<close>

type_synonym ('p, 't) act = "Header \<Rightarrow> iter \<Rightarrow> journal \<Rightarrow> 'p \<Rightarrow> 't \<Rightarrow> (journal \<times> 'p \<times> 't) res"

text \<open>\<open>reset\<close>: \<open>journal_iter_objects\<close> sets the offset to 0 when the header has been read; the thunks that
  step the iterator themselves do not.\<close>

definition chain_step :: "bool \<Rightarrow> ('p, 't) act \<Rightarrow> host \<Rightarrow> ('p proc, 't) chain" where
  "chain_step reset act h p t =
     (case pr_phase p of
        Loading_Header \<Rightarrow>
          res_map (\<lambda>(header, j). (p\<lparr>pr_phase := Stepping header, pr_bufs := j,
              pr_iter := (if reset then (pr_iter p)\<lparr>it_offset := 0\<rparr> else pr_iter p)\<rparr>, t))
            (journal_get_header (read_chain h) (host_be h) (pr_bufs p))
      | Stepping header \<Rightarrow>
          res_map (\<lambda>(it, j). (p\<lparr>pr_phase := Dispatching header, pr_iter := it, pr_bufs := j\<rparr>, t))
            (journal_iter_next_object (read_chain h) (host_be h) header (pr_iter p) (pr_bufs p))
      | Dispatching header \<Rightarrow>
          res_map (\<lambda>(j, d, t'). (p\<lparr>pr_bufs := j, pr_data := d,
              pr_phase := (if it_offset (pr_iter p) = 0 then Finished else Stepping header)\<rparr>, t'))
            (act header (pr_iter p) (pr_bufs p) (pr_data p) t)
      | Finished \<Rightarrow> Ok (p, t))"

definition start_chain :: "iter \<Rightarrow> 'p \<Rightarrow> journal \<Rightarrow> 'p proc" where
  "start_chain it d jr = \<lparr>pr_phase = Loading_Header, pr_iter = it, pr_bufs = jr, pr_data = d\<rparr>"

text \<open>What a step prints on standard error.\<close>

definition chain_prints :: "'p proc \<Rightarrow> string" where
  "chain_prints p = (case pr_phase p of
     Stepping header \<Rightarrow> iter_next_prints (j_name (pr_bufs p)) (pr_iter p) | _ \<Rightarrow> [])"

definition has_finished :: "'p proc \<Rightarrow> bool" where
  "has_finished p \<longleftrightarrow> pr_phase p = Finished"

text \<open>A journal as \<open>per_journal\<close> finds it, with its file, the objects in it and \<open>st_size\<close>; what the
  allocated iterator and record hold is arbitrary.\<close>

record 'p job =
  jb_content :: bytes
  jb_objs :: "(u64 \<times> ObjectHeader) list"
  jb_size :: u64
  jb_iter :: iter
  jb_bufs :: journal
  jb_data :: 'p

definition begin_chain :: "('p job \<Rightarrow> 'q) \<Rightarrow> 'p job \<Rightarrow> 'q proc" where
  "begin_chain init b = start_chain (jb_iter b) (init b) (jb_bufs b)"

definition job_served :: "host \<Rightarrow> 'p job \<Rightarrow> bool" where
  "job_served h b \<longleftrightarrow> served h (jb_content b) (jb_bufs b) (jb_bufs b) \<and> journal_file (jb_content b) (jb_objs b)"

text \<open>The dispatches of a journal: its objects, then the end.\<close>

definition dispatches :: "'p job \<Rightarrow> iter list" where
  "dispatches b = visits (it_header (jb_iter b)) (jb_objs b)"

text \<open>The dispatches of all journals, in no particular order.\<close>

definition all_made :: "('b \<times> iter list) list \<Rightarrow> iter list" where
  "all_made gs = concat (map snd gs)"

lemma all_made_jobs: "all_made (map (\<lambda>b. (b, f b)) jobs) = concat (map f jobs)"
  by (simp add: all_made_def comp_def)

lemma all_made_start [simp]: "all_made (map (\<lambda>b. (b, [])) jobs) = []"
  by (simp add: all_made_jobs)

lemma mset_concat_update:
  "k < length xss \<Longrightarrow> xss ! k = xs \<Longrightarrow> mset (concat (xss[k := xs @ ys])) = mset (concat xss @ ys)"
proof (induction xss arbitrary: k)
  case (Cons zs xss)
  then show ?case by (cases k) auto
qed simp

lemma all_made_step:
  "k < length gs \<Longrightarrow> gs ! k = (b, did) \<Longrightarrow> mset (all_made (gs[k := (b, did @ [it])])) = mset (all_made gs @ [it])"
  using mset_concat_update [of k "map snd gs" did "[it]"] by (simp add: all_made_def map_update)

text \<open>A dispatch is for one of the objects, or the last one, at offset 0.\<close>

lemma dispatches_cases:
  assumes "did @ it # todo = dispatches b" and "journal_file (jb_content b) (jb_objs b)"
  obtains (object) rest where "it_offset it \<noteq> 0" and "did @ it # rest = object_iters (jb_objs b)" and "did @ [it] \<noteq> dispatches b"
  | (at_end) "it_offset it = 0" and "did = object_iters (jb_objs b)" and "did @ [it] = dispatches b"
proof (cases todo rule: rev_cases)
  case Nil
  then have "did = object_iters (jb_objs b)" "it_offset it = 0" using assms(1) by (auto simp: dispatches_def visits_split)
  then show ?thesis using at_end Nil assms(1) by simp
next
  case (snoc rest l)
  then have d: "did @ it # rest = object_iters (jb_objs b)" using assms(1) by (simp add: dispatches_def visits_split)
  have "\<forall>i\<in>set (object_iters (jb_objs b)). it_offset i \<noteq> 0"
    using assms(2) object_chain_offsets by (auto simp: journal_file_def)
  then have "it_offset it \<noteq> 0" unfolding d [symmetric] by simp
  moreover have "did @ [it] \<noteq> did @ it # rest @ [l]" by simp
  then have "did @ [it] \<noteq> dispatches b" unfolding assms(1) [symmetric] snoc .
  ultimately show ?thesis by (rule object [OF _ d])
qed

text \<open>The tasks whose dispatches have all been made.\<close>

definition ended :: "('p job \<times> iter list) list \<Rightarrow> 'p job list" where
  "ended gs = map fst (filter (\<lambda>(b, did). did = dispatches b) gs)"

lemma ended_start [simp]: "ended (map (\<lambda>b. (b, [])) jobs) = []"
  by (induction jobs) (auto simp: ended_def dispatches_def visits_split)

lemma ended_all [simp]: "ended (map (\<lambda>b. (b, dispatches b)) jobs) = jobs"
  by (induction jobs) (auto simp: ended_def)

lemma ended_step:
  "k < length gs \<Longrightarrow> gs ! k = (b, did) \<Longrightarrow> did \<noteq> dispatches b \<Longrightarrow>
     mset (ended (gs[k := (b, did')])) = mset (ended gs) + (if did' = dispatches b then {#b#} else {#})"
proof (induction gs arbitrary: k)
  case (Cons g gs)
  then show ?case by (cases k) (auto simp: ended_def)
qed simp

section \<open>What is left to dispatch\<close>

definition remaining :: "bool \<Rightarrow> bytes \<Rightarrow> (u64 \<times> ObjectHeader) list \<Rightarrow> 'p proc \<Rightarrow> iter list \<Rightarrow> bool" where
  "remaining reset content objs p todo \<longleftrightarrow>
     (let rest = (\<lambda>header r. header = file_header content \<and>
            object_chain content (iter_next_offset header (pr_iter p)) (tail_object_offset header) r \<and>
            (it_offset (pr_iter p) \<noteq> 0 \<longrightarrow> o_size (it_header (pr_iter p)) \<noteq> 0))
      in case pr_phase p of
           Loading_Header \<Rightarrow> (reset \<or> it_offset (pr_iter p) = 0) \<and> todo = visits (it_header (pr_iter p)) objs
         | Stepping header \<Rightarrow> \<exists>r. rest header r \<and> todo = visits (it_header (pr_iter p)) r
         | Dispatching header \<Rightarrow>
             if it_offset (pr_iter p) = 0 then header = file_header content \<and> todo = [pr_iter p]
             else \<exists>r. rest header r \<and> todo = pr_iter p # visits (it_header (pr_iter p)) r
         | Finished \<Rightarrow> todo = [])"

definition steps_left :: "'p proc \<Rightarrow> iter list \<Rightarrow> nat" where
  "steps_left p todo = 2 * length todo +
     (case pr_phase p of Loading_Header \<Rightarrow> 2 | Stepping _ \<Rightarrow> 1 | _ \<Rightarrow> 0)"

text \<open>A step that only reads: what is left to dispatch stays, and so does the state of the thunk.\<close>

definition quiet_step :: "bool \<Rightarrow> ('q, 't) act \<Rightarrow> host \<Rightarrow> 'p job \<Rightarrow> 'q proc \<Rightarrow> iter list \<Rightarrow> 'q proc \<Rightarrow> bool" where
  "quiet_step reset act h b p todo p' \<longleftrightarrow> served h (jb_content b) (jb_bufs b) (pr_bufs p') \<and>
     remaining reset (jb_content b) (jb_objs b) p' todo \<and> steps_left p' todo < steps_left p todo \<and>
     pr_data p' = pr_data p"

lemma load_header_step:
  assumes "served h (jb_content b) (jb_bufs b) (pr_bufs p)" and "pr_phase p = Loading_Header"
    and "journal_file (jb_content b) (jb_objs b)" and "remaining reset (jb_content b) (jb_objs b) p todo"
  shows "\<exists>p'. chain_step reset act h p t = Ok (p', t) \<and> quiet_step reset act h b p todo p'"
proof -
  let ?c = "jb_content b"
  obtain j where j: "journal_get_header (read_chain h) (host_be h) (pr_bufs p) = Ok (file_header ?c, j)"
    "served h ?c (jb_bufs b) j"
    by (rule indexed.get_header [OF assms(1)]) (use assms(3) in \<open>auto simp: journal_file_def\<close>)
  let ?p = "p\<lparr>pr_phase := Stepping (file_header ?c), pr_bufs := j,
    pr_iter := (if reset then (pr_iter p)\<lparr>it_offset := 0\<rparr> else pr_iter p)\<rparr>"
  have "chain_step reset act h p t = Ok (?p, t) \<and> quiet_step reset act h b p todo ?p"
    using assms j
    by (auto simp: quiet_step_def chain_step_def remaining_def steps_left_def journal_file_def iter_next_offset_def)
  then show ?thesis by blast
qed

lemma next_object_step:
  assumes "served h (jb_content b) (jb_bufs b) (pr_bufs p)" and "pr_phase p = Stepping header"
    and "remaining reset (jb_content b) (jb_objs b) p todo"
  shows "\<exists>p'. chain_step reset act h p t = Ok (p', t) \<and> quiet_step reset act h b p todo p'"
proof -
  let ?c = "jb_content b"
  obtain r where r: "header = file_header ?c" "todo = visits (it_header (pr_iter p)) r"
    "object_chain ?c (iter_next_offset header (pr_iter p)) (tail_object_offset header) r"
    using assms(2,3) by (auto simp: remaining_def)
  show ?thesis
  proof (cases r)
    case Nil
    let ?it = "(pr_iter p)\<lparr>it_offset := 0\<rparr>"
    have "journal_iter_next_object (read_chain h) (host_be h) header (pr_iter p) (pr_bufs p) = Ok (?it, pr_bufs p)"
      using r(3) Nil by (simp add: journal_iter_next_object_def Let_def)
    then have "chain_step reset act h p t = Ok (p\<lparr>pr_phase := Dispatching header, pr_iter := ?it\<rparr>, t) \<and>
        quiet_step reset act h b p todo (p\<lparr>pr_phase := Dispatching header, pr_iter := ?it\<rparr>)"
      using assms r Nil by (auto simp: quiet_step_def chain_step_def remaining_def steps_left_def)
    then show ?thesis by blast
  next
    case (Cons ob rest)
    obtain off hd where ob: "ob = (off, hd)" by (cases ob)
    let ?it = "\<lparr>it_offset = off, it_header = hd\<rparr>"
    have off: "iter_next_offset header (pr_iter p) = off" using r(3) Cons ob by simp
    obtain j where j: "served h ?c (jb_bufs b) j"
      "journal_iter_next_object (read_chain h) (host_be h) header (pr_iter p) (pr_bufs p) = Ok (?it, j)"
      by (rule indexed.next_object_reads [OF assms(1), of header "pr_iter p" "host_be h"])
        (use r(3) Cons ob off in \<open>auto simp: header_at_def\<close>)
    have "chain_step reset act h p t = Ok (p\<lparr>pr_phase := Dispatching header, pr_iter := ?it, pr_bufs := j\<rparr>, t) \<and>
        quiet_step reset act h b p todo (p\<lparr>pr_phase := Dispatching header, pr_iter := ?it, pr_bufs := j\<rparr>)"
      using assms r j Cons ob
      by (auto simp: quiet_step_def chain_step_def remaining_def steps_left_def iter_next_offset_def)
    then show ?thesis by blast
  qed
qed

section \<open>Chains whose dispatches keep an invariant\<close>

text \<open>
  \<open>dinv b did d\<close>: what the journal's own state is after the dispatches \<open>did\<close>; \<open>tinv gs t\<close>: what the shared
  state is after those of every journal.  A dispatch keeps both, or fails as \<open>doomed\<close> allows.
\<close>

locale journal_chain =
  fixes reset :: bool
    and act :: "('q, 't) act"
    and h :: host
    and dinv :: "'p job \<Rightarrow> iter list \<Rightarrow> 'q \<Rightarrow> bool"
    and tinv :: "('p job \<times> iter list) list \<Rightarrow> 't \<Rightarrow> bool"
    and doomed :: "'p job \<Rightarrow> fault \<Rightarrow> bool"
  assumes act_law: "k < length gs \<Longrightarrow> gs ! k = (b, did) \<Longrightarrow> did @ it # todo = dispatches b \<Longrightarrow>
      served h (jb_content b) (jb_bufs b) j \<Longrightarrow> journal_file (jb_content b) (jb_objs b) \<Longrightarrow>
      dinv b did d \<Longrightarrow> tinv gs t \<Longrightarrow>
      (\<exists>j' d' t'. act (file_header (jb_content b)) it j d t = Ok (j', d', t') \<and>
         served h (jb_content b) (jb_bufs b) j' \<and> dinv b (did @ [it]) d' \<and> tinv (gs[k := (b, did @ [it])]) t') \<or>
      (\<exists>e. act (file_header (jb_content b)) it j d t = Fail e \<and> doomed b e)"
begin

text \<open>The ghost of a chain: the dispatches that were made and those that are left.\<close>

definition chain_inv :: "'p job \<Rightarrow> 'q proc \<Rightarrow> iter list \<times> iter list \<Rightarrow> bool" where
  "chain_inv b p l \<longleftrightarrow> (case l of (did, todo) \<Rightarrow>
     served h (jb_content b) (jb_bufs b) (pr_bufs p) \<and> journal_file (jb_content b) (jb_objs b) \<and>
     remaining reset (jb_content b) (jb_objs b) p todo \<and> did @ todo = dispatches b \<and> dinv b did (pr_data p))"

definition made :: "('p job \<times> iter list \<times> iter list) list \<Rightarrow> ('p job \<times> iter list) list" where
  "made gs = map (\<lambda>(b, did, todo). (b, did)) gs"

lemma dispatch_step:
  assumes "chain_inv b p (did, todo)" and "pr_phase p = Dispatching header"
    and "k < length gs" and "gs ! k = (b, did, todo)" and "tinv (made gs) t"
  shows "(\<exists>p' t' l'. chain_step reset act h p t = Ok (p', t') \<and> chain_inv b p' l' \<and>
      tinv (made (gs[k := (b, l')])) t' \<and> steps_left p' (snd l') < steps_left p todo) \<or>
    (\<exists>e. chain_step reset act h p t = Fail e \<and> doomed b e)"
proof -
  let ?c = "jb_content b" and ?it = "pr_iter p"
  have inv: "served h ?c (jb_bufs b) (pr_bufs p)" "journal_file ?c (jb_objs b)"
    "remaining reset ?c (jb_objs b) p todo" "did @ todo = dispatches b" "dinv b did (pr_data p)"
    using assms(1) by (simp_all add: chain_inv_def)
  obtain rest where todo: "todo = ?it # rest" and hd: "header = file_header ?c"
    using inv(3) assms(2) by (auto simp: remaining_def split: if_splits)
  have "made gs ! k = (b, did)" "k < length (made gs)" using assms(3,4) by (simp_all add: made_def)
  then have "(\<exists>j' d' t'. act header ?it (pr_bufs p) (pr_data p) t = Ok (j', d', t') \<and>
         served h ?c (jb_bufs b) j' \<and> dinv b (did @ [?it]) d' \<and> tinv ((made gs)[k := (b, did @ [?it])]) t') \<or>
      (\<exists>e. act header ?it (pr_bufs p) (pr_data p) t = Fail e \<and> doomed b e)"
    using act_law [of k "made gs" b did ?it rest "pr_bufs p" "pr_data p" t] inv todo assms(5) hd by simp
  then show ?thesis
  proof
    assume "\<exists>j' d' t'. act header ?it (pr_bufs p) (pr_data p) t = Ok (j', d', t') \<and>
         served h ?c (jb_bufs b) j' \<and> dinv b (did @ [?it]) d' \<and> tinv ((made gs)[k := (b, did @ [?it])]) t'"
    then obtain j' d' t' where st: "act header ?it (pr_bufs p) (pr_data p) t = Ok (j', d', t')"
      "served h ?c (jb_bufs b) j'" "dinv b (did @ [?it]) d'" "tinv ((made gs)[k := (b, did @ [?it])]) t'"
      by blast
    let ?p = "p\<lparr>pr_bufs := j', pr_data := d',
      pr_phase := (if it_offset ?it = 0 then Finished else Stepping header)\<rparr>"
    have "chain_step reset act h p t = Ok (?p, t')" using assms(2) st(1) by (simp add: chain_step_def)
    moreover have "chain_inv b ?p (did @ [?it], rest)"
      using inv todo st(2,3) assms(2) by (auto simp: chain_inv_def remaining_def split: if_splits)
    moreover have "made (gs[k := (b, did @ [?it], rest)]) = (made gs)[k := (b, did @ [?it])]"
      by (simp add: made_def map_update)
    moreover have "steps_left ?p rest < steps_left p todo" using assms(2) todo by (simp add: steps_left_def)
    ultimately show ?thesis
      using st(4) by (intro disjI1 exI [of _ ?p] exI [of _ t'] exI [of _ "(did @ [?it], rest)"]) simp
  qed (use assms(2) in \<open>auto simp: chain_step_def\<close>)
qed

lemma quiet_chain_step:
  assumes "chain_inv b p (did, todo)" and "quiet_step reset act h b p todo p'"
    and "k < length gs" and "gs ! k = (b, did, todo)" and "tinv (made gs) t"
  shows "chain_inv b p' (did, todo) \<and> tinv (made (gs[k := (b, did, todo)])) t \<and> steps_left p' todo < steps_left p todo"
proof -
  have "gs[k := (b, did, todo)] = gs" using assms(4) by (metis list_update_id)
  then show ?thesis using assms by (simp add: chain_inv_def quiet_step_def)
qed

end

sublocale journal_chain \<subseteq> sched: scheduled "chain_step reset act h" has_finished chain_inv "\<lambda>gs. tinv (made gs)"
  "\<lambda>p l. steps_left p (snd l)" doomed
proof
  fix k gs b l p t
  assume k: "k < length gs" "gs ! k = (b, l)" and inv: "chain_inv b p l" and run: "\<not> has_finished p"
    and t: "tinv (made gs) t"
  obtain did todo where l: "l = (did, todo)" by (cases l)
  have g: "gs ! k = (b, did, todo)" using k(2) l by simp
  have rem: "served h (jb_content b) (jb_bufs b) (pr_bufs p)" "journal_file (jb_content b) (jb_objs b)"
    "remaining reset (jb_content b) (jb_objs b) p todo"
    using inv l by (simp_all add: chain_inv_def)
  note quiet = quiet_chain_step [OF inv[unfolded l] _ k(1) g t]
  show "(\<exists>p' t' l'. chain_step reset act h p t = Ok (p', t') \<and> chain_inv b p' l' \<and> tinv (made (gs[k := (b, l')])) t' \<and>
      steps_left p' (snd l') < steps_left p (snd l)) \<or> (\<exists>e. chain_step reset act h p t = Fail e \<and> doomed b e)"
  proof (cases "pr_phase p")
    case Loading_Header
    from load_header_step [OF rem(1) this rem(2,3), of act t] obtain p' where
      "chain_step reset act h p t = Ok (p', t)" "quiet_step reset act h b p todo p'" by blast
    then show ?thesis
      using quiet [of p'] l by (intro disjI1 exI [of _ p'] exI [of _ t] exI [of _ "(did, todo)"]) simp
  next
    case (Stepping header)
    from next_object_step [OF rem(1) this rem(3), of act t] obtain p' where
      "chain_step reset act h p t = Ok (p', t)" "quiet_step reset act h b p todo p'" by blast
    then show ?thesis
      using quiet [of p'] l by (intro disjI1 exI [of _ p'] exI [of _ t] exI [of _ "(did, todo)"]) simp
  next
    case (Dispatching header)
    from dispatch_step [OF inv[unfolded l] this k(1) g t] l show ?thesis by simp
  qed (use run in \<open>simp add: has_finished_def\<close>)
qed

section \<open>The run over the journals\<close>

context journal_chain
begin

text \<open>What the thunks of \<open>per_journal\<close> have set up, when the run begins.\<close>

definition ready :: "('p job \<Rightarrow> 'q) \<Rightarrow> 'p job list \<Rightarrow> 't \<Rightarrow> bool" where
  "ready init jobs t \<longleftrightarrow> (\<forall>b\<in>set jobs. job_served h b \<and> (reset \<or> it_offset (jb_iter b) = 0) \<and> dinv b [] (init b)) \<and>
     tinv (map (\<lambda>b. (b, [])) jobs) t"

definition at_start :: "'p job list \<Rightarrow> ('p job \<times> iter list \<times> iter list) list" where
  "at_start jobs = map (\<lambda>b. (b, [], dispatches b)) jobs"

lemma at_start_fst: "map fst (at_start jobs) = jobs"
  by (simp add: at_start_def comp_def)

lemma begin_inv:
  assumes "ready init jobs t"
  shows "sched.run_inv (at_start jobs) (map (begin_chain init) jobs, t)"
proof -
  have "chain_inv b (begin_chain init b) ([], dispatches b)" if "b \<in> set jobs" for b
    using assms that by (auto simp: chain_inv_def ready_def begin_chain_def start_chain_def job_served_def remaining_def dispatches_def)
  then show ?thesis
    unfolding sched.run_inv_def
    using assms by (simp add: at_start_def list_all2_conv_all_nth made_def ready_def comp_def)
qed

lemma begin_left:
  "sched.run_left (at_start jobs) (map (begin_chain init) jobs) = (\<Sum>b\<leftarrow>jobs. 2 * length (jb_objs b) + 4)"
proof -
  have len: "length (visits hd objs) = length objs + 1" for hd objs
    by (induction hd objs rule: visits.induct) auto
  show ?thesis
    unfolding sched.run_left_def
    by (simp add: at_start_def begin_chain_def start_chain_def steps_left_def dispatches_def len sum_list_sum_nth
      atLeast0LessThan) (rule sum.cong; simp)
qed

lemma end_inv:
  assumes "sched.run_inv gs (ps, t)" and "map fst gs = jobs" and "\<forall>p\<in>set ps. has_finished p"
  shows "tinv (map (\<lambda>b. (b, dispatches b)) jobs) t" and "length ps = length jobs"
    and "k < length jobs \<Longrightarrow> dinv (jobs ! k) (dispatches (jobs ! k)) (pr_data (ps ! k))"
proof -
  have len: "length gs = length jobs" using assms(2) by auto
  show lp: "length ps = length jobs" using sched.run_inv_length [OF assms(1)] len by simp
  have all: "list_all2 (\<lambda>g p. chain_inv (fst g) p (snd g)) gs ps" and t: "tinv (made gs) t"
    using assms(1) unfolding sched.run_inv_def by simp_all
  have did: "fst (gs ! k) = jobs ! k \<and> fst (snd (gs ! k)) = dispatches (jobs ! k) \<and>
      dinv (jobs ! k) (dispatches (jobs ! k)) (pr_data (ps ! k))" if "k < length jobs" for k
  proof -
    have "fst (gs ! k) = jobs ! k" using that assms(2) len by (metis nth_map)
    moreover have "chain_inv (fst (gs ! k)) (ps ! k) (snd (gs ! k))"
      by (rule list_all2_nthD [OF all]) (use that len in simp)
    moreover have "has_finished (ps ! k)" using assms(3) that lp by simp
    ultimately show ?thesis by (auto simp: chain_inv_def remaining_def has_finished_def split: prod.splits)
  qed
  have "made gs = map (\<lambda>b. (b, dispatches b)) jobs"
    by (rule nth_equalityI) (use did len in \<open>auto simp: made_def split_beta\<close>)
  then show "tinv (map (\<lambda>b. (b, dispatches b)) jobs) t" using t by simp
  show "k < length jobs \<Longrightarrow> dinv (jobs ! k) (dispatches (jobs ! k)) (pr_data (ps ! k))" using did by blast
qed

text \<open>Nothing is printed on standard error: no object of the journals has the size 0.\<close>

lemma chain_prints_nothing: "chain_inv b p l \<Longrightarrow> chain_prints p = []"
  by (cases "pr_phase p") (auto simp: chain_inv_def remaining_def chain_prints_def iter_next_prints_def split: prod.splits)

lemma run_prints_nothing:
  assumes "ready init jobs t"
    and "run_prints (chain_step reset act h) has_finished chain_prints (map (begin_chain init) jobs, t) r text"
  shows "text = []"
  by (rule sched.prints_nothing [OF assms(2) begin_inv [OF assms(1)]]) (rule chain_prints_nothing)

text \<open>Every state that a run reaches, and every outcome of a run.\<close>

lemma runs_from_start:
  assumes "ready init jobs t" and "(run_step (chain_step reset act h) has_finished ^^ m) (map (begin_chain init) jobs, t) s"
  obtains gs where "sched.run_inv gs s" and "map fst gs = jobs" and "m \<le> (\<Sum>b\<leftarrow>jobs. 2 * length (jb_objs b) + 4)"
proof -
  obtain gs where gs: "sched.run_inv gs s" "map fst gs = map fst (at_start jobs)"
    "m + sched.run_left gs (fst s) \<le> sched.run_left (at_start jobs) (fst (map (begin_chain init) jobs, t))"
    by (rule sched.runs [OF assms(2) begin_inv [OF assms(1)]])
  show ?thesis by (rule that [OF gs(1)]) (use gs(2,3) begin_left [of jobs init] at_start_fst in simp_all)
qed

lemma outcomes_from_start:
  assumes "ready init jobs t" and "run_ends (chain_step reset act h) has_finished (map (begin_chain init) jobs, t) r"
  shows "(\<exists>ps t'. r = Ok (ps, t') \<and> length ps = length jobs \<and> tinv (map (\<lambda>b. (b, dispatches b)) jobs) t' \<and>
      (\<forall>k<length jobs. dinv (jobs ! k) (dispatches (jobs ! k)) (pr_data (ps ! k)))) \<or>
    (\<exists>e. r = Fail e \<and> (\<exists>b\<in>set jobs. doomed b e))"
  using sched.outcomes [OF assms(2) begin_inv [OF assms(1)]]
proof
  assume "\<exists>ps t' gs. r = Ok (ps, t') \<and> sched.run_inv gs (ps, t') \<and> map fst gs = map fst (at_start jobs) \<and>
    (\<forall>p\<in>set ps. has_finished p)"
  then obtain ps t' gs where end_state: "r = Ok (ps, t')" "sched.run_inv gs (ps, t')" "map fst gs = jobs"
    "\<forall>p\<in>set ps. has_finished p"
    unfolding at_start_fst by blast
  note ended = end_inv [OF end_state(2-4)]
  show ?thesis using end_state(1) ended by (intro disjI1 exI [of _ ps] exI [of _ t']) blast
qed (simp add: at_start_fst)

lemma outcome_from_start:
  assumes "ready init jobs t"
  shows "\<exists>r. run_ends (chain_step reset act h) has_finished (map (begin_chain init) jobs, t) r"
  by (rule sched.outcome_exists [OF begin_inv [OF assms]])

end

end
