(* ===== verification/Independent_Chains.thy ===== *)
theory Independent_Chains
  imports Journal_Chain
begin

text \<open>
  Chains that share what they report to, but do not look at it: a step is what the chain does by itself,
  and effects on the shared state.  Whether a run fails, and how, then depends on no order: it can end
  with a failure exactly if one of the chains fails with it alone, and can succeed exactly if all of them
  succeed alone.  The effects of a run that succeeds are those of the chains, in some order.
\<close>

section \<open>A chain by itself\<close>

lemma res_map_map: "res_map f (res_map g r) = res_map (f \<circ> g) r"
  by (cases r) simp_all

lemma res_map_id [simp]: "res_map (\<lambda>x. x) r = r" "res_map id r = r"
  by (cases r; simp)+

lemma res_map_cong: "r = r' \<Longrightarrow> (\<And>x. f x = g x) \<Longrightarrow> res_map f r = res_map g r'"
  by (cases r') simp_all

lemma res_map_Fail_iff: "res_map f r = Fail e \<longleftrightarrow> r = Fail e"
  by (cases r) auto

text \<open>What a chain comes to, with its effects, if it does come to an end.\<close>

inductive chain_ends :: "('p \<Rightarrow> ('p \<times> 'e list) res) \<Rightarrow> ('p \<Rightarrow> bool) \<Rightarrow> 'p \<Rightarrow> ('p \<times> 'e list) res \<Rightarrow> bool"
  for own finished where
  at_end: "finished p \<Longrightarrow> chain_ends own finished p (Ok (p, []))"
| fails: "\<not> finished p \<Longrightarrow> own p = Fail e \<Longrightarrow> chain_ends own finished p (Fail e)"
| goes_on: "\<not> finished p \<Longrightarrow> own p = Ok (p', es) \<Longrightarrow> chain_ends own finished p' r \<Longrightarrow>
     chain_ends own finished p (res_map (\<lambda>(q, fs). (q, es @ fs)) r)"

inductive_cases chain_endsE: "chain_ends own finished p r"

lemma chain_ends_unique:
  assumes "chain_ends own finished p r" and "chain_ends own finished p r'"
  shows "r = r'"
  using assms
proof (induction arbitrary: r')
  case (at_end p)
  from at_end.prems at_end.hyps show ?case by cases simp_all
next
  case (fails p e)
  from fails.prems fails.hyps show ?case by cases simp_all
next
  case (goes_on p p' es r)
  from goes_on.prems show ?case
  proof cases
    case (goes_on q' fs r'')
    with goes_on.hyps have "q' = p'" "fs = es" by simp_all
    with goes_on goes_on.IH show ?thesis by simp
  qed (use goes_on.hyps in simp_all)
qed

lemma chain_ends_one:
  "chain_ends own finished p r \<longleftrightarrow>
     (if finished p then r = Ok (p, [])
      else case own p of Fail e \<Rightarrow> r = Fail e
        | Ok (p', es) \<Rightarrow> \<exists>r'. chain_ends own finished p' r' \<and> r = res_map (\<lambda>(q, fs). (q, es @ fs)) r')"
proof
  assume "chain_ends own finished p r"
  then show "if finished p then r = Ok (p, [])
      else case own p of Fail e \<Rightarrow> r = Fail e
        | Ok (p', es) \<Rightarrow> \<exists>r'. chain_ends own finished p' r' \<and> r = res_map (\<lambda>(q, fs). (q, es @ fs)) r'"
    by cases auto
qed (auto intro: chain_ends.intros split: if_splits res.splits)

lemma goes_on_Fail:
  assumes "\<not> finished p" and "own p = Ok (p', es)" and "chain_ends own finished p' (Fail e)"
  shows "chain_ends own finished p (Fail e)"
  using chain_ends.goes_on [OF assms] by simp

lemma goes_on_Ok:
  assumes "\<not> finished p" and "own p = Ok (p', es)" and "chain_ends own finished p' (Ok (q, fs))"
  shows "chain_ends own finished p (Ok (q, es @ fs))"
  using chain_ends.goes_on [OF assms] by simp

section \<open>Runs of such chains\<close>

text \<open>A run of one chain.\<close>

lemma run_ends_one:
  "run_ends step fin ([p], t) r \<longleftrightarrow>
     (if fin p then r = Ok ([p], t)
      else case step p t of Fail e \<Rightarrow> r = Fail e | Ok (p', t') \<Rightarrow> run_ends step fin ([p'], t') r)"
proof
  assume "run_ends step fin ([p], t) r"
  then show "if fin p then r = Ok ([p], t)
      else case step p t of Fail e \<Rightarrow> r = Fail e | Ok (p', t') \<Rightarrow> run_ends step fin ([p'], t') r"
  proof cases
    case (onward s')
    then show ?thesis by (auto elim!: run_stepE simp: less_Suc_eq)
  qed (auto simp: less_Suc_eq)
next
  assume *: "if fin p then r = Ok ([p], t)
      else case step p t of Fail e \<Rightarrow> r = Fail e | Ok (p', t') \<Rightarrow> run_ends step fin ([p'], t') r"
  show "run_ends step fin ([p], t) r"
  proof (cases "fin p")
    case True
    then show ?thesis using * by (simp add: run_ends.all_ended)
  next
    case False
    then show ?thesis
      using * run_ends.one_failed [of 0 "[p]" fin step t]
        run_ends.onward [OF run_step.proceed [of 0 "[p]" fin step t]]
      by (auto split: res.splits)
  qed
qed


text \<open>
  \<open>ends\<close> is what a run over the tasks \<open>bs\<close> can return: a failure exactly if a task has it alone, and success exactly
  if all succeed alone.
\<close>

definition run_as_alone :: "('s res \<Rightarrow> bool) \<Rightarrow> 'b list \<Rightarrow> ('b \<Rightarrow> 'r res option) \<Rightarrow> bool" where
  "run_as_alone ends bs alone \<longleftrightarrow>
     (\<forall>e. ends (Fail e) \<longleftrightarrow> (\<exists>b\<in>set bs. alone b = Some (Fail e))) \<and>
     ((\<exists>s. ends (Ok s)) \<longleftrightarrow> (\<forall>b\<in>set bs. \<exists>r. alone b = Some (Ok r)))"

text \<open>After a success each chain's state is the one that is \<open>seen\<close> in what its task gives alone.\<close>

definition holds_as_alone ::
  "(('p list \<times> 't) res \<Rightarrow> bool) \<Rightarrow> 'b list \<Rightarrow> ('b \<Rightarrow> 'r res option) \<Rightarrow> ('r \<Rightarrow> 'p \<Rightarrow> bool) \<Rightarrow> bool" where
  "holds_as_alone ends bs alone seen \<longleftrightarrow>
     (\<forall>qs t. ends (Ok (qs, t)) \<longrightarrow> list_all2 (\<lambda>b q. \<exists>r. alone b = Some (Ok r) \<and> seen r q) bs qs)"

text \<open>The tasks one after the other, each from the shared state that the last one left; a success of a run over them leaves what they leave
  in some order.\<close>

fun in_turn :: "('b \<Rightarrow> 't \<Rightarrow> 't res option) \<Rightarrow> 'b list \<Rightarrow> 't \<Rightarrow> 't \<Rightarrow> bool" where
  "in_turn alone [] t t' \<longleftrightarrow> t' = t"
| "in_turn alone (b # bs) t t' \<longleftrightarrow> (\<exists>u. alone b t = Some (Ok u) \<and> in_turn alone bs u t')"

definition run_in_turn ::
  "(('p list \<times> 't) res \<Rightarrow> bool) \<Rightarrow> 'b list \<Rightarrow> ('b \<Rightarrow> 't \<Rightarrow> 't res option) \<Rightarrow> 't \<Rightarrow> bool" where
  "run_in_turn ends bs alone t \<longleftrightarrow>
     (\<forall>qs t'. ends (Ok (qs, t')) \<longrightarrow> (\<exists>order. mset order = mset bs \<and> in_turn alone order t t'))"

lemma run_as_alone_fails:
  assumes "run_as_alone ends bs alone" and "b \<in> set bs" and "alone b = Some (Fail e)"
  shows "ends (Fail e)" and "\<not> (\<exists>s. ends (Ok s))"
  using assms unfolding run_as_alone_def by (blast, fastforce)

lemma mset_map_obtain:
  assumes "mset xs = mset (map f ys)"
  shows "\<exists>zs. mset zs = mset ys \<and> xs = map f zs"
  using assms
proof (induction xs arbitrary: ys)
  case (Cons x xs)
  have "x \<in># mset (map f ys)" unfolding Cons.prems [symmetric] by simp
  then obtain y where y: "y \<in> set ys" "f y = x" by auto
  have ys: "mset ys = add_mset y (mset (remove1 y ys))" using y(1) by simp
  have "add_mset x (mset xs) = add_mset x (mset (map f (remove1 y ys)))"
    using Cons.prems y(2) unfolding mset_map by (subst (asm) ys) simp
  then have "mset xs = mset (map f (remove1 y ys))" by simp
  then obtain zs where "mset zs = mset (remove1 y ys)" "xs = map f zs" using Cons.IH by blast
  then show ?case using y by (intro exI [of _ "y # zs"]) simp
qed simp

text \<open>\<open>fine\<close> is what the chains keep of their own states, \<open>good\<close> of the shared one.\<close>

locale independent =
  fixes step :: "('p, 't) chain" and finished :: "'p \<Rightarrow> bool"
    and own :: "'p \<Rightarrow> ('p \<times> 'e list) res" and effect :: "'e \<Rightarrow> 't \<Rightarrow> 't"
    and fine :: "'p \<Rightarrow> bool" and good :: "'t \<Rightarrow> bool"
  assumes step_own: "fine p \<Longrightarrow> good t \<Longrightarrow> step p t = res_map (\<lambda>(p', es). (p', fold effect es t)) (own p)"
    and own_fine: "fine p \<Longrightarrow> own p = Ok (p', es) \<Longrightarrow> fine p'"
    and own_good: "fine p \<Longrightarrow> good t \<Longrightarrow> own p = Ok (p', es) \<Longrightarrow> good (fold effect es t)"
begin

lemma run_step_own:
  assumes "run_step step finished (ps, t) s" and "\<forall>p\<in>set ps. fine p" and "good t"
  obtains k p' es where "k < length ps" "\<not> finished (ps ! k)" "own (ps ! k) = Ok (p', es)"
    "s = (ps[k := p'], fold effect es t)" "\<forall>p\<in>set (ps[k := p']). fine p" "good (fold effect es t)"
proof -
  obtain k p t' where proceed: "s = (ps[k := p], t')" "k < length ps" "\<not> finished (ps ! k)" "step (ps ! k) t = Ok (p, t')"
    using assms(1) by (auto elim: run_stepE)
  have p: "fine (ps ! k)" using assms(2) proceed(2) by simp
  obtain es where es: "own (ps ! k) = Ok (p, es)" "t' = fold effect es t"
    using proceed(4) step_own [OF p assms(3)] by (auto simp: res_map_Ok_iff)
  have "\<forall>q\<in>set (ps[k := p]). fine q"
    using assms(2) own_fine [OF p es(1)] by (auto dest: set_update_subset_insert [THEN subsetD])
  then show ?thesis using that [OF proceed(2,3) es(1)] proceed(1) es(2) own_good [OF p assms(3) es(1)] by simp
qed

text \<open>A run that fails.\<close>

lemma run_fails_alone:
  assumes "run_ends step finished (ps, t) (Fail e)" and "\<forall>p\<in>set ps. fine p" and "good t"
  shows "\<exists>p\<in>set ps. chain_ends own finished p (Fail e)"
proof -
  have "\<exists>p\<in>set (fst s). chain_ends own finished p (Fail e)"
    if "run_ends step finished s r" "r = Fail e" "\<forall>p\<in>set (fst s). fine p" "good (snd s)" for s r
    using that
  proof (induction rule: run_ends.induct)
    case (one_failed k ps t e')
    then have "own (ps ! k) = Fail e" using step_own [of "ps ! k" t] by (cases "own (ps ! k)") (auto split: prod.splits)
    then show ?case using one_failed by (intro bexI [of _ "ps ! k"] chain_ends.fails) simp_all
  next
    case (onward s s' r)
    obtain ps t where s: "s = (ps, t)" by (cases s)
    obtain k p' es where st: "k < length ps" "\<not> finished (ps ! k)" "own (ps ! k) = Ok (p', es)"
      "s' = (ps[k := p'], fold effect es t)" "\<forall>p\<in>set (ps[k := p']). fine p" "good (fold effect es t)"
      by (rule run_step_own [OF onward.hyps(1) [unfolded s]]) (use onward.prems s in simp_all)
    then obtain q where q: "q \<in> set (ps[k := p'])" "chain_ends own finished q (Fail e)" using onward by auto
    show ?case
    proof (cases "q = p'")
      case True
      then show ?thesis using goes_on_Fail [where own = own and finished = finished and p = "ps ! k", OF st(2,3)] q(2) st(1) s by (auto intro!: bexI [of _ "ps ! k"])
    next
      case False
      then have "q \<in> set ps" using q(1) set_update_subset_insert by fastforce
      then show ?thesis using q(2) s by auto
    qed
  qed simp
  from this [OF assms(1) refl] assms(2,3) show ?thesis by simp
qed

lemma chain_fails_run:
  assumes "chain_ends own finished p (Fail e)" and "k < length ps" and "ps ! k = p"
    and "\<forall>p\<in>set ps. fine p" and "good t"
  shows "run_ends step finished (ps, t) (Fail e)"
proof -
  have "run_ends step finished (ps, t) (Fail e)"
    if "chain_ends own finished p r" "r = Fail e" "k < length ps" "ps ! k = p" "\<forall>p\<in>set ps. fine p" "good t" for p r ps t
    using that
  proof (induction arbitrary: ps t rule: chain_ends.induct)
    case (fails p e')
    then show ?case using step_own [of p t] by (auto intro!: run_ends.one_failed [of k])
  next
    case (goes_on p p' es r)
    have p: "fine p" using goes_on.prems(2-4) by auto
    have st: "run_step step finished (ps, t) (ps[k := p'], fold effect es t)"
      using goes_on step_own [OF p goes_on.prems(5)] by (intro run_step.proceed) simp_all
    have "\<forall>p\<in>set (ps[k := p']). fine p"
      using goes_on.prems(4) own_fine [OF p goes_on.hyps(2)] by (auto dest: set_update_subset_insert [THEN subsetD])
    then have "run_ends step finished (ps[k := p'], fold effect es t) (Fail e)"
      using goes_on.prems own_good [OF p goes_on.prems(5) goes_on.hyps(2)]
      by (intro goes_on.IH) (auto simp: res_map_Fail_iff)
    with st show ?case by (rule run_ends.onward)
  qed simp
  from this [OF assms(1) refl assms(2-)] show ?thesis .
qed

text \<open>A run that succeeds, and its effects.\<close>

lemma run_succeeds_alone:
  assumes "run_ends step finished (ps, t) (Ok (qs, t'))" and "\<forall>p\<in>set ps. fine p" and "good t"
  shows "\<exists>ess order. length qs = length ps \<and> length ess = length ps \<and>
    (\<forall>k<length ps. chain_ends own finished (ps ! k) (Ok (qs ! k, ess ! k))) \<and>
    mset order = mset (concat ess) \<and> t' = fold effect order t"
proof -
  have "\<exists>ess order. length qs = length (fst s) \<and> length ess = length (fst s) \<and>
      (\<forall>k<length (fst s). chain_ends own finished (fst s ! k) (Ok (qs ! k, ess ! k))) \<and>
      mset order = mset (concat ess) \<and> t' = fold effect order (snd s)"
    if "run_ends step finished s r" "r = Ok (qs, t')" "\<forall>p\<in>set (fst s). fine p" "good (snd s)" for s r
    using that
  proof (induction rule: run_ends.induct)
    case (all_ended ps t)
    then show ?case
      by (intro exI [of _ "replicate (length ps) []"] exI [of _ "[]"]) (auto intro: chain_ends.at_end)
  next
    case (onward s s' r)
    obtain ps t where s: "s = (ps, t)" by (cases s)
    obtain k p' es where st: "k < length ps" "\<not> finished (ps ! k)" "own (ps ! k) = Ok (p', es)"
      "s' = (ps[k := p'], fold effect es t)" "\<forall>p\<in>set (ps[k := p']). fine p" "good (fold effect es t)"
      by (rule run_step_own [OF onward.hyps(1) [unfolded s]]) (use onward.prems s in simp_all)
    then obtain ess order where rest: "length qs = length ps" "length ess = length ps"
      "\<forall>i<length ps. chain_ends own finished (ps[k := p'] ! i) (Ok (qs ! i, ess ! i))"
      "mset order = mset (concat ess)" "t' = fold effect order (fold effect es t)"
      using onward.IH onward.prems(1) by auto
    let ?ess = "ess[k := es @ ess ! k]"
    have "chain_ends own finished (ps ! i) (Ok (qs ! i, ?ess ! i))" if "i < length ps" for i
    proof (cases "i = k")
      case True
      then show ?thesis
        using goes_on_Ok [where own = own and finished = finished and p = "ps ! k", OF st(2,3)] rest(2,3) st(1) that by (metis nth_list_update_eq)
    qed (use rest(3) that in \<open>auto simp: nth_list_update\<close>)
    moreover have "mset (es @ order) = mset (concat ?ess)"
    proof -
      have "ess = take k ess @ ess ! k # drop (Suc k) ess" using st(1) rest(2) by (simp add: id_take_nth_drop)
      then have "mset (concat ess) = mset (concat (take k ess) @ ess ! k @ concat (drop (Suc k) ess))"
        by (metis concat.simps(2) concat_append)
      then show ?thesis using st(1) rest(2,4) by (simp add: upd_conv_take_nth_drop)
    qed
    ultimately show ?case
      using rest(1,2,5) s by (intro exI [of _ ?ess] exI [of _ "es @ order"]) simp
  qed simp
  from this [OF assms(1) refl] assms(2,3) show ?thesis by simp
qed

text \<open>Chains that succeed alone can be run one after the other.\<close>

lemma chain_then_rest:
  assumes "chain_ends own finished p (Ok (q, es))" and "fine p" and "good t"
    and "fine q \<Longrightarrow> good (fold effect es t) \<Longrightarrow> run_ends step finished (pre @ q # post, fold effect es t) x"
  shows "run_ends step finished (pre @ p # post, t) x"
proof -
  have "run_ends step finished (pre @ p # post, t) x"
    if "chain_ends own finished p r" "r = Ok (q, es)" "fine p" "good t"
      "fine q \<Longrightarrow> good (fold effect es t) \<Longrightarrow> run_ends step finished (pre @ q # post, fold effect es t) x"
    for p r es t
    using that
  proof (induction arbitrary: es t rule: chain_ends.induct)
    case (goes_on p p' fs r)
    obtain es' where r: "r = Ok (q, es')" "es = fs @ es'" using goes_on.prems(1) by (cases r) auto
    have f: "fine p'" "good (fold effect fs t)" using own_fine own_good goes_on.hyps(2) goes_on.prems(2,3) by blast+
    have st: "run_step step finished (pre @ p # post, t) (pre @ p' # post, fold effect fs t)"
      using run_step.proceed [of "length pre" "pre @ p # post" finished step t p' "fold effect fs t"]
        goes_on.hyps(1,2) step_own [OF goes_on.prems(2,3)] by (simp add: list_update_append)
    have "run_ends step finished (pre @ p' # post, fold effect fs t) x"
      by (rule goes_on.IH [OF r(1) f]) (use goes_on.prems(4) r(2) in simp)
    with st show ?case by (rule run_ends.onward)
  qed auto
  from this [OF assms(1) refl assms(2-4)] show ?thesis .
qed

lemma chain_ends_finished: "chain_ends own finished p (Ok (q, es)) \<Longrightarrow> finished q"
  by (induction p "Ok (q, es) :: ('p \<times> 'e list) res" arbitrary: es rule: chain_ends.induct) (auto simp: res_map_Ok_iff)

lemma chain_ends_run:
  assumes "chain_ends own finished p (Ok (q, es))" and "fine p" and "good t"
  shows "run_ends step finished ([p], t) (Ok ([q], fold effect es t))"
  using chain_then_rest [OF assms, of "[]" "[]"] chain_ends_finished [OF assms(1)] by (simp add: run_ends.all_ended)

lemma chain_good:
  assumes "chain_ends own finished p (Ok (q, es))" and "fine p" and "good t"
  shows "good (fold effect es t)"
  using assms
proof (induction p "Ok (q, es) :: ('p \<times> 'e list) res" arbitrary: es t rule: chain_ends.induct)
  case (goes_on p p' fs r)
  then show ?case using own_fine own_good by (auto simp: res_map_Ok_iff)
qed simp

lemma all_succeed_run:
  assumes "\<forall>p\<in>set ps. \<exists>x. chain_ends own finished p (Ok x)" and "\<forall>p\<in>set ps. fine p" and "good t"
    and "\<forall>q\<in>set qs. finished q"
  shows "\<exists>s. run_ends step finished (qs @ ps, t) (Ok s)"
  using assms
proof (induction ps arbitrary: qs t)
  case Nil
  then show ?case by (auto intro: run_ends.all_ended)
next
  case (Cons p ps)
  obtain q es where q: "chain_ends own finished p (Ok (q, es))" using Cons.prems(1) by auto
  have t': "good (fold effect es t)" using chain_good [OF q] Cons.prems(2,3) by simp
  have "\<exists>s. run_ends step finished ((qs @ [q]) @ ps, fold effect es t) (Ok s)"
    by (rule Cons.IH) (use Cons.prems chain_ends_finished [OF q] t' in auto)
  then obtain s where "run_ends step finished (qs @ q # ps, fold effect es t) (Ok s)" by auto
  then show ?case using chain_then_rest [OF q] Cons.prems by (metis list.set_intros(1))
qed

theorem run_fails_iff:
  assumes "\<forall>p\<in>set ps. fine p" and "good t"
  shows "run_ends step finished (ps, t) (Fail e) \<longleftrightarrow> (\<exists>p\<in>set ps. chain_ends own finished p (Fail e))"
  using run_fails_alone [OF _ assms] chain_fails_run [OF _ _ refl assms] by (metis in_set_conv_nth)

theorem run_succeeds_iff:
  assumes "\<forall>p\<in>set ps. fine p" and "good t"
  shows "(\<exists>s. run_ends step finished (ps, t) (Ok s)) \<longleftrightarrow> (\<forall>p\<in>set ps. \<exists>x. chain_ends own finished p (Ok x))"
proof
  assume "\<exists>s. run_ends step finished (ps, t) (Ok s)"
  then obtain qs t' where "run_ends step finished (ps, t) (Ok (qs, t'))" by auto
  then show "\<forall>p\<in>set ps. \<exists>x. chain_ends own finished p (Ok x)"
    using run_succeeds_alone [OF _ assms] by (metis in_set_conv_nth)
next
  assume "\<forall>p\<in>set ps. \<exists>x. chain_ends own finished p (Ok x)"
  then show "\<exists>s. run_ends step finished (ps, t) (Ok s)"
    using all_succeed_run [of ps t "[]"] assms by simp
qed

text \<open>
  The runs over the tasks \<open>bs\<close> in terms of what each task gives alone, where \<open>alone\<close> is known to be what a
  run of its chain returns.
\<close>

lemma runs_as_alone:
  assumes "good t" and "\<And>b. good (t1 b)" and "\<forall>b\<in>set bs. fine (start b)"
    and fails: "\<And>b e. alone b = Some (Fail e) \<longleftrightarrow> run_ends step finished ([start b], t1 b) (Fail e)"
    and succeeds: "\<And>b r. alone b = Some (Ok r) \<Longrightarrow> \<exists>s. run_ends step finished ([start b], t1 b) (Ok s)"
    and seen: "\<And>b q t'. run_ends step finished ([start b], t1 b) (Ok ([q], t')) \<Longrightarrow> \<exists>r. alone b = Some (Ok r) \<and> seen r q"
  shows "run_as_alone (run_ends step finished (map start bs, t)) bs alone \<and>
    holds_as_alone (run_ends step finished (map start bs, t)) bs alone seen"
proof -
  have fine: "\<forall>p\<in>set (map start bs). fine p" using assms(3) by simp
  have one: "\<forall>p\<in>set [start b]. fine p" if "b \<in> set bs" for b using assms(3) that by simp
  have fails_iff: "alone b = Some (Fail e) \<longleftrightarrow> chain_ends own finished (start b) (Fail e)" if "b \<in> set bs" for b e
    using fails run_fails_iff [OF one [OF that] assms(2), of b e] by simp
  have ends: "\<exists>r. alone b = Some (Ok r) \<and> seen r q" if "b \<in> set bs" "chain_ends own finished (start b) (Ok (q, es))" for b q es
    using seen [OF chain_ends_run [OF that(2)]] assms(2,3) that(1) by blast
  have succeeds_iff: "(\<exists>r. alone b = Some (Ok r)) \<longleftrightarrow> (\<exists>x. chain_ends own finished (start b) (Ok x))" if "b \<in> set bs" for b
    using succeeds [of b] run_succeeds_iff [OF one [OF that] assms(2), of b] ends [OF that] by fastforce
  have "list_all2 (\<lambda>b q. \<exists>r. alone b = Some (Ok r) \<and> seen r q) bs qs"
    if "run_ends step finished (map start bs, t) (Ok (qs, t'))" for qs t'
    using run_succeeds_alone [OF that fine assms(1)] ends by (auto simp: list_all2_conv_all_nth)
  then show ?thesis
    unfolding run_as_alone_def holds_as_alone_def
    using run_fails_iff [OF fine assms(1)] run_succeeds_iff [OF fine assms(1)] fails_iff succeeds_iff by auto
qed

text \<open>The same where what a run over one task returns is known up to two maps.\<close>

lemma runs_as_alone_map:
  assumes "good t" and "\<And>b. good (t1 b)" and "\<forall>b\<in>set bs. fine (start b)"
    and alone: "\<And>b r. map_option (res_map f) (alone b) = Some r \<longleftrightarrow>
      (\<exists>x. run_ends step finished ([start b], t1 b) x \<and> r = res_map g x)"
    and seen: "\<And>a q t'. f a = g ([q], t') \<Longrightarrow> seen a q"
  shows "run_as_alone (run_ends step finished (map start bs, t)) bs alone \<and>
    holds_as_alone (run_ends step finished (map start bs, t)) bs alone seen"
proof (rule runs_as_alone [OF assms(1-3)])
  fix b e
  show "alone b = Some (Fail e) \<longleftrightarrow> run_ends step finished ([start b], t1 b) (Fail e)"
    using alone [of b "Fail e"] by (auto simp: res_map_Fail_iff eq_commute [of "Fail e"])
next
  fix b r
  assume "alone b = Some (Ok r)"
  then show "\<exists>s. run_ends step finished ([start b], t1 b) (Ok s)"
    using alone [of b "Ok (f r)"] by (auto simp: res_map_Ok_iff eq_commute [of "Ok (f r)"])
next
  fix b q t'
  assume "run_ends step finished ([start b], t1 b) (Ok ([q], t'))"
  then have "map_option (res_map f) (alone b) = Some (Ok (g ([q], t')))"
    using alone [of b "Ok (g ([q], t'))"] by (auto intro!: exI [of _ "Ok ([q], t')"])
  then show "\<exists>r. alone b = Some (Ok r) \<and> seen r q"
    using seen [of _ q t'] by (auto simp: res_map_Ok_iff eq_commute [of "g _"])
qed

text \<open>Where every chain has one effect, the shared state is that of the tasks in the order of these.\<close>

lemma runs_in_turn:
  assumes "good t" and "\<forall>b\<in>set bs. fine (start b)"
    and one: "\<And>b q es. b \<in> set bs \<Longrightarrow> chain_ends own finished (start b) (Ok (q, es)) \<Longrightarrow> length es = 1"
    and alone: "\<And>b u q t'. b \<in> set bs \<Longrightarrow> run_ends step finished ([start b], u) (Ok ([q], t')) \<Longrightarrow> alone b u = Some (Ok t')"
  shows "run_in_turn (run_ends step finished (map start bs, t)) bs alone t"
  unfolding run_in_turn_def
proof (intro allI impI)
  fix qs t'
  assume "run_ends step finished (map start bs, t) (Ok (qs, t'))"
  from run_succeeds_alone [OF this _ assms(1)] assms(2) obtain ess order where run: "length ess = length bs"
    "\<forall>k<length bs. chain_ends own finished (start (bs ! k)) (Ok (qs ! k, ess ! k))"
    "mset order = mset (concat ess)" "t' = fold effect order t" by auto
  let ?es = "map hd ess"
  have single: "ess ! k = [hd (ess ! k)]" if "k < length bs" for k
    using one [OF nth_mem [OF that]] run(2) that by (metis One_nat_def length_0_conv length_Suc_conv list.sel(1))
  then have "map (\<lambda>es. [hd es]) ess = ess" by (intro nth_equalityI) (simp_all add: run(1))
  then have "concat ess = ?es" using concat_map_singleton [of hd ess] by simp
  then have "mset order = mset (map snd (zip bs ?es))" using run(1,3) by simp
  then obtain zs where zs: "mset zs = mset (zip bs ?es)" "order = map snd zs" using mset_map_obtain by blast
  have "alone b u = Some (Ok (effect e u)) \<and> good (effect e u)" if be: "(b, e) \<in> set zs" and u: "good u" for b e u
  proof -
    have "(b, e) \<in> set (zip bs ?es)" using be mset_eq_setD [OF zs(1)] by simp
    then obtain k where k: "k < length bs" "b = bs ! k" "e = hd (ess ! k)" using run(1) by (auto simp: in_set_zip)
    then have ends: "chain_ends own finished (start b) (Ok (qs ! k, [e]))" using run(2) single by metis
    have b: "b \<in> set bs" "fine (start b)" using k assms(2) by simp_all
    show ?thesis using alone [OF b(1) chain_ends_run [OF ends b(2) u]] chain_good [OF ends b(2) u] by simp
  qed
  then have "in_turn alone (map fst zs) t (fold effect (map snd zs) t)"
    using assms(1)
  proof (induction zs arbitrary: t)
    case (Cons z zs)
    obtain b e where z: "z = (b, e)" by (cases z)
    have step: "alone b t = Some (Ok (effect e t))" "good (effect e t)" using Cons.prems(1) [of b e t] Cons.prems(2) z by simp_all
    have "in_turn alone (map fst zs) (effect e t) (fold effect (map snd zs) (effect e t))"
      by (rule Cons.IH [OF _ step(2)]) (use Cons.prems(1) in auto)
    then show ?case using step(1) z by simp
  qed simp
  moreover have "mset (map fst zs) = mset bs"
    unfolding mset_map zs(1) using run(1) by (metis length_map map_fst_zip mset_map)
  ultimately show "\<exists>order. mset order = mset bs \<and> in_turn alone order t t'" using zs(2) run(4) by metis
qed

end

section \<open>Chains over journals\<close>

text \<open>A dispatch that acts on its own state, and reports.\<close>

locale own_dispatch =
  fixes act :: "('p, 't) act" and own_act :: "Header \<Rightarrow> iter \<Rightarrow> journal \<Rightarrow> 'p \<Rightarrow> (journal \<times> 'p \<times> 'e list) res"
    and effect :: "'e \<Rightarrow> 't \<Rightarrow> 't" and fine :: "'p \<Rightarrow> bool" and good :: "'t \<Rightarrow> bool"
  assumes act_own: "fine d \<Longrightarrow> good t \<Longrightarrow>
      act header it j d t = res_map (\<lambda>(j', d', es). (j', d', fold effect es t)) (own_act header it j d)"
    and act_fine: "fine d \<Longrightarrow> own_act header it j d = Ok (j', d', es) \<Longrightarrow> fine d'"
    and act_good: "fine d \<Longrightarrow> good t \<Longrightarrow> own_act header it j d = Ok (j', d', es) \<Longrightarrow> good (fold effect es t)"
begin

definition own_step :: "bool \<Rightarrow> host \<Rightarrow> 'p proc \<Rightarrow> ('p proc \<times> 'e list) res" where
  "own_step reset h p = chain_step reset (\<lambda>header it j d _. own_act header it j d) h p []"

end

sublocale own_dispatch \<subseteq> chains: independent "chain_step reset act h" has_finished "own_step reset h" effect
    "\<lambda>p. fine (pr_data p)" good for reset h
proof
  fix p :: "'p proc" and t :: 't
  assume "fine (pr_data p)" "good t"
  then show "chain_step reset act h p t = res_map (\<lambda>(p', es). (p', fold effect es t)) (own_step reset h p)"
    by (cases "pr_phase p")
      (auto simp: own_step_def chain_step_def act_own res_map_map comp_def split: prod.split intro!: res_map_cong)
next
  fix p p' :: "'p proc" and es
  assume "fine (pr_data p)" "own_step reset h p = Ok (p', es)"
  then show "fine (pr_data p')"
    by (cases "pr_phase p") (auto simp: own_step_def chain_step_def res_map_Ok_iff dest: act_fine)
next
  fix p p' :: "'p proc" and es and t :: 't
  assume "fine (pr_data p)" "good t" "own_step reset h p = Ok (p', es)"
  then show "good (fold effect es t)"
    by (cases "pr_phase p") (auto simp: own_step_def chain_step_def res_map_Ok_iff dest: act_good)
qed

context own_dispatch
begin

text \<open>A dispatch that reports at the end of the journal and only then: a chain reports once.\<close>

lemma chain_reports_once:
  assumes "\<And>header it j d j' d' es. own_act header it j d = Ok (j', d', es) \<Longrightarrow> length es = (if it_offset it = 0 then 1 else 0)"
    and "chain_ends (own_step reset h) has_finished p (Ok (q, es))"
  shows "length es = (if has_finished p then 0 else 1)"
  using assms(2)
proof (induction p "Ok (q, es) :: ('p proc \<times> 'e list) res" arbitrary: es rule: chain_ends.induct)
  case (goes_on p p' fs r)
  obtain es' where r: "r = Ok (q, es')" "es = fs @ es'" using goes_on.hyps(5) by (cases r) auto
  have "length es' = (if has_finished p' then 0 else 1)" by (rule goes_on.hyps(4) [OF r(1)])
  moreover have "length fs = (if has_finished p' then 1 else 0)"
    using goes_on.hyps(1,2)
    by (cases "pr_phase p")
      (auto simp: own_step_def chain_step_def has_finished_def res_map_Ok_iff dest!: assms(1) split: if_splits)
  ultimately show ?case using r(2) goes_on.hyps(1) by simp
qed simp

end

end
