(* ===== verification/Report_Usage.thy ===== *)
theory Report_Usage
  imports Report_Run
begin

text \<open>
  \<^verbatim>\<open>report-usage.c\<close>: the count of objects and of their bytes per type, per journal and over all
  journals, and its printout.  \<open>fstat\<close> of a journal is an argument (\<open>None\<close> where it fails), the
  results of \<open>machid_get\<close> and \<open>iou_run\<close> are arguments of \<open>jio_report_usage\<close>.
\<close>

section \<open>Operations\<close>

record usage =
  count_per_type :: "u64 list"
  use_per_type :: "u64 list"
  use_total :: u64
  file_size :: u64
  file_count :: u64

definition zero_usage :: usage where
  "zero_usage = \<lparr>count_per_type = replicate OBJECT_TYPE_MAX 0, use_per_type = replicate OBJECT_TYPE_MAX 0,
     use_total = 0, file_size = 0, file_count = 0\<rparr>"

text \<open>The three updates that \<open>per_data_object\<close> makes to each of the two records.\<close>

definition count_object :: "ObjectHeader \<Rightarrow> usage \<Rightarrow> usage res" where
  "count_object h u =
     res_bind (arr_upd (count_per_type u) (unat (o_type h)) (\<lambda>n. n + 1)) (\<lambda>counts.
     res_map (\<lambda>uses. u\<lparr>count_per_type := counts, use_per_type := uses, use_total := use_total u + o_size h\<rparr>)
       (arr_upd (use_per_type u) (unat (o_type h)) (\<lambda>n. n + o_size h)))"

definition usage_per_data_object :: "(iter, usage \<times> usage) closure" where
  "usage_per_data_object it s =
     res_bind (count_object (it_header it) (fst s)) (\<lambda>u.
       res_map (\<lambda>tot. (u, tot)) (count_object (it_header it) (snd s)))"

text \<open>
  \<open>per_journal\<close>: \<open>it\<close> and \<open>u\<close> are what the allocated closure holds before it is used.  A failing
  \<open>fstat\<close> returns -1.
\<close>

definition usage_per_journal ::
  "'j reader \<Rightarrow> bool \<Rightarrow> u64 option \<Rightarrow> iter \<Rightarrow> usage \<Rightarrow> 'j \<Rightarrow> usage \<times> u32
     \<Rightarrow> (usage \<times> usage \<times> u32) res option" where
  "usage_per_journal rd be st it u j s =
     (case st of
        None \<Rightarrow> Some (Fail (Errno (- 1)))
      | Some st_size \<Rightarrow>
          map_option (res_map (\<lambda>(_, _, u', tot). (u', tot, snd s + 1)))
            (header_then_objects rd be usage_per_data_object it j
               (u\<lparr>file_size := st_size\<rparr>, (fst s)\<lparr>file_size := file_size (fst s) + st_size\<rparr>)))"

definition usage_lines :: "usage \<Rightarrow> u32 \<Rightarrow> string res" where
  "usage_lines tot nj =
     res_map ((@) (''Per-object-type usage:'' @ newline))
      (res_bind (res_concat (map (\<lambda>i.
          res_map (\<lambda>h. pad_left 16 (journal_object_type_str (int i)) @ '': ['' @
              dec (unat (count_per_type tot ! i)) @ ''] '' @ h @ newline)
            (humane_bytes (use_per_type tot ! i))) [0..<OBJECT_TYPE_MAX])) (\<lambda>table.
       res_bind (humane_bytes (use_total tot)) (\<lambda>h1.
       res_map (\<lambda>h2. table @ ''Aggregate object usage: '' @ h1 @ '' of '' @ h2 @ '' spanning '' @
            dec (unat nj) @ '' journal files'' @ newline)
         (humane_bytes (file_size tot)))))"

definition jio_report_usage :: "int \<Rightarrow> int \<Rightarrow> usage \<times> u32 \<Rightarrow> (int \<times> string) res" where
  "jio_report_usage machid_r run_r s =
     (if machid_r < 0 then Ok (machid_r, [])
      else if run_r < 0 then Ok (run_r, [])
      else res_map (\<lambda>text. (0, text)) (usage_lines (fst s) (snd s)))"

section \<open>Counting\<close>

definition known_type :: "iter \<Rightarrow> bool" where
  "known_type it \<longleftrightarrow> unat (o_type (it_header it)) < OBJECT_TYPE_MAX"

definition usage_ok :: "usage \<Rightarrow> bool" where
  "usage_ok u \<longleftrightarrow> length (count_per_type u) = OBJECT_TYPE_MAX \<and> length (use_per_type u) = OBJECT_TYPE_MAX"

definition counted :: "ObjectHeader \<Rightarrow> usage \<Rightarrow> usage" where
  "counted h u = u\<lparr>
     count_per_type := (count_per_type u)[unat (o_type h) := count_per_type u ! unat (o_type h) + 1],
     use_per_type := (use_per_type u)[unat (o_type h) := use_per_type u ! unat (o_type h) + o_size h],
     use_total := use_total u + o_size h\<rparr>"

definition usage_effect :: "iter \<Rightarrow> usage \<times> usage \<Rightarrow> usage \<times> usage" where
  "usage_effect it s = (counted (it_header it) (fst s), counted (it_header it) (snd s))"

lemma count_object_ok:
  "unat (o_type h) < OBJECT_TYPE_MAX \<Longrightarrow> usage_ok u \<Longrightarrow> count_object h u = Ok (counted h u)"
  by (simp add: count_object_def usage_ok_def counted_def)

lemma usage_ok_counted [simp]: "usage_ok (counted h u) = usage_ok u"
  by (simp add: usage_ok_def counted_def)

lemma usage_ok_sizes [simp]: "usage_ok (u\<lparr>file_size := n\<rparr>) = usage_ok u"
  by (simp add: usage_ok_def)

lemma counted_frame [simp]: "file_size (counted h u) = file_size u" "file_count (counted h u) = file_count u"
  by (simp_all add: counted_def)

text \<open>What a list of headers adds to each field.\<close>

definition typed :: "nat \<Rightarrow> ObjectHeader list \<Rightarrow> ObjectHeader list" where
  "typed t hs = filter (\<lambda>h. unat (o_type h) = t) hs"

definition adds_usage :: "ObjectHeader list \<Rightarrow> usage \<Rightarrow> usage \<Rightarrow> bool" where
  "adds_usage hs u u' \<longleftrightarrow>
     (\<forall>t<OBJECT_TYPE_MAX. count_per_type u' ! t = count_per_type u ! t + of_nat (length (typed t hs)) \<and>
        use_per_type u' ! t = use_per_type u ! t + sum_list (map o_size (typed t hs))) \<and>
     use_total u' = use_total u + sum_list (map o_size hs) \<and>
     file_size u' = file_size u \<and> file_count u' = file_count u \<and> usage_ok u'"

lemma adds_usage_Nil: "usage_ok u \<Longrightarrow> adds_usage [] u u"
  by (simp add: adds_usage_def typed_def)

lemma adds_usage_counted:
  assumes "usage_ok u" and "unat (o_type h) < OBJECT_TYPE_MAX"
  shows "adds_usage [h] u (counted h u)"
  using assms by (auto simp: adds_usage_def typed_def counted_def usage_ok_def nth_list_update)

lemma adds_usage_append: "adds_usage hs u u' \<Longrightarrow> adds_usage hs' u' u'' \<Longrightarrow> adds_usage (hs @ hs') u u''"
  by (simp add: adds_usage_def typed_def)

interpretation usage_closure: summing_closure usage_per_data_object known_type
    "\<lambda>s. usage_ok (fst s) \<and> usage_ok (snd s)" usage_effect
    "\<lambda>its s s'. adds_usage (map it_header its) (fst s) (fst s') \<and> adds_usage (map it_header its) (snd s) (snd s')"
  by unfold_locales (auto simp: usage_per_data_object_def known_type_def count_object_ok usage_effect_def
    adds_usage_Nil adds_usage_counted intro: adds_usage_append)

text \<open>The headers counted for a journal: those of its objects, and the last one once more.\<close>

definition counted_headers :: "ObjectHeader \<Rightarrow> (u64 \<times> ObjectHeader) list \<Rightarrow> ObjectHeader list" where
  "counted_headers h0 objs = map snd objs @ [if objs = [] then h0 else snd (List.last objs)]"

lemma visits_headers: "map it_header (visits h0 objs) = counted_headers h0 objs"
  by (induction h0 objs rule: visits.induct) (auto simp: counted_headers_def)

lemma visits_known:
  "\<forall>h\<in>set (counted_headers h0 objs). unat (o_type h) < OBJECT_TYPE_MAX \<Longrightarrow>
     \<forall>it\<in>set (visits h0 objs). known_type it"
  using visits_headers [of h0 objs] unfolding known_type_def by (metis imageI list.set_map)

definition zero_header :: "u8 \<Rightarrow> u64 \<Rightarrow> ObjectHeader" where
  "zero_header t n = \<lparr>o_type = t, o_flags = 0, o_reserved = [0, 0, 0, 0, 0, 0], o_size = n\<rparr>"

text \<open>The order in which headers are counted does not show.\<close>

lemma adds_usage_mset: "mset hs = mset hs' \<Longrightarrow> adds_usage hs u u' = adds_usage hs' u u'"
proof -
  assume m: "mset hs = mset hs'"
  have "mset (typed t hs) = mset (typed t hs')" for t using m by (simp add: typed_def)
  then have "length (typed t hs) = length (typed t hs')"
      "sum_list (map o_size (typed t hs)) = sum_list (map o_size (typed t hs'))" for t
    by (metis mset_eq_length, metis mset_map sum_mset_sum_list)
  moreover have "sum_list (map o_size hs) = sum_list (map o_size hs')"
    using m by (metis mset_map sum_mset_sum_list)
  ultimately show ?thesis by (simp add: adds_usage_def)
qed

section \<open>Properties\<close>

text \<open>For a journal whose objects chain up and are of known types, the report adds to the
  journal's record and to the totals the number of objects and their bytes per type and in all,
  with the last object counted once more (a journal without objects counts what the iterator's
  memory held), and the file's size and the journal to the totals.\<close>

lemma usage_counts_objects:
  assumes "reads_file h content" and "reads_fully h content" and "coherent content j"
    and "journal_file content objs" and "usage_ok u" and "usage_ok tot"
    and "\<forall>hd\<in>set (counted_headers (it_header it) objs). unat (o_type hd) < OBJECT_TYPE_MAX"
  shows "\<exists>u' tot'. usage_per_journal (read_chain h) be (Some st_size) it u j (tot, n) = Some (Ok (u', tot', n + 1)) \<and>
    adds_usage (counted_headers (it_header it) objs) (u\<lparr>file_size := st_size\<rparr>) u' \<and>
    adds_usage (counted_headers (it_header it) objs) (tot\<lparr>file_size := file_size tot + st_size\<rparr>) tot'"
proof -
  let ?s = "(u\<lparr>file_size := st_size\<rparr>, tot\<lparr>file_size := file_size tot + st_size\<rparr>)"
  let ?its = "visits (it_header it) objs"
  have inv: "reads_file h content \<and> reads_fully h content \<and> coherent content j" using assms by simp
  have known: "\<forall>it\<in>set ?its. known_type it" by (rule visits_known [OF assms(7)])
  obtain s' where s': "dispatch_all usage_per_data_object ?its ?s = Ok s'"
    "adds_usage (map it_header ?its) (fst ?s) (fst s') \<and> adds_usage (map it_header ?its) (snd ?s) (snd s')"
    by (rule usage_closure.dispatch_all_adds [OF known, of ?s]) (use assms(5,6) in auto)
  obtain it' j' where
    "header_then_objects (read_chain h) be usage_per_data_object it j ?s =
       Some (res_map (\<lambda>s'. (it', j', s')) (dispatch_all usage_per_data_object ?its ?s))"
    using chain_full.header_then_objects_visits [OF inv assms(4), of be usage_per_data_object it ?s] by blast
  then have "usage_per_journal (read_chain h) be (Some st_size) it u j (tot, n) = Some (Ok (fst s', snd s', n + 1))"
    using s'(1) by (simp add: usage_per_journal_def split_beta)
  then show ?thesis using s'(2) by (auto simp: visits_headers)
qed

lemma usage_counts_objects_witness:
  "\<exists>u' tot'. usage_per_journal (read_chain (file_host True sample_journal)) True (Some 296) zero_iter zero_usage
      (link_bufs (calloc_journal ''a'')) (zero_usage, 0) = Some (Ok (u', tot', 1)) \<and>
    count_per_type tot' ! 1 = 1 \<and> count_per_type tot' ! 7 = 2 \<and> use_total tot' = 148 \<and> file_size tot' = 296"
proof -
  have len: "length sample_journal < 2 ^ 63" by (simp add: length_sample_journal)
  have ok: "usage_ok zero_usage" by (simp add: usage_ok_def zero_usage_def)
  have hds: "counted_headers (it_header zero_iter) two_objects_list =
      [\<lparr>o_type = 1, o_flags = 0, o_reserved = [0, 0, 0, 0, 0, 0], o_size = 20\<rparr>,
       \<lparr>o_type = 7, o_flags = 0, o_reserved = [0, 0, 0, 0, 0, 0], o_size = 64\<rparr>,
       \<lparr>o_type = 7, o_flags = 0, o_reserved = [0, 0, 0, 0, 0, 0], o_size = 64\<rparr>]"
    by (simp add: counted_headers_def two_objects_list_def)
  from usage_counts_objects [OF file_host_reads [OF len, of True] file_host_fully
      link_bufs_coherent [of _ "''a''"] sample_journal_file ok ok, of zero_iter True 296 0, unfolded hds]
  show ?thesis by (auto simp: adds_usage_def typed_def zero_usage_def OBJECT_TYPE_MAX_def)
qed

text \<open>An object of an unknown type is counted outside the arrays.\<close>

lemma unknown_type_overruns:
  "\<not> known_type it \<Longrightarrow> usage_ok (fst s) \<Longrightarrow> usage_per_data_object it s = Fail OutOfBounds"
  by (simp add: usage_per_data_object_def count_object_def known_type_def usage_ok_def arr_upd_out not_less)

end
