(* ===== verification/Report_Schedule.thy ===== *)
theory Report_Schedule
  imports Report_Usage Journal_Chain
begin

text \<open>
  \<^verbatim>\<open>report-usage.c\<close> over several journals as one run: \<open>per_journal\<close> sets up a chain for each journal, the
  chains share the totals, and their steps come in any order.
\<close>

section \<open>The chains of the report\<close>

text \<open>\<open>per_journal\<close>: \<open>fstat\<close> gives \<open>st_size\<close> or fails, \<open>mem\<close> is what the allocated closure holds.\<close>

definition usage_begin ::
  "(journal \<Rightarrow> u64 option) \<Rightarrow> (journal \<Rightarrow> iter \<times> usage) \<Rightarrow> (journal, usage proc list \<times> usage \<times> u32) closure" where
  "usage_begin fstat mem jr s =
     (case s of (ps, tot, n) \<Rightarrow>
        case fstat jr of
          None \<Rightarrow> Fail (Errno (- 1))
        | Some st_size \<Rightarrow>
            Ok (ps @ [start_chain (fst (mem jr)) ((snd (mem jr))\<lparr>file_size := st_size\<rparr>) jr],
                tot\<lparr>file_size := file_size tot + st_size\<rparr>, n + 1))"

definition usage_act :: "(usage, usage \<times> u32) act" where
  "usage_act header it j u t =
     res_map (\<lambda>(u', tot'). (j, u', tot', snd t)) (usage_per_data_object it (u, fst t))"

definition usage_step :: "host \<Rightarrow> (usage proc, usage \<times> u32) chain" where
  "usage_step h = chain_step True usage_act h"

text \<open>The chains and totals that the loop over the journals leaves.\<close>

definition usage_init :: "usage job \<Rightarrow> usage" where
  "usage_init b = (jb_data b)\<lparr>file_size := jb_size b\<rparr>"

definition sized_totals :: "usage job list \<Rightarrow> usage \<times> u32 \<Rightarrow> usage \<times> u32" where
  "sized_totals jobs t = ((fst t)\<lparr>file_size := file_size (fst t) + sum_list (map jb_size jobs)\<rparr>, snd t + of_nat (length jobs))"

definition usage_start :: "usage job list \<Rightarrow> usage \<times> u32 \<Rightarrow> usage proc list \<times> usage \<times> u32" where
  "usage_start jobs t = (map (begin_chain usage_init) jobs, sized_totals jobs t)"

text \<open>A journal as a job: its file, the objects in it, its size and the memory it is given.\<close>

lemma usage_begin_all:
  assumes "\<forall>b\<in>set jobs. fstat (jb_bufs b) = Some (jb_size b) \<and> mem (jb_bufs b) = (jb_iter b, jb_data b)"
  shows "dispatch_all (usage_begin fstat mem) (map jb_bufs jobs) (ps, t) = Ok (ps @ fst (usage_start jobs t), snd (usage_start jobs t))"
  using assms
proof (induction jobs arbitrary: ps t)
  case (Cons b jobs)
  obtain tot n where t: "t = (tot, n)" by (cases t)
  show ?case
    using Cons by (simp add: t usage_begin_def usage_start_def sized_totals_def begin_chain_def usage_init_def add.assoc)
qed (simp add: usage_start_def sized_totals_def)

section \<open>Every dispatch counts one object\<close>

definition job_headers :: "usage job \<Rightarrow> ObjectHeader list" where
  "job_headers b = counted_headers (it_header (jb_iter b)) (jb_objs b)"

text \<open>A file as the format has it, with objects of known types, behind a host that serves it.\<close>

definition job_ok :: "host \<Rightarrow> usage job \<Rightarrow> bool" where
  "job_ok h b \<longleftrightarrow> job_served h b \<and> usage_ok (jb_data b) \<and> (\<forall>hd\<in>set (job_headers b). unat (o_type hd) < OBJECT_TYPE_MAX)"

definition usage_dinv :: "usage job \<Rightarrow> iter list \<Rightarrow> usage \<Rightarrow> bool" where
  "usage_dinv b did u \<longleftrightarrow> (\<forall>hd\<in>set (job_headers b). unat (o_type hd) < OBJECT_TYPE_MAX) \<and>
     adds_usage (map it_header did) (usage_init b) u"

definition usage_tinv :: "usage \<times> u32 \<Rightarrow> (usage job \<times> iter list) list \<Rightarrow> usage \<times> u32 \<Rightarrow> bool" where
  "usage_tinv t0 gs t \<longleftrightarrow> adds_usage (map it_header (all_made gs)) (fst t0) (fst t) \<and> snd t = snd t0"

lemma dispatches_headers: "map it_header (dispatches b) = job_headers b"
  by (simp add: dispatches_def job_headers_def visits_headers)

interpretation usage_chain: journal_chain True usage_act h usage_dinv "usage_tinv t0" "\<lambda>b e. False" for h t0
proof
  fix k and gs :: "(usage job \<times> iter list) list" and b did it todo j d and t :: "usage \<times> u32"
  assume k: "k < length gs" "gs ! k = (b, did)" and disp: "did @ it # todo = dispatches b"
    and j: "served h (jb_content b) (jb_bufs b) j" and d: "usage_dinv b did d" and t: "usage_tinv t0 gs t"
  let ?h = "it_header it"
  have ok: "usage_ok d" "usage_ok (fst t)" using d t by (simp_all add: usage_dinv_def usage_tinv_def adds_usage_def)
  have "?h \<in> set (job_headers b)" using disp dispatches_headers [of b, symmetric] by (metis in_set_conv_decomp list.set_map imageI)
  then have known: "unat (o_type ?h) < OBJECT_TYPE_MAX" using d by (simp add: usage_dinv_def)
  have "usage_act (file_header (jb_content b)) it j d t = Ok (j, counted ?h d, counted ?h (fst t), snd t)"
    using ok known by (simp add: usage_act_def usage_per_data_object_def count_object_ok)
  moreover have "usage_dinv b (did @ [it]) (counted ?h d)"
    using d adds_usage_append [OF _ adds_usage_counted [OF ok(1) known]] by (auto simp: usage_dinv_def)
  moreover have "usage_tinv t0 (gs[k := (b, did @ [it])]) (counted ?h (fst t), snd t)"
  proof -
    have "mset (map it_header (all_made (gs[k := (b, did @ [it])]))) = mset (map it_header (all_made gs @ [it]))"
      using all_made_step [OF k, of it] by (metis mset_map)
    from adds_usage_mset [OF this]
    have "adds_usage (map it_header (all_made (gs[k := (b, did @ [it])]))) (fst t0) (counted ?h (fst t)) =
        adds_usage (map it_header (all_made gs) @ [?h]) (fst t0) (counted ?h (fst t))" by simp
    then show ?thesis
      using t adds_usage_append [OF _ adds_usage_counted [OF ok(2) known], of "map it_header (all_made gs)" "fst t0"]
      by (simp add: usage_tinv_def)
  qed
  ultimately show "(\<exists>j' d' t'. usage_act (file_header (jb_content b)) it j d t = Ok (j', d', t') \<and>
      served h (jb_content b) (jb_bufs b) j' \<and> usage_dinv b (did @ [it]) d' \<and>
      usage_tinv t0 (gs[k := (b, did @ [it])]) t') \<or>
    (\<exists>e. usage_act (file_header (jb_content b)) it j d t = Fail e \<and> False)"
    using j by blast
qed

lemma usage_ready:
  assumes "\<forall>b\<in>set jobs. job_ok h b" and "usage_ok (fst t)"
  shows "usage_chain.ready h (sized_totals jobs t) usage_init jobs (sized_totals jobs t)"
  using assms
  by (auto simp: usage_chain.ready_def job_ok_def usage_dinv_def usage_tinv_def usage_init_def adds_usage_Nil sized_totals_def)

lemma concat_dispatches:
  "map it_header (all_made (map (\<lambda>b. (b, dispatches b)) jobs)) = concat (map job_headers jobs)"
  by (simp add: all_made_jobs map_concat comp_def dispatches_headers)

text \<open>What every outcome of a run is.\<close>

lemma usage_outcome:
  assumes "\<forall>b\<in>set jobs. job_ok h b" and "usage_ok (fst t)" and "run_ends (usage_step h) has_finished (usage_start jobs t) r"
  obtains ps tot where "r = Ok (ps, tot, snd t + of_nat (length jobs))"
    and "adds_usage (concat (map job_headers jobs)) (fst (sized_totals jobs t)) tot"
    and "\<And>k. k < length jobs \<Longrightarrow> adds_usage (job_headers (jobs ! k)) (usage_init (jobs ! k)) (pr_data (ps ! k))"
proof -
  obtain ps t' where r: "r = Ok (ps, t')" "usage_tinv (sized_totals jobs t) (map (\<lambda>b. (b, dispatches b)) jobs) t'"
    "\<And>k. k < length jobs \<Longrightarrow> usage_dinv (jobs ! k) (dispatches (jobs ! k)) (pr_data (ps ! k))"
    using usage_chain.outcomes_from_start [OF usage_ready [OF assms(1,2)]] assms(3)
    unfolding usage_step_def usage_start_def by blast
  show ?thesis
    by (rule that [of ps "fst t'"])
      (use r in \<open>auto simp: usage_tinv_def usage_dinv_def concat_dispatches dispatches_headers sized_totals_def prod_eq_iff\<close>)
qed

lemma usage_has_outcome:
  assumes "\<forall>b\<in>set jobs. job_ok h b" and "usage_ok (fst t)"
  shows "\<exists>r. run_ends (usage_step h) has_finished (usage_start jobs t) r"
  using usage_chain.outcome_from_start [OF usage_ready [OF assms]] by (simp add: usage_step_def usage_start_def)

section \<open>Properties\<close>

text \<open>C8: The report over any journals of the format, whatever the order in which their reads complete and
  their closures run: no run is longer than the objects allow and none gets stuck, there is an
  outcome, and every outcome is success, with the counts of the objects of all journals, the last one
  of each twice, added to the totals, and in each journal's record those of its own.\<close>

theorem usage_any_schedule:
  assumes "\<forall>b\<in>set jobs. job_ok h b" and "usage_ok (fst t)"
  shows "(\<forall>m ps t'. (run_step (usage_step h) has_finished ^^ m) (usage_start jobs t) (ps, t') \<longrightarrow>
      m \<le> (\<Sum>b\<leftarrow>jobs. 2 * length (jb_objs b) + 4) \<and>
      (\<forall>k<length ps. \<not> has_finished (ps ! k) \<longrightarrow> (\<exists>p t''. usage_step h (ps ! k) t' = Ok (p, t'')))) \<and>
    (\<exists>r. run_ends (usage_step h) has_finished (usage_start jobs t) r) \<and>
    (\<forall>r. run_ends (usage_step h) has_finished (usage_start jobs t) r \<longrightarrow>
      (\<exists>ps tot. r = Ok (ps, tot, snd t + of_nat (length jobs)) \<and>
        adds_usage (concat (map job_headers jobs)) (fst (sized_totals jobs t)) tot \<and>
        (\<forall>k<length jobs. adds_usage (job_headers (jobs ! k)) (usage_init (jobs ! k)) (pr_data (ps ! k)))))"
proof (intro conjI allI impI)
  fix m ps t'
  assume run: "(run_step (usage_step h) has_finished ^^ m) (usage_start jobs t) (ps, t')"
  obtain gs where gs: "usage_chain.sched.run_inv h (sized_totals jobs t) gs (ps, t')"
    "m \<le> (\<Sum>b\<leftarrow>jobs. 2 * length (jb_objs b) + 4)"
    by (rule usage_chain.runs_from_start [OF usage_ready [OF assms] run[unfolded usage_step_def usage_start_def]])
  show "m \<le> (\<Sum>b\<leftarrow>jobs. 2 * length (jb_objs b) + 4)" by (rule gs(2))
  fix k assume "k < length ps" "\<not> has_finished (ps ! k)"
  then show "\<exists>p t''. usage_step h (ps ! k) t' = Ok (p, t'')"
    unfolding usage_step_def by (rule usage_chain.sched.not_stuck [OF gs(1)]) simp
next
  show "\<exists>r. run_ends (usage_step h) has_finished (usage_start jobs t) r" by (rule usage_has_outcome [OF assms])
next
  fix r assume "run_ends (usage_step h) has_finished (usage_start jobs t) r"
  from usage_outcome [OF assms this] show "\<exists>ps tot. r = Ok (ps, tot, snd t + of_nat (length jobs)) \<and>
      adds_usage (concat (map job_headers jobs)) (fst (sized_totals jobs t)) tot \<and>
      (\<forall>k<length jobs. adds_usage (job_headers (jobs ! k)) (usage_init (jobs ! k)) (pr_data (ps ! k)))"
    by metis
qed

text \<open>Two copies of the sample journal behind one host.\<close>

definition sample_job :: "nat \<Rightarrow> usage job" where
  "sample_job i = \<lparr>jb_content = sample_journal, jb_objs = two_objects_list, jb_size = 296, jb_iter = zero_iter,
     jb_bufs = (link_bufs (calloc_journal ''a''))\<lparr>j_idx := i\<rparr>, jb_data = zero_usage\<rparr>"

lemma sample_job_headers: "job_headers (sample_job i) =
    [\<lparr>o_type = 1, o_flags = 0, o_reserved = [0, 0, 0, 0, 0, 0], o_size = 20\<rparr>,
     \<lparr>o_type = 7, o_flags = 0, o_reserved = [0, 0, 0, 0, 0, 0], o_size = 64\<rparr>,
     \<lparr>o_type = 7, o_flags = 0, o_reserved = [0, 0, 0, 0, 0, 0], o_size = 64\<rparr>]"
  by (simp add: job_headers_def sample_job_def counted_headers_def two_objects_list_def)

lemma zero_usage_ok: "usage_ok zero_usage"
  by (simp add: usage_ok_def zero_usage_def)

lemma sample_job_ok: "job_ok (file_host True sample_journal) (sample_job i)"
proof -
  have "length sample_journal < 2 ^ 63" by (simp add: length_sample_journal)
  then have "job_served (file_host True sample_journal) (sample_job i)"
    by (simp add: job_served_def sample_job_def sample_journal_file file_host_served coherent_j_idx link_bufs_coherent)
  moreover have "usage_ok (jb_data (sample_job i))" by (simp add: sample_job_def zero_usage_ok)
  ultimately show ?thesis by (simp add: job_ok_def sample_job_headers OBJECT_TYPE_MAX_def)
qed

theorem usage_any_schedule_witness:
  "\<exists>ps tot. run_ends (usage_step (file_host True sample_journal)) has_finished
      (usage_start [sample_job 0, sample_job 1] (zero_usage, 0)) (Ok (ps, tot, 2)) \<and>
    use_total tot = 296 \<and> count_per_type tot ! 7 = 4 \<and> file_size tot = 592"
proof -
  let ?jobs = "[sample_job 0, sample_job 1]"
  have ok: "\<forall>b\<in>set ?jobs. job_ok (file_host True sample_journal) b" by (simp add: sample_job_ok)
  have u: "usage_ok (fst (zero_usage, 0 :: u32))" by (simp add: zero_usage_ok)
  obtain ps tot where run: "run_ends (usage_step (file_host True sample_journal)) has_finished
      (usage_start ?jobs (zero_usage, 0)) (Ok (ps, tot, snd (zero_usage, 0 :: u32) + of_nat (length ?jobs)))"
    and tot: "adds_usage (concat (map job_headers ?jobs)) (fst (sized_totals ?jobs (zero_usage, 0))) tot"
    using usage_any_schedule [OF ok u] by metis
  have "use_total tot = 296 \<and> count_per_type tot ! 7 = 4 \<and> file_size tot = 592"
    using tot by (simp add: sample_job_headers adds_usage_def typed_def sized_totals_def zero_usage_def OBJECT_TYPE_MAX_def)
      (simp add: sample_job_def)
  then show ?thesis using run by (intro exI [of _ ps] exI [of _ tot]) simp
qed

end
