(* ===== verification/Report_Layout.thy ===== *)
theory Report_Layout
  imports Report_Run
begin

text \<open>
  \<^verbatim>\<open>report-layout.c\<close>: the \<^verbatim>\<open>.layout\<close> file of a journal, one entry for each object with marks for the
  page boundaries it spans and for its padding.  The file written is modelled by its text and by
  whether it is still open.
\<close>

section \<open>Operations\<close>

definition type_map :: string where
  "type_map = ''?dfeDFAt''"

definition PAGE_SIZE :: u64 where "PAGE_SIZE = 4096"

record out_file =
  out_text :: string
  out_open :: bool

text \<open>Writing to a file that was closed is a use of freed memory.\<close>

definition out_print :: "string \<Rightarrow> out_file \<Rightarrow> out_file res" where
  "out_print s f = (if out_open f then Ok (f\<lparr>out_text := out_text f @ s\<rparr>) else Fail OutOfBounds)"

definition out_close :: "out_file \<Rightarrow> out_file res" where
  "out_close f = (if out_open f then Ok (f\<lparr>out_open := False\<rparr>) else Fail OutOfBounds)"

definition boundary_marker :: "u64 \<Rightarrow> u64 \<Rightarrow> string" where
  "boundary_marker off sz =
     (let this_page = off AND NOT (PAGE_SIZE - 1);
          next_page = (off + sz + PAGE_SIZE - 1) AND NOT (PAGE_SIZE - 1);
          page_delta = next_page - this_page in
      if PAGE_SIZE * 2 < page_delta then snprintf 22 (''|'' @ dec (unat (page_delta div PAGE_SIZE - 1)) @ ''|'')
      else if PAGE_SIZE < page_delta then snprintf 22 ''|''
      else '''')"

definition alignment_marker :: "u64 \<Rightarrow> string" where
  "alignment_marker sz =
     (let aligned_delta = ALIGN64 sz - sz in
      if 1 < aligned_delta then snprintf 3 (''+'' @ dec (unat aligned_delta))
      else if aligned_delta \<noteq> 0 then snprintf 3 ''+''
      else '''')"

definition layout_per_data_object :: "(iter, out_file) closure" where
  "layout_per_data_object it out =
     (let off = it_offset it; h = it_header it in
      if off = 0 then res_bind (out_print newline out) out_close
      else res_bind (arr_get type_map (unat (o_type h))) (\<lambda>c.
        out_print ((if off AND NOT (PAGE_SIZE - 1) = off then ''| '' else '''') @ [c] @
            boundary_marker off (o_size h) @ dec (unat (o_size h)) @ alignment_marker (o_size h) @ '' '') out))"

definition quote :: string where "quote = [CHR 0x22]"

definition layout_legend :: "string \<Rightarrow> string" where
  "layout_legend name =
     ''Layout for '' @ quote @ name @ quote @ newline @ ''Legend:'' @ newline @
     concat (map2 (\<lambda>c n. [c] @ ''     OBJECT_'' @ n @ newline) type_map
       [''UNUSED'', ''DATA'', ''FIELD'', ''ENTRY'', ''DATA_HASH_TABLE'', ''FIELD_HASH_TABLE'',
        ''ENTRY_ARRAY'', ''TAG'']) @ newline @
     ''|N|    object spans N page boundaries (page size used='' @ dec (unat PAGE_SIZE) @ '')'' @ newline @
     ''|      single page boundary'' @ newline @
     ''+N     N bytes of alignment padding'' @ newline @
     ''+      single byte of alignment padding'' @ newline @ newline"

text \<open>\<open>per_journal\<close>: \<open>open_errno\<close> is the error of \<open>fopen\<close>, if it fails.\<close>

definition layout_per_journal ::
  "'j reader \<Rightarrow> bool \<Rightarrow> bool \<Rightarrow> int option \<Rightarrow> string \<Rightarrow> iter \<Rightarrow> 'j \<Rightarrow> out_file res option" where
  "layout_per_journal rd be malloc_ok open_errno name it j =
     (if \<not> malloc_ok then Some (Fail (Errno (- ENOMEM)))
      else case open_errno of
        Some e \<Rightarrow> Some (Fail (Errno (- e)))
      | None \<Rightarrow>
          map_option (res_map (\<lambda>(_, _, out). out))
            (header_then_objects rd be layout_per_data_object it j
               \<lparr>out_text = layout_legend name, out_open = True\<rparr>))"

definition jio_report_layout :: "int \<Rightarrow> int \<Rightarrow> int" where
  "jio_report_layout machid_r run_r =
     (if machid_r < 0 then machid_r else if run_r < 0 then run_r else 0)"

section \<open>What an entry says\<close>

text \<open>The page boundaries strictly inside the object, and the bytes from its end to a multiple of 8.\<close>

definition crossings :: "nat \<Rightarrow> nat \<Rightarrow> nat" where
  "crossings off sz = (off + sz - 1) div 4096 - off div 4096"

definition padding_bytes :: "nat \<Rightarrow> nat" where
  "padding_bytes sz = (8 - sz mod 8) mod 8"

definition layout_entry :: "u64 \<Rightarrow> ObjectHeader \<Rightarrow> string" where
  "layout_entry off h =
     (let k = crossings (unat off) (unat (o_size h)); p = padding_bytes (unat (o_size h)) in
      (if unat off mod 4096 = 0 then ''| '' else '''') @ [type_map ! unat (o_type h)] @
      (if k = 0 then '''' else if k = 1 then ''|'' else ''|'' @ dec k @ ''|'') @
      dec (unat (o_size h)) @
      (if p = 0 then '''' else if p = 1 then ''+'' else ''+'' @ dec p) @ '' '')"

definition entry_fits :: "u64 \<times> ObjectHeader \<Rightarrow> bool" where
  "entry_fits ob \<longleftrightarrow> unat (o_type (snd ob)) < OBJECT_TYPE_MAX \<and> fst ob \<noteq> 0 \<and> o_size (snd ob) \<noteq> 0 \<and>
     unat (fst ob) + unat (o_size (snd ob)) + 4095 < 2 ^ 64"

lemma page_mask: "PAGE_SIZE - 1 = mask 12"
  by (simp add: PAGE_SIZE_def mask_eq_exp_minus_1)

lemma page_start: "(off AND NOT (PAGE_SIZE - 1) = off) \<longleftrightarrow> unat off mod 4096 = 0"
proof -
  have p: "(2 :: nat) ^ 12 = 4096" by simp
  have u: "unat (off AND NOT (PAGE_SIZE - 1)) = unat off div 4096 * 4096"
    unfolding page_mask unat_and_not_mask p ..
  have "(off AND NOT (PAGE_SIZE - 1) = off) \<longleftrightarrow> unat (off AND NOT (PAGE_SIZE - 1)) = unat off"
    by (rule word_unat_eq_iff)
  also have "\<dots> \<longleftrightarrow> unat off div 4096 * 4096 = unat off"
    unfolding u ..
  also have "\<dots> \<longleftrightarrow> unat off mod 4096 = 0"
    using div_mult_mod_eq [of "unat off" 4096] by linarith
  finally show ?thesis .
qed

lemma page_delta:
  assumes "sz \<noteq> 0" and "unat off + unat sz + 4095 < 2 ^ 64"
  shows "unat (((off + sz + PAGE_SIZE - 1) AND NOT (PAGE_SIZE - 1)) - (off AND NOT (PAGE_SIZE - 1))) =
    4096 * (crossings (unat off) (unat sz) + 1)"
proof -
  have sum: "off + sz + PAGE_SIZE - 1 = off + sz + 4095" by (simp add: PAGE_SIZE_def)
  have u: "unat (off + sz + 4095) = unat off + unat sz + 4095"
    using assms(2) unat_add_no_wrap [of off sz] unat_add_no_wrap [of "off + sz" 4095] by simp
  have pos: "0 < unat sz" using assms(1) by (simp add: unat_gt_0)
  let ?a = "unat off" and ?s = "unat sz"
  have next_page: "(?a + ?s + 4095) div 4096 = (?a + ?s - 1) div 4096 + 1"
  proof -
    have "?a + ?s + 4095 = (?a + ?s - 1) + 4096" using pos by simp
    then show ?thesis by simp
  qed
  have le: "?a div 4096 \<le> (?a + ?s - 1) div 4096" by (rule div_le_mono) (use pos in simp)
  have "unat (off AND NOT (PAGE_SIZE - 1)) \<le> unat ((off + sz + 4095) AND NOT (PAGE_SIZE - 1))"
    by (simp add: page_mask unat_and_not_mask u next_page le le_SucI)
  then have "unat (((off + sz + 4095) AND NOT (PAGE_SIZE - 1)) - (off AND NOT (PAGE_SIZE - 1))) =
      unat ((off + sz + 4095) AND NOT (PAGE_SIZE - 1)) - unat (off AND NOT (PAGE_SIZE - 1))"
    by (simp add: unat_sub word_le_nat_alt)
  also have "\<dots> = ((?a + ?s - 1) div 4096 + 1) * 4096 - ?a div 4096 * 4096"
    by (simp add: page_mask unat_and_not_mask u next_page)
  also have "\<dots> = 4096 * (crossings ?a ?s + 1)"
  proof -
    obtain d where "(?a + ?s - 1) div 4096 = ?a div 4096 + d" using le le_Suc_ex by blast
    then show ?thesis by (simp add: crossings_def)
  qed
  finally show ?thesis unfolding sum .
qed

lemma boundary_marker_eq:
  assumes "sz \<noteq> 0" and "unat off + unat sz + 4095 < 2 ^ 64"
  shows "boundary_marker off sz = (let k = crossings (unat off) (unat sz) in
    if k = 0 then '''' else if k = 1 then ''|'' else ''|'' @ dec k @ ''|'')"
proof -
  let ?k = "crossings (unat off) (unat sz)"
  let ?d = "((off + sz + PAGE_SIZE - 1) AND NOT (PAGE_SIZE - 1)) - (off AND NOT (PAGE_SIZE - 1))"
  have d: "unat ?d = 4096 * (?k + 1)" by (rule page_delta [OF assms])
  have k: "?k < 2 ^ 52" using d unat_u64_less [of ?d] by simp
  have c2: "(PAGE_SIZE * 2 < ?d) = (1 < ?k)" and c1: "(PAGE_SIZE < ?d) = (0 < ?k)"
    unfolding word_less_nat_alt d by (simp_all add: PAGE_SIZE_def)
  have q: "unat (?d div PAGE_SIZE) = ?k + 1" unfolding unat_div d by (simp add: PAGE_SIZE_def)
  then have "1 \<le> ?d div PAGE_SIZE" by (simp add: word_le_nat_alt)
  then have n: "unat (?d div PAGE_SIZE - 1) = ?k" using q by (simp add: unat_sub)
  have "length (dec ?k) \<le> 16" using length_dec_le [of ?k 15] k by simp
  then show ?thesis
    unfolding boundary_marker_def Let_def c1 c2 n by (auto simp: snprintf_def)
qed

lemma padding_bytes_eq: "(n + 7) div 8 * 8 - n = padding_bytes n"
proof -
  obtain q r where n: "n = 8 * q + r" and "r < 8"
    by (metis mult_div_mod_eq mod_less_divisor zero_less_numeral)
  then have "r \<in> {0, 1, 2, 3, 4, 5, 6, 7}" by auto
  then show ?thesis unfolding n padding_bytes_def by auto
qed

lemma alignment_marker_eq:
  assumes "unat sz + 7 < 2 ^ 64"
  shows "alignment_marker sz = (let p = padding_bytes (unat sz) in
    if p = 0 then '''' else if p = 1 then ''+'' else ''+'' @ dec p)"
proof -
  have "unat sz \<le> unat (ALIGN64 sz)" by (rule unat_ALIGN64_bounds [OF assms])
  then have "unat (ALIGN64 sz - sz) = (unat sz + 7) div 8 * 8 - unat sz"
    by (simp add: unat_sub word_le_nat_alt unat_ALIGN64_no_wrap [OF assms])
  then have d: "unat (ALIGN64 sz - sz) = padding_bytes (unat sz)" unfolding padding_bytes_eq .
  have "padding_bytes (unat sz) < 8" by (simp add: padding_bytes_def)
  then have p: "padding_bytes (unat sz) < 10" by simp
  have "1 < ALIGN64 sz - sz \<longleftrightarrow> 1 < padding_bytes (unat sz)" "ALIGN64 sz - sz \<noteq> 0 \<longleftrightarrow> 0 < padding_bytes (unat sz)"
    unfolding word_less_nat_alt d [symmetric] by (simp_all add: unat_gt_0)
  then show ?thesis
    using length_dec_le [of "padding_bytes (unat sz)" 0] p
    by (auto simp: alignment_marker_def Let_def d snprintf_def)
qed

definition layout_effect :: "iter \<Rightarrow> out_file \<Rightarrow> out_file" where
  "layout_effect it out = out\<lparr>out_text := out_text out @ layout_entry (it_offset it) (it_header it)\<rparr>"

interpretation layout_closure: total_closure layout_per_data_object
    "\<lambda>it. entry_fits (it_offset it, it_header it)" out_open layout_effect
proof
  fix it :: iter and out :: out_file
  assume fits: "entry_fits (it_offset it, it_header it)" and "out_open out"
  moreover have "unat (o_size (it_header it)) + 7 < 2 ^ 64" using fits by (simp add: entry_fits_def)
  moreover have "unat (o_type (it_header it)) < length type_map"
    using fits by (simp add: entry_fits_def type_map_def OBJECT_TYPE_MAX_def)
  ultimately show "layout_per_data_object it out = Ok (layout_effect it out)"
    by (simp add: layout_per_data_object_def entry_fits_def Let_def boundary_marker_eq alignment_marker_eq
      page_start out_print_def layout_effect_def layout_entry_def)
qed (simp add: layout_effect_def)

lemma fold_layout_effect:
  "fold layout_effect its out =
     out\<lparr>out_text := out_text out @ concat (map (\<lambda>it. layout_entry (it_offset it) (it_header it)) its)\<rparr>"
  by (induction its arbitrary: out) (simp_all add: layout_effect_def)

section \<open>Properties\<close>

text \<open>The layout file of a journal whose objects chain up holds the legend and then, in file order, one
  entry for each object: a mark if it starts a page, its type, the number of page boundaries inside
  it, its size and its padding, none of them cut by the small buffers; the file is then closed.\<close>

lemma layout_lists_objects:
  assumes "reads_file h content" and "reads_fully h content" and "coherent content j"
    and "journal_file content objs" and "\<forall>ob\<in>set objs. entry_fits ob"
  shows "layout_per_journal (read_chain h) be True None name it j = Some (Ok
    \<lparr>out_text = layout_legend name @ concat (map (\<lambda>(off, hd). layout_entry off hd) objs) @ newline,
     out_open = False\<rparr>)"
proof -
  let ?out = "\<lparr>out_text = layout_legend name, out_open = True\<rparr>"
  let ?its = "map (\<lambda>(off, hd). \<lparr>it_offset = off, it_header = hd\<rparr>) objs"
  have inv: "reads_file h content \<and> reads_fully h content \<and> coherent content j" using assms by simp
  have "\<forall>it\<in>set ?its. entry_fits (it_offset it, it_header it)" using assms(5) by auto
  then have "dispatch_all layout_per_data_object ?its ?out = Ok (fold layout_effect ?its ?out)"
    by (rule layout_closure.dispatch_all_fold) simp
  moreover have "map (\<lambda>it. layout_entry (it_offset it) (it_header it)) ?its = map (\<lambda>(off, hd). layout_entry off hd) objs"
    by auto
  ultimately have "dispatch_all layout_per_data_object (visits (it_header it) objs) ?out =
      Ok \<lparr>out_text = layout_legend name @ concat (map (\<lambda>(off, hd). layout_entry off hd) objs) @ newline,
          out_open = False\<rparr>"
    by (simp add: visits_split object_iters_def dispatch_all_append fold_layout_effect layout_per_data_object_def
      out_print_def out_close_def del: map_map)
  moreover obtain it' j' where
    "header_then_objects (read_chain h) be layout_per_data_object it j ?out =
       Some (res_map (\<lambda>s'. (it', j', s')) (dispatch_all layout_per_data_object (visits (it_header it) objs) ?out))"
    using chain_full.header_then_objects_visits [OF inv assms(4), of be layout_per_data_object it ?out] by blast
  ultimately show ?thesis by (simp add: layout_per_journal_def)
qed

text \<open>The entries are \<open>d20+4\<close> and \<open>t64\<close>.\<close>

lemma layout_lists_objects_witness:
  "layout_per_journal (read_chain (file_host False sample_journal)) False True None ''a'' zero_iter
      (link_bufs (calloc_journal ''a'')) = Some (Ok
    \<lparr>out_text = layout_legend ''a'' @ ''d20+4 t64 '' @ newline, out_open = False\<rparr>)"
proof -
  have len: "length sample_journal < 2 ^ 63" by (simp add: length_sample_journal)
  have fits: "\<forall>ob\<in>set two_objects_list. entry_fits ob"
    by (simp add: two_objects_list_def entry_fits_def OBJECT_TYPE_MAX_def)
  have "concat (map (\<lambda>(off, hd). layout_entry off hd) two_objects_list) = ''d20+4 t64 ''"
    by (simp add: two_objects_list_def layout_entry_def crossings_def padding_bytes_def type_map_def
      dec.simps digit_def char_of_def bit_iff_odd)
  then show ?thesis
    using layout_lists_objects [OF file_host_reads [OF len, of False] file_host_fully
      link_bufs_coherent [of _ "''a''"] sample_journal_file fits, of False "''a''" zero_iter] by simp
qed

end
