(* ===== verification/Layout_Schedule.thy ===== *)
theory Layout_Schedule
  imports Report_Layout Journal_Chain
begin

text \<open>
  \<^verbatim>\<open>report-layout.c\<close> over several journals as one run: every chain writes a file of its own.
\<close>

section \<open>The chains of the report\<close>

text \<open>\<open>per_journal\<close>: \<open>malloc\<close>, the error of \<open>fopen\<close> and the allocated iterator are arguments.\<close>

definition layout_begin ::
  "bool \<Rightarrow> (journal \<Rightarrow> int option) \<Rightarrow> (journal \<Rightarrow> iter) \<Rightarrow> (journal, out_file proc list \<times> unit) closure" where
  "layout_begin malloc_ok fopen mem jr s =
     (if \<not> malloc_ok then Fail (Errno (- ENOMEM))
      else case fopen jr of
        Some e \<Rightarrow> Fail (Errno (- e))
      | None \<Rightarrow> Ok (fst s @ [start_chain (mem jr) \<lparr>out_text = layout_legend (j_name jr), out_open = True\<rparr> jr], ()))"

definition layout_act :: "(out_file, unit) act" where
  "layout_act header it j out t = res_map (\<lambda>out'. (j, out', t)) (layout_per_data_object it out)"

definition layout_step :: "host \<Rightarrow> (out_file proc, unit) chain" where
  "layout_step h = chain_step True layout_act h"

definition layout_init :: "unit job \<Rightarrow> out_file" where
  "layout_init b = \<lparr>out_text = layout_legend (j_name (jb_bufs b)), out_open = True\<rparr>"

definition layout_start :: "unit job list \<Rightarrow> out_file proc list \<times> unit" where
  "layout_start jobs = (map (begin_chain layout_init) jobs, ())"

lemma layout_begin_all:
  assumes "\<forall>b\<in>set jobs. fopen (jb_bufs b) = None \<and> mem (jb_bufs b) = jb_iter b"
  shows "dispatch_all (layout_begin True fopen mem) (map jb_bufs jobs) (ps, ()) = Ok (ps @ fst (layout_start jobs), ())"
  using assms
  by (induction jobs arbitrary: ps) (simp_all add: layout_begin_def layout_start_def begin_chain_def layout_init_def)

section \<open>Every dispatch writes one entry\<close>

definition layout_job_ok :: "host \<Rightarrow> unit job \<Rightarrow> bool" where
  "layout_job_ok h b \<longleftrightarrow> job_served h b \<and> (\<forall>ob\<in>set (jb_objs b). entry_fits ob)"

text \<open>The file of a journal when all its objects have been dispatched, and after some of them.\<close>

definition entries_text :: "iter list \<Rightarrow> string" where
  "entries_text its = concat (map (\<lambda>it. layout_entry (it_offset it) (it_header it)) its)"

definition layout_dinv :: "unit job \<Rightarrow> iter list \<Rightarrow> out_file \<Rightarrow> bool" where
  "layout_dinv b did out \<longleftrightarrow> (\<forall>ob\<in>set (jb_objs b). entry_fits ob) \<and>
     (if did = dispatches b
      then out = \<lparr>out_text = layout_legend (j_name (jb_bufs b)) @ entries_text (object_iters (jb_objs b)) @ newline, out_open = False\<rparr>
      else out = \<lparr>out_text = layout_legend (j_name (jb_bufs b)) @ entries_text did, out_open = True\<rparr>)"

interpretation layout_chain: journal_chain True layout_act h layout_dinv "\<lambda>gs t. True" "\<lambda>b e. False" for h
proof
  fix k and gs :: "(unit job \<times> iter list) list" and b did it todo j d and t :: unit
  assume disp: "did @ it # todo = dispatches b" and j: "served h (jb_content b) (jb_bufs b) j"
    and jf: "journal_file (jb_content b) (jb_objs b)" and d: "layout_dinv b did d"
  have more: "did \<noteq> dispatches b" using disp [symmetric] by simp
  then have out: "d = \<lparr>out_text = layout_legend (j_name (jb_bufs b)) @ entries_text did, out_open = True\<rparr>"
    and fits: "\<forall>ob\<in>set (jb_objs b). entry_fits ob"
    using d by (simp_all add: layout_dinv_def)
  have "\<exists>d'. layout_act (file_header (jb_content b)) it j d t = Ok (j, d', t) \<and> layout_dinv b (did @ [it]) d'"
    using disp jf
  proof (cases rule: dispatches_cases)
    case (object rest)
    then have "it \<in> set (object_iters (jb_objs b))" by (metis in_set_conv_decomp)
    then have "entry_fits (it_offset it, it_header it)" using fits by (auto simp: object_iters_def)
    then have "layout_per_data_object it d = Ok (layout_effect it d)"
      by (rule layout_closure.closure_ok) (simp add: out)
    moreover have "layout_dinv b (did @ [it]) (layout_effect it d)"
      using object(3) fits by (simp add: layout_dinv_def layout_effect_def out entries_text_def)
    ultimately show ?thesis by (simp add: layout_act_def)
  next
    case at_end
    have "layout_per_data_object it d = Ok \<lparr>out_text = out_text d @ newline, out_open = False\<rparr>"
      using at_end(1) by (simp add: layout_per_data_object_def out_print_def out_close_def out)
    moreover have "layout_dinv b (did @ [it]) \<lparr>out_text = out_text d @ newline, out_open = False\<rparr>"
      using at_end(2,3) fits by (simp add: layout_dinv_def out)
    ultimately show ?thesis by (simp add: layout_act_def)
  qed
  then show "(\<exists>j' d' t'. layout_act (file_header (jb_content b)) it j d t = Ok (j', d', t') \<and>
      served h (jb_content b) (jb_bufs b) j' \<and> layout_dinv b (did @ [it]) d' \<and> True) \<or>
    (\<exists>e. layout_act (file_header (jb_content b)) it j d t = Fail e \<and> False)"
    using j by blast
qed

lemma layout_ready:
  assumes "\<forall>b\<in>set jobs. layout_job_ok h b"
  shows "layout_chain.ready h layout_init jobs ()"
  using assms
  by (auto simp: layout_chain.ready_def layout_job_ok_def layout_dinv_def layout_init_def dispatches_def visits_split
    entries_text_def)

text \<open>What every outcome of a run is.\<close>

lemma layout_outcomes:
  assumes "\<forall>b\<in>set jobs. layout_job_ok h b"
  shows "(\<exists>r. run_ends (layout_step h) has_finished (layout_start jobs) r) \<and>
    (\<forall>r. run_ends (layout_step h) has_finished (layout_start jobs) r \<longrightarrow>
      (\<exists>ps. r = Ok (ps, ()) \<and> length ps = length jobs \<and>
        (\<forall>k<length jobs. pr_data (ps ! k) =
          \<lparr>out_text = layout_legend (j_name (jb_bufs (jobs ! k))) @
             concat (map (\<lambda>(off, hd). layout_entry off hd) (jb_objs (jobs ! k))) @ newline,
           out_open = False\<rparr>)))"
proof -
  have entries: "entries_text (object_iters objs) = concat (map (\<lambda>(off, hd). layout_entry off hd) objs)" for objs
    by (induction objs) (auto simp: entries_text_def object_iters_def)
  note ready = layout_ready [OF assms]
  have "\<exists>ps. r = Ok (ps, ()) \<and> length ps = length jobs \<and>
      (\<forall>k<length jobs. pr_data (ps ! k) =
        \<lparr>out_text = layout_legend (j_name (jb_bufs (jobs ! k))) @
           concat (map (\<lambda>(off, hd). layout_entry off hd) (jb_objs (jobs ! k))) @ newline, out_open = False\<rparr>)"
    if "run_ends (layout_step h) has_finished (layout_start jobs) r" for r
    using layout_chain.outcomes_from_start [OF ready] that
    unfolding layout_step_def layout_start_def by (simp add: layout_dinv_def entries) blast
  then show ?thesis
    using layout_chain.outcome_from_start [OF ready] by (simp add: layout_step_def layout_start_def)
qed

section \<open>Properties\<close>

text \<open>C9: The layout report over any journals whose objects have known types, whatever the order in which their
  reads complete: there is an outcome, and every outcome is success with each journal's file closed and
  holding the legend and then, in the order of its file, one entry for each of its objects.\<close>

theorem layout_any_schedule:
  assumes "\<forall>b\<in>set jobs. layout_job_ok h b"
  shows "(\<exists>r. run_ends (layout_step h) has_finished (layout_start jobs) r) \<and>
    (\<forall>r. run_ends (layout_step h) has_finished (layout_start jobs) r \<longrightarrow>
      (\<exists>ps. r = Ok (ps, ()) \<and> length ps = length jobs \<and>
        (\<forall>k<length jobs. pr_data (ps ! k) =
          \<lparr>out_text = layout_legend (j_name (jb_bufs (jobs ! k))) @
             concat (map (\<lambda>(off, hd). layout_entry off hd) (jb_objs (jobs ! k))) @ newline,
           out_open = False\<rparr>)))"
  by (rule layout_outcomes [OF assms])

definition layout_job :: "nat \<Rightarrow> unit job" where
  "layout_job i = \<lparr>jb_content = sample_journal, jb_objs = two_objects_list, jb_size = 296, jb_iter = zero_iter,
     jb_bufs = (link_bufs (calloc_journal ''a''))\<lparr>j_idx := i\<rparr>, jb_data = ()\<rparr>"

theorem layout_any_schedule_witness:
  "\<exists>ps. run_ends (layout_step (file_host False sample_journal)) has_finished
      (layout_start [layout_job 0, layout_job 1]) (Ok (ps, ())) \<and>
    out_text (pr_data (ps ! 1)) = layout_legend ''a'' @ ''d20+4 t64 '' @ newline"
proof -
  have len: "length sample_journal < 2 ^ 63" by (simp add: length_sample_journal)
  have "layout_job_ok (file_host False sample_journal) (layout_job i)" for i
    using len by (simp add: layout_job_ok_def job_served_def layout_job_def sample_journal_file file_host_served
      coherent_j_idx link_bufs_coherent) (simp add: two_objects_list_def entry_fits_def OBJECT_TYPE_MAX_def)
  then have ok: "\<forall>b\<in>set [layout_job 0, layout_job 1]. layout_job_ok (file_host False sample_journal) b" by simp
  have "concat (map (\<lambda>(off, hd). layout_entry off hd) two_objects_list) = ''d20+4 t64 ''"
    by (simp add: two_objects_list_def layout_entry_def crossings_def padding_bytes_def type_map_def
      dec.simps digit_def char_of_def bit_iff_odd)
  moreover have "j_name (jb_bufs (layout_job i)) = ''a''" "jb_objs (layout_job i) = two_objects_list" for i
    by (simp_all add: layout_job_def link_bufs_frame) (simp add: calloc_journal_def)
  moreover obtain ps where "run_ends (layout_step (file_host False sample_journal)) has_finished
      (layout_start [layout_job 0, layout_job 1]) (Ok (ps, ()))"
    "\<forall>k<2. pr_data (ps ! k) = \<lparr>out_text = layout_legend (j_name (jb_bufs ([layout_job 0, layout_job 1] ! k))) @
       concat (map (\<lambda>(off, hd). layout_entry off hd) (jb_objs ([layout_job 0, layout_job 1] ! k))) @ newline,
       out_open = False\<rparr>"
    using layout_any_schedule [OF ok] by force
  ultimately show ?thesis by (intro exI [of _ ps]) (simp add: numeral_2_eq_2)
qed

end
