(* ===== verification/Object_Loop.thy ===== *)
theory Object_Loop
  imports Journal_Chain
begin

text \<open>
  The iteration in which a thunk steps the iterator itself: the \<open>per_object\<close> thunks of
  \<^verbatim>\<open>report-entry-arrays.c\<close> and \<^verbatim>\<open>verify-hashed-objects.c\<close> look at an object, may load more of it, and
  pass themselves to \<open>journal_iter_next_object\<close>.  \<open>step\<close> is what they do for one object; the end at
  offset 0 is left to the caller.
\<close>

section \<open>The loop\<close>

type_synonym ('j, 's) object_step = "iter \<Rightarrow> 'j \<Rightarrow> 's \<Rightarrow> ('j \<times> 's) res"

partial_function (option) object_loop ::
  "'j reader \<Rightarrow> bool \<Rightarrow> Header \<Rightarrow> ('j, 's) object_step \<Rightarrow> iter \<Rightarrow> 'j \<Rightarrow> 's \<Rightarrow> (iter \<times> 'j \<times> 's) res option" where
  "object_loop rd be header step it j s =
     (if it_offset it = 0 then Some (Ok (it, j, s))
      else case step it j s of
        Fail e \<Rightarrow> Some (Fail e)
      | Ok (j', s') \<Rightarrow>
          (case journal_iter_next_object rd be header it j' of
             Fail e \<Rightarrow> Some (Fail e)
           | Ok (it', j'') \<Rightarrow> object_loop rd be header step it' j'' s'))"

text \<open>\<open>per_journal\<close>: the header is loaded, then the first object; \<open>it\<close> is the allocated iterator.\<close>

definition header_then_loop ::
  "'j reader \<Rightarrow> bool \<Rightarrow> (Header \<Rightarrow> ('j, 's) object_step) \<Rightarrow> iter \<Rightarrow> 'j \<Rightarrow> 's \<Rightarrow> (iter \<times> 'j \<times> 's) res option" where
  "header_then_loop rd be step it j s =
     (case journal_get_header rd be j of
        Fail e \<Rightarrow> Some (Fail e)
      | Ok (header, j') \<Rightarrow>
          (case journal_iter_next_object rd be header it j' of
             Fail e \<Rightarrow> Some (Fail e)
           | Ok (it', j'') \<Rightarrow> object_loop rd be header (step header) it' j'' s))"

section \<open>Steps that only read\<close>

text \<open>
  A step whose reads of the file always succeed acts on its own state alone: \<open>act\<close> is that action,
  for the objects \<open>admits\<close> allows.
\<close>

locale reading_step = complete_reader rd inv content
  for rd :: "'j \<Rightarrow> u64 \<Rightarrow> u64 \<Rightarrow> (bytes \<times> 'j) res"
    and inv :: "'j \<Rightarrow> bool"
    and content :: bytes +
  fixes step :: "('j, 's) object_step"
    and admits :: "iter \<Rightarrow> bool"
    and act :: "(iter, 's) closure"
  assumes step_act: "inv j \<Longrightarrow> admits it \<Longrightarrow> \<exists>j'. inv j' \<and> step it j s = res_map (\<lambda>s'. (j', s')) (act it s)"
begin

lemma object_loop_chain:
  assumes "inv j" and "it_offset it \<noteq> 0" and "o_size (it_header it) \<noteq> 0" and "admits it"
    and "object_chain content (it_offset it + ALIGN64 (o_size (it_header it))) (tail_object_offset header) objs"
    and "\<forall>i\<in>set (object_iters objs). admits i"
  shows "\<exists>it' j'. inv j' \<and> it_offset it' = 0 \<and> object_loop rd be header step it j s =
    Some (res_map (\<lambda>s'. (it', j', s')) (dispatch_all act (it # object_iters objs) s))"
  using assms
proof (induction objs arbitrary: it j s)
  case Nil
  obtain j1 where j1: "inv j1" "step it j s = res_map (\<lambda>s'. (j1, s')) (act it s)"
    using step_act [OF Nil.prems(1,4)] by blast
  have nxt: "journal_iter_next_object rd be header it j1 = Ok (it\<lparr>it_offset := 0\<rparr>, j1)"
    using Nil.prems by (simp add: journal_iter_next_object_def iter_next_offset_def Let_def)
  have "object_loop rd be header step it j s =
      Some (res_map (\<lambda>s'. (it\<lparr>it_offset := 0\<rparr>, j1, s')) (dispatch_all act (it # object_iters []) s))"
    using Nil.prems(2) j1(2) nxt
    by (subst object_loop.simps) (cases "act it s"; simp add: object_iters_def object_loop.simps)
  then show ?case using j1(1) by (metis iter.select_convs(1) iter.surjective iter.update_convs(1))
next
  case (Cons ob objs)
  obtain off h where ob: "ob = (off, h)" by (cases ob)
  let ?it = "\<lparr>it_offset = off, it_header = h\<rparr>"
  obtain j1 where j1: "inv j1" "step it j s = res_map (\<lambda>s'. (j1, s')) (act it s)"
    using step_act [OF Cons.prems(1,4)] by blast
  have off: "iter_next_offset header it = off"
    using Cons.prems ob by (simp add: iter_next_offset_def)
  obtain j2 where j2: "inv j2" "journal_iter_next_object rd be header it j1 = Ok (?it, j2)"
    by (rule next_object_reads [of j1 header it, OF j1(1)])
      (use Cons.prems ob off in \<open>auto simp: header_at_def\<close>)
  show ?case
  proof (cases "act it s")
    case (Ok s')
    obtain it' j' where "inv j'" "it_offset it' = 0" "object_loop rd be header step ?it j2 s' =
        Some (res_map (\<lambda>s'. (it', j', s')) (dispatch_all act (?it # object_iters objs) s'))"
      using Cons.IH [of j2 ?it s'] j2(1) Cons.prems ob by (auto simp: object_iters_def)
    then show ?thesis
      using Ok j1(2) j2(2) Cons.prems(2) ob
      by (subst object_loop.simps) (auto simp: object_iters_def)
  next
    case (Fail e)
    then show ?thesis
      using j1 Cons.prems(2) by (subst object_loop.simps) (auto intro!: exI [of _ "it\<lparr>it_offset := 0\<rparr>"])
  qed
qed

lemma first_then_loop:
  assumes "inv j" and "it_offset it = 0"
    and "object_chain content (header_size header) (tail_object_offset header) objs"
    and "\<forall>i\<in>set (object_iters objs). admits i"
  shows "\<exists>it' j'. inv j' \<and> it_offset it' = 0 \<and>
    (case journal_iter_next_object rd be header it j of Fail e \<Rightarrow> Some (Fail e)
       | Ok (it1, j1) \<Rightarrow> object_loop rd be header step it1 j1 s) =
    Some (res_map (\<lambda>s'. (it', j', s')) (dispatch_all act (object_iters objs) s))"
proof (cases objs)
  case Nil
  then have "journal_iter_next_object rd be header it j = Ok (it\<lparr>it_offset := 0\<rparr>, j)"
    using assms by (simp add: journal_iter_next_object_def iter_next_offset_def Let_def)
  then show ?thesis
    using Nil assms(1)
    by (auto simp: object_iters_def object_loop.simps intro!: exI [of _ "it\<lparr>it_offset := 0\<rparr>"])
next
  case (Cons ob rest)
  obtain off h where ob: "ob = (off, h)" by (cases ob)
  let ?it = "\<lparr>it_offset = off, it_header = h\<rparr>"
  have off: "iter_next_offset header it = off"
    using assms(2,3) Cons ob by (simp add: iter_next_offset_def)
  obtain j1 where j1: "inv j1" "journal_iter_next_object rd be header it j = Ok (?it, j1)"
    by (rule next_object_reads [of j header it, OF assms(1)])
      (use assms(3) Cons ob off in \<open>auto simp: header_at_def\<close>)
  moreover obtain it' j' where "inv j'" "it_offset it' = 0" "object_loop rd be header step ?it j1 s =
      Some (res_map (\<lambda>s'. (it', j', s')) (dispatch_all act (?it # object_iters rest) s))"
    using object_loop_chain [of j1 ?it header rest be s] j1(1) assms(3,4) Cons ob
    by (auto simp: object_iters_def)
  ultimately show ?thesis using Cons ob by (auto simp: object_iters_def)
qed

end

end
