(* ===== verification/Single_Float.thy ===== *)
theory Single_Float
  imports Humane Complex_Main
begin

text \<open>
  The percentages of \<^verbatim>\<open>report-entry-arrays.c\<close>: quotients in single precision, printed with one decimal.
  A \<open>float\<close> that is not negative is a fraction of natural numbers; each operation rounds its exact
  result to 24 significant bits, to the nearest and a tie to even, as on hosts that evaluate \<open>float\<close> in
  \<open>float\<close>.  The quotients of 64-bit counts are far inside the range of the exponents.
\<close>

section \<open>Operations\<close>

text \<open>The \<open>float\<close> nearest to \<open>p / d\<close>.\<close>

definition single :: "nat \<Rightarrow> nat \<Rightarrow> nat \<times> nat" where
  "single p d =
     (let up = 24 + bit_length d - bit_length p; down = bit_length p - (24 + bit_length d);
          n = p * 2 ^ up; m = d * 2 ^ down; x = (if 2 ^ 24 * m \<le> n then 2 else 1)
      in (round_even n (m * x) * x * 2 ^ down, 2 ^ up))"

text \<open>\<open>whole ? (float)part / (float)whole * 100.f : 0.f\<close>\<close>

definition single_percent :: "nat \<Rightarrow> nat \<Rightarrow> nat \<times> nat" where
  "single_percent part whole =
     (if whole = 0 then (0, 1)
      else case single part 1 of (a, a') \<Rightarrow> case single whole 1 of (b, b') \<Rightarrow>
        case single (a * b') (a' * b) of (q, q') \<Rightarrow> single (q * 100) q')"

text \<open>\<open>%.1f\<close>, in tenths and as text.\<close>

definition percent_tenths :: "nat \<Rightarrow> nat \<Rightarrow> nat" where
  "percent_tenths part whole = (case single_percent part whole of (n, d) \<Rightarrow> round_even (10 * n) d)"

definition percent_text :: "nat \<Rightarrow> nat \<Rightarrow> string" where
  "percent_text part whole =
     (let h = percent_tenths part whole in dec (h div 10) @ ''.'' @ [digit (h mod 10)])"

section \<open>The error of an operation\<close>

definition ratio :: "nat \<times> nat \<Rightarrow> rat" where
  "ratio f = of_nat (fst f) / of_nat (snd f)"

lemma bit_length_lower: "0 < n \<Longrightarrow> 2 ^ (bit_length n - 1) \<le> n"
proof (induction n rule: bit_length.induct)
  case (1 n)
  show ?case
  proof (cases "n div 2 = 0")
    case True
    then have "bit_length n = 1" using 1(2) by (simp add: bit_length.simps)
    then show ?thesis using 1(2) by simp
  next
    case False
    then have "2 ^ (bit_length (n div 2) - 1) \<le> n div 2" using 1 by simp
    moreover have "0 < bit_length (n div 2)" using False by (simp add: bit_length.simps)
    moreover have "bit_length n = Suc (bit_length (n div 2))" using 1(2) by (subst bit_length.simps) simp
    ultimately have "2 ^ (bit_length n - 1) = 2 * (2 :: nat) ^ (bit_length (n div 2) - 1)"
      by (cases "bit_length (n div 2)") simp_all
    then show ?thesis using \<open>2 ^ (bit_length (n div 2) - 1) \<le> n div 2\<close> by linarith
  qed
qed

text \<open>The scaled numerator has at least 24 bits before the point.\<close>

lemma single_scale:
  assumes "0 < p" and "0 < d"
  shows "2 ^ 23 * (d * 2 ^ (bit_length p - (24 + bit_length d))) \<le> p * 2 ^ (24 + bit_length d - bit_length p)"
proof -
  let ?lp = "bit_length p" and ?ld = "bit_length d"
  let ?up = "24 + ?ld - ?lp" and ?down = "?lp - (24 + ?ld)"
  have p: "2 ^ (?lp - 1) \<le> p" by (rule bit_length_lower [OF assms(1)])
  have d: "d \<le> 2 ^ ?ld" using bit_length_bound [of d] by simp
  have lp: "0 < ?lp" using assms(1) by (subst bit_length.simps) simp
  have "2 ^ 23 * (d * 2 ^ ?down) \<le> 2 ^ 23 * (2 ^ ?ld * 2 ^ ?down)" using d by simp
  also have "\<dots> = 2 ^ (23 + ?ld + ?down)" by (simp add: power_add)
  also have "23 + ?ld + ?down = (?lp - 1) + ?up" using lp by linarith
  also have "(2 :: nat) ^ ((?lp - 1) + ?up) = 2 ^ (?lp - 1) * 2 ^ ?up" by (rule power_add)
  also have "\<dots> \<le> p * 2 ^ ?up" using p by simp
  finally show ?thesis .
qed

lemma round_even_error:
  assumes "0 < d"
  shows "\<bar>rat_of_nat (round_even x d) - of_nat x / of_nat d\<bar> \<le> 1 / 2"
proof -
  let ?r = "rat_of_nat (round_even x d)"
  have "rat_of_nat (2 * x) \<le> of_nat (2 * (round_even x d * d) + d)"
    and "rat_of_nat (2 * (round_even x d * d)) \<le> of_nat (2 * x + d)"
    unfolding of_nat_le_iff by (rule round_even_bounds [OF assms])+
  then have b: "2 * of_nat x \<le> 2 * (?r * of_nat d) + of_nat d" "2 * (?r * of_nat d) \<le> 2 * of_nat x + of_nat d"
    by simp_all
  have d: "0 < rat_of_nat d" using assms by simp
  have "?r - of_nat x / of_nat d = (?r * of_nat d - of_nat x) / of_nat d" using d by (simp add: field_simps)
  moreover have "\<bar>?r * of_nat d - of_nat x\<bar> \<le> of_nat d / 2" using b by linarith
  ultimately show ?thesis using d by (simp add: divide_simps)
qed

lemma scaled_error:
  fixes c :: rat
  assumes "\<bar>a - b\<bar> \<le> e" and "0 \<le> c"
  shows "\<bar>a * c - b * c\<bar> \<le> e * c"
proof -
  have "\<bar>a * c - b * c\<bar> = \<bar>a - b\<bar> * c" using assms(2) by (simp add: abs_mult flip: left_diff_distrib)
  then show ?thesis using mult_right_mono [OF assms] by simp
qed

lemma single_error:
  assumes "0 < d"
  shows "\<bar>ratio (single p d) - of_nat p / of_nat d\<bar> \<le> of_nat p / of_nat d / 2 ^ 24"
proof (cases "p = 0")
  case True
  then show ?thesis using assms by (simp add: single_def ratio_def Let_def round_even_def)
next
  case False
  let ?up = "24 + bit_length d - bit_length p" and ?down = "bit_length p - (24 + bit_length d)"
  let ?n = "p * 2 ^ ?up" and ?m = "d * 2 ^ ?down"
  define x :: nat where "x = (if 2 ^ 24 * ?m \<le> ?n then 2 else 1)"
  let ?r = "rat_of_nat (round_even ?n (?m * x))" and ?q = "rat_of_nat ?n / of_nat (?m * x)"
  have x: "0 < x" "0 < ?m * x" using assms by (simp_all add: x_def)
  have "2 ^ 23 * (?m * x) \<le> ?n"
    using single_scale [of p d] False assms by (simp add: x_def)
  then have "rat_of_nat (2 ^ 23 * (?m * x)) \<le> of_nat ?n" by (simp only: of_nat_le_iff)
  then have "2 ^ 23 * rat_of_nat (?m * x) \<le> of_nat ?n" by simp
  moreover have "0 < rat_of_nat (?m * x)" using x(2) by (simp only: of_nat_0_less_iff)
  ultimately have q: "2 ^ 23 \<le> ?q" by (simp add: pos_le_divide_eq)
  have "1 / 2 \<le> y / 2 ^ 24" if "2 ^ 23 \<le> y" for y :: rat using that by simp
  from order_trans [OF round_even_error [OF x(2), of ?n] this [OF q]]
  have err: "\<bar>?r - ?q\<bar> \<le> ?q / 2 ^ 24" .
  define c where "c = rat_of_nat x * 2 ^ ?down / 2 ^ ?up"
  have c: "0 \<le> c" by (simp add: c_def)
  have "single p d = (round_even ?n (?m * x) * x * 2 ^ ?down, 2 ^ ?up)"
    unfolding single_def Let_def x_def by (rule refl)
  then have r: "ratio (single p d) = ?r * c"
    by (simp add: ratio_def c_def)
  have pd: "of_nat p / of_nat d = ?q * c"
    using x assms by (simp add: c_def)
  have "\<bar>?r * c - ?q * c\<bar> \<le> ?q / 2 ^ 24 * c"
    by (rule scaled_error [OF err c])
  then show ?thesis unfolding r pd by simp
qed

text \<open>The bounds of an operation's result, relative to the exact one.\<close>

definition eps :: rat where "eps = 1 / 2 ^ 24"

lemma single_bounds:
  assumes "0 < d"
  shows "of_nat p / of_nat d * (1 - eps) \<le> ratio (single p d)" and "ratio (single p d) \<le> of_nat p / of_nat d * (1 + eps)"
  using single_error [OF assms, of p] by (simp_all add: eps_def abs_le_iff algebra_simps)

lemma single_denominator: "0 < snd (single p d)"
  by (simp add: single_def Let_def)

lemma ratio_quotient: "0 < a' \<Longrightarrow> of_nat (a * b') / of_nat (a' * b) = ratio (a, a') / ratio (b, b')"
  by (simp add: ratio_def)

lemma single_percent_bounds:
  assumes "whole \<noteq> 0"
  shows "100 * (of_nat part / of_nat whole) * (1 - 5 * eps) \<le> ratio (single_percent part whole)"
    and "ratio (single_percent part whole) \<le> 100 * (of_nat part / of_nat whole) * (1 + 5 * eps)"
proof -
  let ?u = "rat_of_nat part" and ?w = "rat_of_nat whole"
  obtain a a' where a: "single part 1 = (a, a')" by (cases "single part 1")
  obtain b b' where b: "single whole 1 = (b, b')" by (cases "single whole 1")
  obtain q q' where q: "single (a * b') (a' * b) = (q, q')" by (cases "single (a * b') (a' * b)")
  let ?A = "ratio (a, a')" and ?B = "ratio (b, b')" and ?Q = "ratio (q, q')"
  have w: "0 < ?w" using assms by simp
  have e: "0 < eps" "eps < 1" by (simp_all add: eps_def)
  have A: "?u * (1 - eps) \<le> ?A" "?A \<le> ?u * (1 + eps)" using single_bounds [of 1 part] by (simp_all add: a del: One_nat_def)
  have B: "?w * (1 - eps) \<le> ?B" "?B \<le> ?w * (1 + eps)" using single_bounds [of 1 whole] by (simp_all add: b del: One_nat_def)
  have Bpos: "0 < ?B" using B(1) w e by (meson less_le_trans mult_pos_pos diff_gt_0_iff_gt)
  have pos: "0 < a'" "0 < b'" "0 < q'" using single_denominator a b q by (metis snd_conv)+
  have "0 < a' * b" using Bpos pos by (cases b) (simp_all add: ratio_def)
  then have Q: "?A / ?B * (1 - eps) \<le> ?Q" "?Q \<le> ?A / ?B * (1 + eps)"
    using single_bounds [of "a' * b" "a * b'"] unfolding q ratio_quotient [OF pos(1)] by simp_all
  have pc: "single_percent part whole = single (q * 100) q'"
    unfolding single_percent_def a b split q using assms by simp
  have R: "100 * ?Q * (1 - eps) \<le> ratio (single_percent part whole)" "ratio (single_percent part whole) \<le> 100 * ?Q * (1 + eps)"
    using single_bounds [OF pos(3), of "q * 100"] pc by (simp_all add: ratio_def mult.commute)
  have x: "0 \<le> ?u / ?w" by simp
  have "?u * (1 - eps) / (?w * (1 + eps)) \<le> ?A / ?B" by (rule frac_le) (use A B Bpos e in \<open>simp_all add: ratio_def\<close>)
  then have lo: "?u / ?w * ((1 - eps) / (1 + eps)) \<le> ?A / ?B" by simp
  have "?A / ?B \<le> ?u * (1 + eps) / (?w * (1 - eps))" by (rule frac_le) (use A B w e in simp_all)
  then have hi: "?A / ?B \<le> ?u / ?w * ((1 + eps) / (1 - eps))" by simp
  have "100 * (?u / ?w) * (1 - 5 * eps) \<le> 100 * (?u / ?w * ((1 - eps) / (1 + eps)) * (1 - eps)) * (1 - eps)"
    using mult_left_mono [OF _ x, of "1 - 5 * eps" "(1 - eps) / (1 + eps) * (1 - eps) * (1 - eps)"]
    by (simp add: eps_def)
  also have "\<dots> \<le> 100 * (?A / ?B * (1 - eps)) * (1 - eps)"
    using lo e by (intro mult_right_mono mult_left_mono) simp_all
  also have "\<dots> \<le> 100 * ?Q * (1 - eps)" using Q(1) e by (intro mult_right_mono mult_left_mono) simp_all
  finally show "100 * (?u / ?w) * (1 - 5 * eps) \<le> ratio (single_percent part whole)" using R(1) by linarith
  have "ratio (single_percent part whole) \<le> 100 * ?Q * (1 + eps)" by (rule R(2))
  also have "\<dots> \<le> 100 * (?A / ?B * (1 + eps)) * (1 + eps)"
    using Q(2) e by (intro mult_right_mono mult_left_mono) simp_all
  also have "\<dots> \<le> 100 * (?u / ?w * ((1 + eps) / (1 - eps)) * (1 + eps)) * (1 + eps)"
    using hi e by (intro mult_right_mono mult_left_mono) simp_all
  also have "\<dots> \<le> 100 * (?u / ?w) * (1 + 5 * eps)"
    using mult_left_mono [OF _ x, of "(1 + eps) / (1 - eps) * (1 + eps) * (1 + eps)" "1 + 5 * eps"]
    by (simp add: eps_def)
  finally show "ratio (single_percent part whole) \<le> 100 * (?u / ?w) * (1 + 5 * eps)" .
qed

lemma single_percent_denominator: "0 < snd (single_percent part whole)"
  by (simp add: single_percent_def single_denominator split: prod.split)

lemma tenths_close:
  fixes t r x :: rat
  assumes "\<bar>t - r * 10\<bar> \<le> 1 / 2" and "100 * x * (1 - 5 * eps) \<le> r" and "r \<le> 100 * x * (1 + 5 * eps)"
    and "0 \<le> x" and "x \<le> 1"
  shows "\<bar>t / 10 - 100 * x\<bar> \<le> 501 / 10000"
proof -
  have "t - r * 10 \<le> 1 / 2" "- (t - r * 10) \<le> 1 / 2" using assms(1) by (simp_all only: abs_le_iff)
  then show ?thesis using assms(2-5) by (intro abs_leI) (simp_all add: eps_def)
qed

section \<open>Properties\<close>

text \<open>C33: A printed percentage of a part of at most the whole is at most 100.0 and, in spite of the
  four roundings of single precision before the one to a decimal, within 0.0501 of the true one.\<close>

theorem percent_text_accurate:
  assumes "whole \<noteq> 0" and "part \<le> whole"
  shows "percent_text part whole = dec (percent_tenths part whole div 10) @ ''.'' @ [digit (percent_tenths part whole mod 10)] \<and>
    percent_tenths part whole \<le> 1000 \<and>
    \<bar>rat_of_nat (percent_tenths part whole) / 10 - 100 * of_nat part / of_nat whole\<bar> \<le> 501 / 10000"
proof -
  let ?h = "percent_tenths part whole" and ?x = "rat_of_nat part / of_nat whole"
  let ?r = "ratio (single_percent part whole)"
  have x: "0 \<le> ?x" "?x \<le> 1" using assms by (simp_all add: divide_le_eq)
  have "?r * 10 = of_nat (10 * fst (single_percent part whole)) / of_nat (snd (single_percent part whole))"
    by (simp add: ratio_def)
  then have h: "\<bar>rat_of_nat ?h - ?r * 10\<bar> \<le> 1 / 2"
    using round_even_error [OF single_percent_denominator, of "10 * fst (single_percent part whole)"]
    by (simp add: percent_tenths_def split_beta)
  have r: "100 * ?x * (1 - 5 * eps) \<le> ?r" "?r \<le> 100 * ?x * (1 + 5 * eps)"
    by (rule single_percent_bounds [OF assms(1)])+
  have "?r \<le> 100 * (1 + 5 * eps)" using r(2) x by (simp add: eps_def)
  then have "?r * 10 < 1000 + 1 / 2" by (simp add: eps_def)
  then have "rat_of_nat ?h < 1001" using h by linarith
  then have "?h < 1001" by (metis of_nat_less_iff of_nat_numeral)
  moreover have "\<bar>rat_of_nat ?h / 10 - 100 * ?x\<bar> \<le> 501 / 10000" by (rule tenths_close [OF h r x])
  ultimately show ?thesis by (simp add: percent_text_def Let_def)
qed

text \<open>One of three is 33.3 percent.\<close>

lemma percent_tenths_third: "percent_tenths 1 3 = 333"
proof -
  have "single 1 1 = (16777216, 16777216)" "single 3 1 = (25165824, 8388608)"
    by (simp_all add: single_def bit_length.simps round_even_def)
  moreover have "single (16777216 * 8388608) (16777216 * 25165824) = (11184811, 33554432)"
    by (simp add: single_def bit_length.simps round_even_def)
  moreover have "single (11184811 * 100) 33554432 = (17476268, 524288)"
    by (simp add: single_def bit_length.simps round_even_def)
  ultimately show ?thesis by (simp add: percent_tenths_def single_percent_def round_even_def del: One_nat_def)
qed

theorem percent_text_accurate_witness:
  "percent_text 1 3 = ''33.3'' \<and> \<bar>rat_of_nat (percent_tenths 1 3) / 10 - 100 / 3\<bar> \<le> 501 / 10000"
  using percent_text_accurate [of 3 1]
  unfolding percent_tenths_third by (simp add: dec.simps digit_def char_of_def bit_iff_odd)

end
