(* ===== verification/Report_Entry_Arrays.thy ===== *)
theory Report_Entry_Arrays
  imports Object_Loop Single_Float
begin

text \<open>
  \<^verbatim>\<open>report-entry-arrays.c\<close>: the payloads of a journal's entry arrays are hashed with SHA1 and counted
  per digest in a chained hash table, from which statistics by size class are made and summed over
  the journals.  SHA1 is OpenSSL's, an argument \<open>sha1\<close> of the model; \<open>malloc\<close> and \<open>calloc\<close> are
  arguments that say whether they succeed.
\<close>

section \<open>The profile\<close>

definition N_BUCKETS :: nat where "N_BUCKETS = 64 * 1024"

record entry_array =
  ea_digest :: bytes
  ea_count :: u64
  ea_size :: u64
  ea_utilized :: u64

record profile =
  pf_count :: u64
  pf_unique :: u64
  pf_buckets :: "entry_array list list"

definition zero_profile :: profile where
  "zero_profile = \<lparr>pf_count = 0, pf_unique = 0, pf_buckets = replicate N_BUCKETS []\<rparr>"

text \<open>The loop over the digest's bytes; \<open>bucket\<close> stays far below the range of \<open>int\<close>.\<close>

definition digest_bucket :: "bytes \<Rightarrow> nat" where
  "digest_bucket digest = fold (\<lambda>d bucket. (bucket + unat d) mod N_BUCKETS) digest 0"

text \<open>The loop over \<open>items[i]\<close>: 8 bytes for every item that is not zero.\<close>

fun utilized_bytes :: "nat \<Rightarrow> bytes \<Rightarrow> u64" where
  "utilized_bytes 0 m = 0"
| "utilized_bytes (Suc n) m =
     (if \<exists>b\<in>set (take 8 m). b \<noteq> 0 then 8 else 0) + utilized_bytes n (drop 8 m)"

text \<open>The first entry of a chain with the digest, counted where it is.\<close>

fun bump :: "bytes \<Rightarrow> entry_array list \<Rightarrow> entry_array list option" where
  "bump digest [] = None"
| "bump digest (ea # chain) =
     (if ea_digest ea = digest then Some (ea\<lparr>ea_count := ea_count ea + 1\<rparr> # chain)
      else map_option ((#) ea) (bump digest chain))"

definition per_entry_array_payload ::
  "(bytes \<Rightarrow> bytes) \<Rightarrow> bool \<Rightarrow> u64 \<Rightarrow> bytes \<Rightarrow> profile \<Rightarrow> profile res" where
  "per_entry_array_payload sha1 calloc_ok payload_size payload_buf profile =
     res_bind (assert_that (payload_size \<noteq> 0)) (\<lambda>_.
       let digest = sha1 payload_buf; bucket = digest_bucket digest in
       res_bind (arr_get (pf_buckets profile) bucket) (\<lambda>chain.
         case bump digest chain of
           Some chain' \<Rightarrow> Ok (profile\<lparr>pf_buckets := (pf_buckets profile)[bucket := chain']\<rparr>)
         | None \<Rightarrow>
             if \<not> calloc_ok then Fail (Errno (- ENOMEM))
             else let ea = \<lparr>ea_digest = digest, ea_count = 1, ea_size = payload_size,
                            ea_utilized = utilized_bytes (unat payload_size div 8) payload_buf\<rparr> in
               Ok (profile\<lparr>pf_buckets := (pf_buckets profile)[bucket := ea # chain],
                           pf_unique := pf_unique profile + 1\<rparr>)))"

text \<open>What \<open>per_object\<close> does at an offset that is not 0: \<open>allocs\<close> says whether \<open>malloc\<close> and \<open>calloc\<close> succeed.\<close>

definition entry_array_step ::
  "(bytes \<Rightarrow> bytes) \<Rightarrow> bool \<times> bool \<Rightarrow> 'j reader \<Rightarrow> ('j, profile) object_step" where
  "entry_array_step sha1 allocs rd it j profile =
     (if object_type_of (o_type (it_header it)) \<noteq> Some OBJECT_ENTRY_ARRAY then Ok (j, profile)
      else let payload_size = o_size (it_header it) - of_nat offsetof_EntryArrayObject_items in
        if \<not> fst allocs then Fail (Errno (- ENOMEM))
        else res_bind (rd j (it_offset it + of_nat offsetof_EntryArrayObject_items) payload_size) (\<lambda>(bs, j').
          res_map (\<lambda>p. (j', p))
            (per_entry_array_payload sha1 (snd allocs) payload_size bs
              (profile\<lparr>pf_count := pf_count profile + 1\<rparr>))))"

section \<open>Statistics\<close>

text \<open>\<open>__builtin_clzll\<close>: the zero bits above the highest bit that is set.\<close>

definition clz64 :: "u64 \<Rightarrow> nat" where
  "clz64 n = length (takeWhile (\<lambda>i. \<not> bit n i) (rev [0..<64]))"

definition u64log2 :: "u64 \<Rightarrow> nat" where
  "u64log2 n = (if 1 < n then unat ((of_nat (clz64 n) :: u32) XOR 63) else 0)"

record size_class =
  sc_total :: u64
  sc_part :: u64 \<comment> \<open>the union of \<open>unique\<close> and \<open>utilized\<close>\<close>

record ea_stats =
  st_count :: u64
  st_unique :: u64
  log2_size_counts :: "size_class list"
  log2_size_bytes :: "size_class list"
  log2_size_utilized :: "size_class list"

definition zero_classes :: "size_class list" where
  "zero_classes = replicate 64 \<lparr>sc_total = 0, sc_part = 0\<rparr>"

definition zero_stats :: "u64 \<Rightarrow> u64 \<Rightarrow> ea_stats" where
  "zero_stats n u = \<lparr>st_count = n, st_unique = u, log2_size_counts = zero_classes,
     log2_size_bytes = zero_classes, log2_size_utilized = zero_classes\<rparr>"

definition stat_entry :: "entry_array \<Rightarrow> ea_stats \<Rightarrow> ea_stats res" where
  "stat_entry ea stats =
     (let l2sz = u64log2 (ea_size ea) in
      res_bind (arr_upd (log2_size_counts stats) l2sz
        (\<lambda>c. \<lparr>sc_total = sc_total c + ea_count ea, sc_part = sc_part c + 1\<rparr>)) (\<lambda>counts.
      res_bind (arr_upd (log2_size_bytes stats) l2sz
        (\<lambda>c. \<lparr>sc_total = ea_size ea * ea_count ea, sc_part = ea_size ea\<rparr>)) (\<lambda>byts.
      res_map (\<lambda>utils. stats\<lparr>log2_size_counts := counts, log2_size_bytes := byts, log2_size_utilized := utils\<rparr>)
        (arr_upd (log2_size_utilized stats) l2sz
          (\<lambda>c. \<lparr>sc_total = sc_total c + ea_size ea * ea_count ea,
                sc_part = sc_part c + ea_utilized ea * ea_count ea\<rparr>)))))"

fun stat_entries :: "entry_array list \<Rightarrow> ea_stats \<Rightarrow> ea_stats res" where
  "stat_entries [] stats = Ok stats"
| "stat_entries (ea # eas) stats = res_bind (stat_entry ea stats) (stat_entries eas)"

definition add_class :: "size_class \<Rightarrow> size_class \<Rightarrow> size_class" where
  "add_class dest src = \<lparr>sc_total = sc_total dest + sc_total src, sc_part = sc_part dest + sc_part src\<rparr>"

definition add_stats :: "ea_stats \<Rightarrow> ea_stats \<Rightarrow> ea_stats" where
  "add_stats dest src =
     \<lparr>st_count = st_count dest + st_count src, st_unique = st_unique dest + st_unique src,
      log2_size_counts = map2 add_class (log2_size_counts dest) (log2_size_counts src),
      log2_size_bytes = map2 add_class (log2_size_bytes dest) (log2_size_bytes src),
      log2_size_utilized = map2 add_class (log2_size_utilized dest) (log2_size_utilized src)\<rparr>"

text \<open>
  \<open>print_stats\<close>: a class without entries is printed as brackets, the others with the percentage of
  their second count.
\<close>

definition class_percent :: "size_class \<Rightarrow> string" where
  "class_percent c = percent_text (unat (sc_part c)) (unat (sc_total c)) @ ''%''"

definition print_class_counts :: "size_class \<Rightarrow> string res" where
  "print_class_counts c =
     (if sc_total c = 0 then Ok ''[] ''
      else Ok (class_percent c @ ''['' @ dec (unat (sc_total c)) @ '','' @ dec (unat (sc_part c)) @ ''] ''))"

definition print_class_bytes :: "size_class \<Rightarrow> string res" where
  "print_class_bytes c =
     (if sc_total c = 0 then Ok ''[] ''
      else res_bind (humane_bytes (sc_total c)) (\<lambda>h1.
        res_map (\<lambda>h2. class_percent c @ ''['' @ h1 @ '','' @ h2 @ ''] '') (humane_bytes (sc_part c))))"

definition print_class_table :: "string \<Rightarrow> (size_class \<Rightarrow> string res) \<Rightarrow> size_class list \<Rightarrow> string res" where
  "print_class_table title print_class cs =
     res_map (\<lambda>text. ''  log2(size) '' @ title @ '' ...): '' @ text @ newline)
       (res_concat (map (\<lambda>i. print_class (cs ! i)) [0..<64]))"

definition print_stats :: "ea_stats \<Rightarrow> string res" where
  "print_stats stats =
     res_bind (print_class_table ''counts (%unique[total,unique]'' print_class_counts (log2_size_counts stats)) (\<lambda>counts.
     res_bind (print_class_table ''sizes (%unique[total,unique]'' print_class_bytes (log2_size_bytes stats)) (\<lambda>sizes.
     res_map (\<lambda>used. ''  Total EAs: '' @ dec (unat (st_count stats)) @ newline @
         ''  Unique EAs: '' @ dec (unat (st_unique stats)) @
         '' (%'' @ percent_text (unat (st_unique stats)) (unat (st_count stats)) @ '')'' @ newline @
         counts @ sizes @ used)
       (print_class_table ''utilization (%used[total,used]'' print_class_bytes (log2_size_utilized stats))))"

definition journal_stats :: "profile \<Rightarrow> ea_stats res" where
  "journal_stats profile =
     stat_entries (concat (pf_buckets profile)) (zero_stats (pf_count profile) (pf_unique profile))"

text \<open>\<open>per_object\<close> at the end of the journal: the statistics of the journal, printed and added to the
  totals.  \<open>s\<close> is what was printed before and the totals.\<close>

definition entry_arrays_end :: "string \<Rightarrow> profile \<Rightarrow> string \<times> ea_stats \<Rightarrow> (ea_stats \<times> string \<times> ea_stats) res" where
  "entry_arrays_end name profile s =
     res_bind (journal_stats profile) (\<lambda>stats.
       res_map (\<lambda>text. (stats,
           fst s @ newline @ newline @ ''Entry-array stats for '' @ CHR 0x22 # name @ CHR 0x22 # '':'' @ newline @ text,
           add_stats (snd s) stats))
         (print_stats stats))"

definition entry_arrays_per_journal ::
  "(bytes \<Rightarrow> bytes) \<Rightarrow> bool \<times> bool \<Rightarrow> 'j reader \<Rightarrow> bool \<Rightarrow> string \<Rightarrow> iter \<Rightarrow> profile \<Rightarrow> 'j \<Rightarrow> string \<times> ea_stats
     \<Rightarrow> (ea_stats \<times> string \<times> ea_stats) res option" where
  "entry_arrays_per_journal sha1 allocs rd be name it profile j s =
     map_option (\<lambda>r. res_bind r (\<lambda>(_, _, p). entry_arrays_end name p s))
       (header_then_loop rd be (\<lambda>header. entry_array_step sha1 allocs rd) it j profile)"

definition jio_report_entry_arrays :: "int \<Rightarrow> int \<Rightarrow> string \<times> ea_stats \<Rightarrow> (int \<times> string) res" where
  "jio_report_entry_arrays machid_r run_r s =
     (if machid_r < 0 then Ok (machid_r, [])
      else if run_r < 0 then Ok (run_r, fst s)
      else res_map (\<lambda>text. (0, fst s @ newline @ newline @
               ''Entry-array aggregate totals for all journals'' @ newline @ text))
             (print_stats (snd s)))"

lemma print_stats_Ok: "\<exists>text. print_stats stats = Ok text"
proof -
  have "\<exists>text. print_class_table title print_class cs = Ok text" if "\<And>c. \<exists>text. print_class c = Ok text"
    for title print_class cs
  proof -
    from that obtain f where "print_class = (\<lambda>c. Ok (f c))" by metis
    then show ?thesis by (simp add: print_class_table_def res_concat_Ok)
  qed
  note table = this
  obtain t1 where "print_class_table ''counts (%unique[total,unique]'' print_class_counts (log2_size_counts stats) = Ok t1"
    using table [of print_class_counts] unfolding print_class_counts_def by fastforce
  moreover obtain t2 where "print_class_table ''sizes (%unique[total,unique]'' print_class_bytes (log2_size_bytes stats) = Ok t2"
    using table [of print_class_bytes] unfolding print_class_bytes_def by (fastforce simp: humane_bytes_str)
  moreover obtain t3 where "print_class_table ''utilization (%used[total,used]'' print_class_bytes (log2_size_utilized stats) = Ok t3"
    using table [of print_class_bytes] unfolding print_class_bytes_def by (fastforce simp: humane_bytes_str)
  ultimately show ?thesis by (simp add: print_stats_def)
qed

section \<open>The profile as a map from digests\<close>

definition bucket_ok :: "nat \<Rightarrow> entry_array list \<Rightarrow> bool" where
  "bucket_ok b chain \<longleftrightarrow> distinct (map ea_digest chain) \<and> (\<forall>ea\<in>set chain. digest_bucket (ea_digest ea) = b)"

definition profile_ok :: "profile \<Rightarrow> bool" where
  "profile_ok p \<longleftrightarrow> length (pf_buckets p) = N_BUCKETS \<and> (\<forall>b<N_BUCKETS. bucket_ok b (pf_buckets p ! b))"

definition in_chain :: "entry_array list \<Rightarrow> bytes \<Rightarrow> entry_array option" where
  "in_chain chain d = List.find (\<lambda>ea. ea_digest ea = d) chain"

text \<open>The abstraction, and counting a payload in the abstract.\<close>

definition profile_map :: "profile \<Rightarrow> bytes \<Rightarrow> entry_array option" where
  "profile_map p d = in_chain (pf_buckets p ! digest_bucket d) d"

definition note_payload ::
  "(bytes \<Rightarrow> bytes) \<Rightarrow> u64 \<Rightarrow> bytes \<Rightarrow> (bytes \<Rightarrow> entry_array option) \<Rightarrow> bytes \<Rightarrow> entry_array option" where
  "note_payload sha1 sz bs m =
     m(sha1 bs \<mapsto> (case m (sha1 bs) of
         Some ea \<Rightarrow> ea\<lparr>ea_count := ea_count ea + 1\<rparr>
       | None \<Rightarrow> \<lparr>ea_digest = sha1 bs, ea_count = 1, ea_size = sz,
                  ea_utilized = utilized_bytes (unat sz div 8) bs\<rparr>))"

lemma digest_bucket_less: "digest_bucket d < N_BUCKETS"
proof -
  have "b < N_BUCKETS \<Longrightarrow> fold (\<lambda>d bucket. (bucket + unat d) mod N_BUCKETS) d b < N_BUCKETS" for b
    by (induction d arbitrary: b) (simp_all add: N_BUCKETS_def)
  then show ?thesis by (simp add: digest_bucket_def N_BUCKETS_def)
qed

lemma bump_None_iff: "bump d chain = None \<longleftrightarrow> in_chain chain d = None"
  by (induction chain) (auto simp: in_chain_def)

lemma bump_Some:
  assumes "bump d chain = Some chain'" and "bucket_ok b chain"
  shows "bucket_ok b chain' \<and> (\<exists>ea. in_chain chain d = Some ea \<and>
    in_chain chain' = (in_chain chain)(d \<mapsto> ea\<lparr>ea_count := ea_count ea + 1\<rparr>)) \<and>
    map ea_digest chain' = map ea_digest chain"
  using assms
proof (induction chain arbitrary: chain')
  case (Cons ea chain)
  show ?case
  proof (cases "ea_digest ea = d")
    case True
    then show ?thesis using Cons.prems by (auto simp: bucket_ok_def in_chain_def fun_eq_iff)
  next
    case False
    then obtain c where c: "bump d chain = Some c" "chain' = ea # c" using Cons.prems(1) by auto
    have "bucket_ok b chain" using Cons.prems(2) by (simp add: bucket_ok_def)
    from Cons.IH [OF c(1) this] False c(2) Cons.prems(2) show ?thesis
      by (auto simp: bucket_ok_def in_chain_def fun_eq_iff)
  qed
qed simp

lemma profile_map_update:
  assumes "profile_ok p" and "bucket_ok (digest_bucket d) chain'"
    and "in_chain chain' = (in_chain (pf_buckets p ! digest_bucket d))(d \<mapsto> ea)"
    and "pf_buckets p' = (pf_buckets p)[digest_bucket d := chain']"
  shows "profile_ok p'" and "profile_map p' = (profile_map p)(d \<mapsto> ea)"
proof -
  have b: "digest_bucket d < length (pf_buckets p)" using assms(1) digest_bucket_less by (simp add: profile_ok_def)
  show "profile_ok p'" using b assms(1,2,4) by (simp add: profile_ok_def nth_list_update)
  show "profile_map p' = (profile_map p)(d \<mapsto> ea)"
    using b assms(3,4) by (auto simp: fun_eq_iff profile_map_def nth_list_update)
qed

lemma in_chain_SomeD: "in_chain chain d = Some ea \<Longrightarrow> ea \<in> set chain \<and> ea_digest ea = d"
  by (auto simp: in_chain_def find_Some_iff)

lemma payload_refines:
  assumes "profile_ok p" and "sz \<noteq> 0"
  shows "\<exists>p'. per_entry_array_payload sha1 True sz bs p = Ok p' \<and> profile_ok p' \<and>
    profile_map p' = note_payload sha1 sz bs (profile_map p) \<and> pf_count p' = pf_count p \<and>
    pf_unique p' = pf_unique p + (if profile_map p (sha1 bs) = None then 1 else 0)"
proof -
  let ?d = "sha1 bs"
  let ?b = "digest_bucket ?d"
  let ?chain = "pf_buckets p ! ?b"
  have b: "?b < length (pf_buckets p)" and ok: "bucket_ok ?b ?chain"
    using assms(1) digest_bucket_less by (simp_all add: profile_ok_def)
  show ?thesis
  proof (cases "bump ?d ?chain")
    case None
    let ?ea = "\<lparr>ea_digest = ?d, ea_count = 1, ea_size = sz, ea_utilized = utilized_bytes (unat sz div 8) bs\<rparr>"
    let ?p = "p\<lparr>pf_buckets := (pf_buckets p)[?b := ?ea # ?chain], pf_unique := pf_unique p + 1\<rparr>"
    have n: "in_chain ?chain ?d = None" using None by (simp add: bump_None_iff)
    then have "?d \<notin> ea_digest ` set ?chain" by (auto simp: in_chain_def find_None_iff)
    then have "bucket_ok ?b (?ea # ?chain)" using ok by (auto simp: bucket_ok_def)
    moreover have "in_chain (?ea # ?chain) = (in_chain ?chain)(?d \<mapsto> ?ea)"
      by (auto simp: in_chain_def fun_eq_iff)
    ultimately have "profile_ok ?p" "profile_map ?p = (profile_map p)(?d \<mapsto> ?ea)"
      using profile_map_update [OF assms(1), of ?d "?ea # ?chain" ?ea ?p] by simp_all
    then show ?thesis
      using None b assms(2) n
      by (simp add: per_entry_array_payload_def Let_def note_payload_def profile_map_def)
  next
    case (Some chain')
    let ?p = "p\<lparr>pf_buckets := (pf_buckets p)[?b := chain']\<rparr>"
    obtain ea where ea: "in_chain ?chain ?d = Some ea" "bucket_ok ?b chain'"
      "in_chain chain' = (in_chain ?chain)(?d \<mapsto> ea\<lparr>ea_count := ea_count ea + 1\<rparr>)"
      using bump_Some [OF Some ok] by blast
    have "profile_ok ?p" "profile_map ?p = (profile_map p)(?d \<mapsto> ea\<lparr>ea_count := ea_count ea + 1\<rparr>)"
      using profile_map_update [OF assms(1) ea(2,3), of ?p] by simp_all
    then show ?thesis
      using Some b assms(2) ea(1)
      by (simp add: per_entry_array_payload_def Let_def note_payload_def profile_map_def)
  qed
qed

section \<open>Size classes\<close>

lemma xor_63: "c < 64 \<Longrightarrow> unat ((of_nat c :: u32) XOR 63) = 63 - c"
proof -
  have "\<forall>c\<in>{0..<64}. unat ((of_nat c :: u32) XOR 63) = 63 - c" by (simp add: atLeastLessThan_upt upt_rec)
  then show "c < 64 \<Longrightarrow> unat ((of_nat c :: u32) XOR 63) = 63 - c" by simp
qed

lemma clz64_top_bit:
  assumes "n \<noteq> 0"
  shows "clz64 n < 64" and "bit n (63 - clz64 n)" and "\<And>i. 63 - clz64 n < i \<Longrightarrow> \<not> bit n i"
proof -
  let ?xs = "rev [0..<64]"
  let ?c = "length (takeWhile (\<lambda>i. \<not> bit n i) ?xs)"
  have nth: "i < 64 \<Longrightarrow> ?xs ! i = 63 - i" for i by (simp add: rev_nth)
  obtain i where "bit n i" using assms by (metis bit_eqI bit_0_eq bot_apply bot_bool_def)
  then have "i \<in> set ?xs" using bit_imp_le_length [of n i] by simp
  then have "?c < length ?xs"
    using \<open>bit n i\<close> by (metis length_takeWhile_le le_neq_implies_less takeWhile_eq_all_conv takeWhile_eq_take take_all_iff order_refl)
  then show c: "clz64 n < 64" by (simp add: clz64_def)
  show "bit n (63 - clz64 n)"
    using nth_length_takeWhile [OF \<open>?c < length ?xs\<close>] nth [of "clz64 n"] c by (simp add: clz64_def)
  show "\<not> bit n i" if "63 - clz64 n < i" for i
  proof (cases "i < 64")
    case True
    then have "63 - i < ?c" using that by (simp add: clz64_def)
    then have "\<not> bit n (?xs ! (63 - i))"
      by (metis nth_mem set_takeWhileD takeWhile_nth)
    then show ?thesis using nth [of "63 - i"] True by simp
  next
    case False
    then show ?thesis using bit_imp_le_length [of n i] by auto
  qed
qed

lemma top_bit_bounds:
  fixes n :: "'a::len word"
  assumes "bit n k" and "\<And>i. k < i \<Longrightarrow> \<not> bit n i"
  shows "2 ^ k \<le> unat n" and "unat n < 2 ^ Suc k"
proof -
  show "2 ^ k \<le> unat n"
  proof (rule ccontr)
    assume "\<not> 2 ^ k \<le> unat n"
    then have "take_bit k (unat n) = unat n" by (simp add: take_bit_nat_eq_self)
    then have "\<not> bit (unat n) k" by (metis bit_take_bit_iff less_irrefl)
    then show False using assms(1) by (simp add: bit_unsigned_iff bit_imp_le_length)
  qed
  have "i < Suc k" if "bit n i" for i
    using assms(2) [of i] that by (cases "k < i") simp_all
  then have "take_bit (Suc k) (unat n) = unat n"
    by (intro bit_eqI) (auto simp: bit_take_bit_iff bit_unsigned_iff)
  then show "unat n < 2 ^ Suc k" by (metis take_bit_nat_less_exp)
qed

lemma u64log2_less: "u64log2 n < 64"
proof (cases "1 < n")
  case True
  then have "n \<noteq> 0" by auto
  then have "u64log2 n = 63 - clz64 n"
    using True clz64_top_bit(1) [of n] by (simp add: u64log2_def xor_63)
  then show ?thesis by linarith
qed (simp add: u64log2_def)

lemma u64log2_bounds:
  assumes "n \<noteq> 0"
  shows "2 ^ u64log2 n \<le> unat n" and "unat n < 2 ^ Suc (u64log2 n)"
proof -
  have "2 ^ u64log2 n \<le> unat n \<and> unat n < 2 ^ Suc (u64log2 n)"
  proof (cases "1 < n")
    case True
    then have "u64log2 n = 63 - clz64 n"
      using clz64_top_bit(1) [OF assms] by (simp add: u64log2_def xor_63)
    then show ?thesis
      using top_bit_bounds [OF clz64_top_bit(2,3) [OF assms]] by simp
  next
    case False
    then have "n = 1" using assms by (simp add: not_less word_le_nat_alt word_unat_eq_iff unat_gt_0 [symmetric] Suc_le_eq)
    then show ?thesis by (simp add: u64log2_def)
  qed
  then show "2 ^ u64log2 n \<le> unat n" and "unat n < 2 ^ Suc (u64log2 n)" by blast+
qed

lemma u64log2_eqI:
  assumes "2 ^ k \<le> unat n" and "unat n < 2 ^ Suc k"
  shows "u64log2 n = k"
proof -
  have "n \<noteq> 0" using assms(1) by auto
  note b = u64log2_bounds [OF this]
  have "(2 :: nat) ^ u64log2 n < 2 ^ Suc k" "(2 :: nat) ^ k < 2 ^ Suc (u64log2 n)"
    using b assms by (blast intro: le_less_trans)+
  then have "u64log2 n < Suc k" "k < Suc (u64log2 n)"
    using power_less_imp_less_exp [of "2 :: nat"] by (metis one_less_numeral_iff semiring_norm(76))+
  then show ?thesis by simp
qed

section \<open>The statistics of a chain of entries\<close>

definition stats_sized :: "ea_stats \<Rightarrow> bool" where
  "stats_sized st \<longleftrightarrow> length (log2_size_counts st) = 64 \<and> length (log2_size_bytes st) = 64 \<and>
     length (log2_size_utilized st) = 64"

definition in_class :: "nat \<Rightarrow> entry_array list \<Rightarrow> entry_array list" where
  "in_class l eas = filter (\<lambda>ea. u64log2 (ea_size ea) = l) eas"

text \<open>What a list of entries adds to the counts and to the utilization, class by class.\<close>

definition adds_entries :: "entry_array list \<Rightarrow> ea_stats \<Rightarrow> ea_stats \<Rightarrow> bool" where
  "adds_entries eas st st' \<longleftrightarrow> stats_sized st' \<and> st_count st' = st_count st \<and> st_unique st' = st_unique st \<and>
     (\<forall>l<64.
        sc_part (log2_size_counts st' ! l) = sc_part (log2_size_counts st ! l) + of_nat (length (in_class l eas)) \<and>
        sc_total (log2_size_counts st' ! l) =
          sc_total (log2_size_counts st ! l) + sum_list (map ea_count (in_class l eas)) \<and>
        sc_total (log2_size_utilized st' ! l) = sc_total (log2_size_utilized st ! l) +
          sum_list (map (\<lambda>ea. ea_size ea * ea_count ea) (in_class l eas)) \<and>
        sc_part (log2_size_utilized st' ! l) = sc_part (log2_size_utilized st ! l) +
          sum_list (map (\<lambda>ea. ea_utilized ea * ea_count ea) (in_class l eas)) \<and>
        (in_class l eas \<noteq> [] \<longrightarrow> log2_size_bytes st' ! l =
          (let ea = List.last (in_class l eas) in \<lparr>sc_total = ea_size ea * ea_count ea, sc_part = ea_size ea\<rparr>)))"

lemma stat_entries_adds:
  assumes "stats_sized st"
  shows "\<exists>st'. stat_entries eas st = Ok st' \<and> adds_entries eas st st'"
  using assms
proof (induction eas rule: rev_induct)
  case Nil
  then show ?case by (simp add: adds_entries_def in_class_def)
next
  case (snoc ea eas)
  have app: "stat_entries (eas @ [ea]) st = res_bind (stat_entries eas st) (stat_entry ea)" for st
  proof (induction eas arbitrary: st)
    case Nil
    then show ?case by (cases "stat_entry ea st") simp_all
  next
    case (Cons a eas)
    then show ?case by (cases "stat_entry a st") simp_all
  qed
  obtain st1 where st1: "stat_entries eas st = Ok st1" "adds_entries eas st st1" using snoc by blast
  have sized: "stats_sized st1" using st1(2) by (simp add: adds_entries_def)
  obtain st' where st': "stat_entry ea st1 = Ok st'" "adds_entries (eas @ [ea]) st st'"
    using sized st1(2) u64log2_less [of "ea_size ea"]
    by (auto simp: stat_entry_def Let_def stats_sized_def adds_entries_def in_class_def nth_list_update)
  then show ?case using app st1(1) by simp
qed

section \<open>The profile of a journal\<close>

text \<open>The payloads of the entry arrays among the objects, with their sizes.\<close>

definition entry_array_iter :: "iter \<Rightarrow> bool" where
  "entry_array_iter it \<longleftrightarrow> object_type_of (o_type (it_header it)) = Some OBJECT_ENTRY_ARRAY"

definition payload_of :: "bytes \<Rightarrow> iter \<Rightarrow> u64 \<times> bytes" where
  "payload_of content it =
     (o_size (it_header it) - 24, segment (unat (it_offset it) + 24) (unat (o_size (it_header it)) - 24) content)"

definition payloads :: "bytes \<Rightarrow> iter list \<Rightarrow> (u64 \<times> bytes) list" where
  "payloads content its = map (payload_of content) (filter entry_array_iter its)"

text \<open>An entry array lies in the file and has at least one byte of items.\<close>

definition entry_array_fits :: "bytes \<Rightarrow> iter \<Rightarrow> bool" where
  "entry_array_fits content it \<longleftrightarrow> (entry_array_iter it \<longrightarrow> 24 < unat (o_size (it_header it)) \<and>
     unat (it_offset it) + unat (o_size (it_header it)) \<le> length content \<and> length content < 2 ^ 63 \<and>
     unat (o_size (it_header it)) \<le> max_rw_count)"

definition profile_act :: "(bytes \<Rightarrow> bytes) \<Rightarrow> bytes \<Rightarrow> (iter, profile) closure" where
  "profile_act sha1 content it p =
     (if entry_array_iter it
      then case payload_of content it of (sz, bs) \<Rightarrow>
        per_entry_array_payload sha1 True sz bs (p\<lparr>pf_count := pf_count p + 1\<rparr>)
      else Ok p)"

context complete_reader
begin

lemma entry_array_step_act:
  assumes "inv j" and "entry_array_fits content it"
  shows "\<exists>j'. inv j' \<and> entry_array_step sha1 (True, True) rd it j p =
    res_map (\<lambda>p'. (j', p')) (profile_act sha1 content it p)"
proof (cases "entry_array_iter it")
  case True
  let ?off = "it_offset it + 24" and ?sz = "o_size (it_header it) - 24"
  have sz: "24 < unat (o_size (it_header it))"
    "unat (it_offset it) + unat (o_size (it_header it)) \<le> length content" "length content < 2 ^ 63"
    "unat (o_size (it_header it)) \<le> max_rw_count"
    using assms(2) True by (simp_all add: entry_array_fits_def)
  then have u: "unat ?sz = unat (o_size (it_header it)) - 24" by (simp add: unat_sub word_le_nat_alt)
  have off: "unat ?off = unat (it_offset it) + 24"
    using unat_add_no_wrap [of "it_offset it" 24] sz by simp
  have nz: "?sz \<noteq> 0" using u sz(1) by (metis unat_0 zero_less_diff less_irrefl)
  obtain j' where "rd j ?off ?sz = Ok (segment (unat ?off) (unat ?sz) content, j')" "inv j'"
    by (rule rd_in_range [OF assms(1) nz, where off = ?off]) (use u off sz in auto)
  then show ?thesis
    using True u off
    by (auto simp: entry_array_step_def profile_act_def payload_of_def entry_array_iter_def Let_def
      offsetof_EntryArrayObject_items_def)
next
  case False
  then show ?thesis
    using assms(1) by (auto simp: entry_array_step_def profile_act_def entry_array_iter_def)
qed

end

interpretation ea_step: reading_step "read_chain h"
    "\<lambda>j. reads_file h content \<and> reads_fully h content \<and> coherent content j" content
    "entry_array_step sha1 (True, True) (read_chain h)" "entry_array_fits content" "profile_act sha1 content"
  for h content sha1
  by unfold_locales (rule chain_full.entry_array_step_act)

text \<open>What the objects add to the profile, in the abstract.\<close>

definition note_all :: "(bytes \<Rightarrow> bytes) \<Rightarrow> (u64 \<times> bytes) list \<Rightarrow> (bytes \<Rightarrow> entry_array option) \<Rightarrow> bytes \<Rightarrow> entry_array option" where
  "note_all sha1 pls = fold (\<lambda>(sz, bs). note_payload sha1 sz bs) pls"

definition unseen :: "profile \<Rightarrow> u64" where
  "unseen p = pf_unique p - of_nat (card (dom (profile_map p)))"

definition adds_payloads :: "(bytes \<Rightarrow> bytes) \<Rightarrow> bytes \<Rightarrow> iter list \<Rightarrow> profile \<Rightarrow> profile \<Rightarrow> bool" where
  "adds_payloads sha1 content its p p' \<longleftrightarrow>
     profile_map p' = note_all sha1 (payloads content its) (profile_map p) \<and>
     pf_count p' = pf_count p + of_nat (length (payloads content its)) \<and>
     unseen p' = unseen p"

lemma finite_dom_profile_map:
  assumes "profile_ok p"
  shows "finite (dom (profile_map p))"
proof -
  have "dom (profile_map p) \<subseteq> ea_digest ` set (concat (pf_buckets p))"
  proof
    fix d assume "d \<in> dom (profile_map p)"
    then obtain ea where "in_chain (pf_buckets p ! digest_bucket d) d = Some ea" by (auto simp: profile_map_def)
    then have "ea \<in> set (pf_buckets p ! digest_bucket d)" "ea_digest ea = d" by (auto dest: in_chain_SomeD)
    moreover have "digest_bucket d < length (pf_buckets p)"
      using assms digest_bucket_less by (simp add: profile_ok_def)
    ultimately show "d \<in> ea_digest ` set (concat (pf_buckets p))" by (auto simp: image_iff)
  qed
  then show ?thesis by (rule finite_subset) simp
qed

definition profile_effect :: "(bytes \<Rightarrow> bytes) \<Rightarrow> bytes \<Rightarrow> iter \<Rightarrow> profile \<Rightarrow> profile" where
  "profile_effect sha1 content it p = (case profile_act sha1 content it p of Ok p' \<Rightarrow> p' | Fail _ \<Rightarrow> p)"

lemma profile_ok_count [simp]: "profile_ok (p\<lparr>pf_count := n\<rparr>) = profile_ok p"
  "profile_map (p\<lparr>pf_count := n\<rparr>) = profile_map p"
  by (simp_all add: profile_ok_def profile_map_def fun_eq_iff)

lemma profile_act_adds:
  assumes "entry_array_fits content it" and "profile_ok p"
  shows "\<exists>p'. profile_act sha1 content it p = Ok p' \<and> profile_ok p' \<and> adds_payloads sha1 content [it] p p'"
proof (cases "entry_array_iter it")
  case True
  let ?sz = "o_size (it_header it) - 24"
  let ?bs = "snd (payload_of content it)"
  have "unat ?sz = unat (o_size (it_header it)) - 24" "24 < unat (o_size (it_header it))"
    using True assms(1) by (simp_all add: entry_array_fits_def unat_sub word_le_nat_alt)
  then have nz: "?sz \<noteq> 0" by (metis unat_0 zero_less_diff less_irrefl)
  have "profile_ok (p\<lparr>pf_count := pf_count p + 1\<rparr>)" using assms(2) by simp
  from payload_refines [OF this nz, of sha1 ?bs] obtain p' where p':
    "per_entry_array_payload sha1 True ?sz ?bs (p\<lparr>pf_count := pf_count p + 1\<rparr>) = Ok p'" "profile_ok p'"
    "profile_map p' = note_payload sha1 ?sz ?bs (profile_map p)" "pf_count p' = pf_count p + 1"
    "pf_unique p' = pf_unique p + (if profile_map p (sha1 ?bs) = None then 1 else 0)"
    by auto
  have "card (dom (profile_map p')) =
      card (dom (profile_map p)) + (if profile_map p (sha1 ?bs) = None then 1 else 0)"
    using finite_dom_profile_map [OF assms(2)] unfolding p'(3) note_payload_def
    by (auto simp: card_insert_if domIff insert_absorb)
  then have "unseen p' = unseen p" using p'(5) by (simp add: unseen_def)
  then show ?thesis
    using True p' by (auto simp: profile_act_def payload_of_def adds_payloads_def payloads_def note_all_def)
next
  case False
  then show ?thesis
    using assms(2) by (auto simp: profile_act_def adds_payloads_def payloads_def note_all_def)
qed

interpretation profile_closure: summing_closure "profile_act sha1 content" "entry_array_fits content" profile_ok
    "profile_effect sha1 content" "adds_payloads sha1 content" for sha1 content
proof
  fix it p
  assume *: "entry_array_fits content it" "profile_ok p"
  from profile_act_adds [OF this, of sha1]
  show "profile_act sha1 content it p = Ok (profile_effect sha1 content it p)"
    and "profile_ok (profile_effect sha1 content it p)"
    and "adds_payloads sha1 content [it] p (profile_effect sha1 content it p)"
    by (auto simp: profile_effect_def)
qed (auto simp: adds_payloads_def payloads_def note_all_def)

lemma note_all_spec:
  "dom (note_all sha1 pls Map.empty) = (sha1 \<circ> snd) ` set pls \<and>
   (\<forall>d ea. note_all sha1 pls Map.empty d = Some ea \<longrightarrow>
      ea_count ea = of_nat (length (filter (\<lambda>pl. (sha1 \<circ> snd) pl = d) pls)) \<and>
      (\<exists>pl\<in>set pls. (sha1 \<circ> snd) pl = d \<and> ea_size ea = fst pl))"
proof (induction pls rule: rev_induct)
  case (snoc pl pls)
  let ?m = "note_all sha1 pls Map.empty" and ?g = "sha1 \<circ> snd"
  obtain sz bs where pl: "pl = (sz, bs)" by (cases pl)
  have step: "note_all sha1 (pls @ [pl]) Map.empty = note_payload sha1 sz bs ?m"
    by (simp add: note_all_def pl)
  have dom: "dom ?m = ?g ` set pls"
    and IH: "\<And>d ea. ?m d = Some ea \<Longrightarrow> ea_count ea = of_nat (length (filter (\<lambda>pl. ?g pl = d) pls)) \<and>
      (\<exists>pl\<in>set pls. ?g pl = d \<and> ea_size ea = fst pl)"
    using snoc.IH by blast+
  have "dom (note_payload sha1 sz bs ?m) = ?g ` set (pls @ [pl])"
    using dom by (simp add: note_payload_def pl)
  moreover have "ea_count ea = of_nat (length (filter (\<lambda>pl. ?g pl = d) (pls @ [pl]))) \<and>
      (\<exists>pl\<in>set (pls @ [pl]). ?g pl = d \<and> ea_size ea = fst pl)" if "note_payload sha1 sz bs ?m d = Some ea" for d ea
  proof (cases "d = sha1 bs")
    case False
    then have "?m d = Some ea" using that by (simp add: note_payload_def)
    from IH [OF this] show ?thesis using False by (auto simp: pl)
  next
    case True
    show ?thesis
    proof (cases "?m (sha1 bs)")
      case None
      then have "sha1 bs \<notin> ?g ` set pls" using dom by (metis domIff)
      then have "filter (\<lambda>pl. ?g pl = sha1 bs) pls = []" by (force simp: filter_empty_conv)
      then show ?thesis using that True None by (auto simp: note_payload_def pl)
    next
      case (Some ea0)
      then have "ea = ea0\<lparr>ea_count := ea_count ea0 + 1\<rparr>" using that True by (simp add: note_payload_def)
      then show ?thesis using IH [OF Some] True by (simp add: pl)
    qed
  qed
  ultimately show ?case unfolding step by blast
qed (simp add: note_all_def)

lemma distinct_digests:
  "(\<And>b. b < length bs \<Longrightarrow> bucket_ok (k + b) (bs ! b)) \<Longrightarrow>
     distinct (map ea_digest (concat bs)) \<and> (\<forall>ea\<in>set (concat bs). k \<le> digest_bucket (ea_digest ea))"
proof (induction bs arbitrary: k)
  case (Cons chain bs)
  have "bucket_ok (Suc k + b) (bs ! b)" if "b < length bs" for b
    using Cons.prems [of "Suc b"] that by simp
  then have "distinct (map ea_digest (concat bs)) \<and> (\<forall>ea\<in>set (concat bs). Suc k \<le> digest_bucket (ea_digest ea))"
    by (rule Cons.IH)
  moreover have "bucket_ok k chain" using Cons.prems [of 0] by simp
  ultimately show ?case by (force simp: bucket_ok_def)
qed simp

lemma profile_entries:
  assumes "profile_ok p"
  shows "distinct (map ea_digest (concat (pf_buckets p)))"
    and "ea \<in> set (concat (pf_buckets p)) \<longleftrightarrow> profile_map p (ea_digest ea) = Some ea"
proof -
  have len: "length (pf_buckets p) = N_BUCKETS" and ok: "\<And>b. b < N_BUCKETS \<Longrightarrow> bucket_ok b (pf_buckets p ! b)"
    using assms by (simp_all add: profile_ok_def)
  show "distinct (map ea_digest (concat (pf_buckets p)))"
    using distinct_digests [of "pf_buckets p" 0] len ok by simp
  show "ea \<in> set (concat (pf_buckets p)) \<longleftrightarrow> profile_map p (ea_digest ea) = Some ea"
  proof
    assume "ea \<in> set (concat (pf_buckets p))"
    then obtain chain where "chain \<in> set (pf_buckets p)" "ea \<in> set chain" by auto
    then obtain b where b: "b < N_BUCKETS" "ea \<in> set (pf_buckets p ! b)"
      using len in_set_conv_nth [of chain "pf_buckets p"] by auto
    then have "digest_bucket (ea_digest ea) = b" using ok by (auto simp: bucket_ok_def)
    moreover have "in_chain chain (ea_digest ea) = Some ea"
      if "ea \<in> set chain" "distinct (map ea_digest chain)" for chain
      using that by (induction chain) (auto simp: in_chain_def)
    ultimately show "profile_map p (ea_digest ea) = Some ea"
      using b ok [of b] by (simp add: profile_map_def bucket_ok_def)
  next
    assume "profile_map p (ea_digest ea) = Some ea"
    then have "ea \<in> set (pf_buckets p ! digest_bucket (ea_digest ea))"
      by (auto simp: profile_map_def dest: in_chain_SomeD)
    then show "ea \<in> set (concat (pf_buckets p))"
      using digest_bucket_less [of "ea_digest ea"] len by (auto intro!: bexI [of _ "pf_buckets p ! digest_bucket (ea_digest ea)"])
  qed
qed

text \<open>A sum over the entries is one over their digests.\<close>

lemma sum_entries:
  fixes f :: "entry_array \<Rightarrow> 'a::comm_monoid_add"
  assumes "distinct (map ea_digest eas)" and "\<forall>ea\<in>set eas. m (ea_digest ea) = Some ea"
  shows "sum_list (map f eas) = (\<Sum>d\<in>ea_digest ` set eas. f (the (m d)))"
proof -
  have "sum_list (map f eas) = sum f (set eas)"
    using assms(1) by (simp add: sum_list_distinct_conv_sum_set distinct_map)
  also have "\<dots> = (\<Sum>d\<in>ea_digest ` set eas. f (the (m d)))"
    using assms by (subst sum.reindex) (auto simp: distinct_map intro!: sum.cong)
  finally show ?thesis .
qed

lemma length_filter_groups:
  assumes "\<And>x y. x \<in> set xs \<Longrightarrow> y \<in> set xs \<Longrightarrow> g x = g y \<Longrightarrow> P x = P y"
  shows "(\<Sum>d\<in>g ` {x \<in> set xs. P x}. length (filter (\<lambda>x. g x = d) xs)) = length (filter P xs)"
proof -
  let ?D = "g ` {x \<in> set xs. P x}" and ?I = "\<lambda>d. {i. i < length xs \<and> g (xs ! i) = d}"
  have "(\<Sum>d\<in>?D. length (filter (\<lambda>x. g x = d) xs)) = (\<Sum>d\<in>?D. card (?I d))"
    by (simp add: length_filter_conv_card)
  also have "\<dots> = card (\<Union>d\<in>?D. ?I d)" by (rule card_UN_disjoint [symmetric]) auto
  also have "(\<Union>d\<in>?D. ?I d) = {i. i < length xs \<and> P (xs ! i)}"
  proof (rule set_eqI)
    fix i
    have "g (xs ! i) \<in> ?D \<longleftrightarrow> P (xs ! i)" if "i < length xs"
    proof
      assume "g (xs ! i) \<in> ?D"
      then obtain x where "x \<in> set xs" "P x" "g x = g (xs ! i)" by force
      then show "P (xs ! i)" using assms [of x "xs ! i"] that by simp
    qed (use that in simp)
    then show "i \<in> (\<Union>d\<in>?D. ?I d) \<longleftrightarrow> i \<in> {i. i < length xs \<and> P (xs ! i)}" by blast
  qed
  finally show ?thesis by (simp add: length_filter_conv_card)
qed

text \<open>The digests in a size class of a profile that counted payloads, when equal digests have equal sizes.\<close>

lemma digest_of_entry: "profile_map p d = Some ea \<Longrightarrow> ea_digest ea = d"
  using in_chain_SomeD unfolding profile_map_def by blast

lemma class_digests:
  assumes "profile_ok p" and "profile_map p = note_all sha1 pls Map.empty"
    and "\<forall>x\<in>set pls. \<forall>y\<in>set pls. sha1 (snd x) = sha1 (snd y) \<longrightarrow> fst x = fst y"
  shows "ea_digest ` set (in_class l (concat (pf_buckets p))) = (sha1 \<circ> snd) ` {pl \<in> set pls. u64log2 (fst pl) = l}"
proof -
  let ?g = "sha1 \<circ> snd" and ?m = "profile_map p"
  have dom: "dom ?m = ?g ` set pls"
    and ent: "\<And>d ea. ?m d = Some ea \<Longrightarrow> \<exists>pl\<in>set pls. ?g pl = d \<and> ea_size ea = fst pl"
    using note_all_spec [of sha1 pls] unfolding assms(2) by blast+
  have entry: "ea \<in> set (concat (pf_buckets p)) \<longleftrightarrow> ?m (ea_digest ea) = Some ea" for ea
    by (rule profile_entries(2) [OF assms(1)])
  show ?thesis
  proof (intro equalityI subsetI)
    fix d assume "d \<in> ea_digest ` set (in_class l (concat (pf_buckets p)))"
    then obtain ea where "?m d = Some ea" "u64log2 (ea_size ea) = l"
      using entry by (auto simp: in_class_def simp del: set_concat)
    then show "d \<in> ?g ` {pl \<in> set pls. u64log2 (fst pl) = l}" using ent [of d ea] by force
  next
    fix d assume "d \<in> ?g ` {pl \<in> set pls. u64log2 (fst pl) = l}"
    then obtain pl where pl: "pl \<in> set pls" "u64log2 (fst pl) = l" "?g pl = d" by blast
    then obtain ea where ea: "?m d = Some ea" using dom by blast
    obtain pl' where "pl' \<in> set pls" "?g pl' = d" "ea_size ea = fst pl'" using ent [OF ea] by blast
    moreover from this have "fst pl' = fst pl" using assms(3) pl by (metis comp_apply)
    moreover have "ea \<in> set (concat (pf_buckets p))" using ea digest_of_entry [OF ea] entry by metis
    ultimately have "ea \<in> set (in_class l (concat (pf_buckets p)))" unfolding in_class_def using pl(2) by simp
    then show "d \<in> ea_digest ` set (in_class l (concat (pf_buckets p)))" using digest_of_entry [OF ea] by blast
  qed
qed

lemma class_counts:
  assumes "profile_ok p" and "profile_map p = note_all sha1 pls Map.empty"
    and "\<forall>x\<in>set pls. \<forall>y\<in>set pls. sha1 (snd x) = sha1 (snd y) \<longrightarrow> fst x = fst y"
  shows "length (in_class l (concat (pf_buckets p))) = card ((sha1 \<circ> snd) ` {pl \<in> set pls. u64log2 (fst pl) = l})"
    and "sum_list (map ea_count (in_class l (concat (pf_buckets p)))) =
      of_nat (length (filter (\<lambda>pl. u64log2 (fst pl) = l) pls))"
proof -
  let ?g = "sha1 \<circ> snd" and ?m = "profile_map p" and ?eas = "in_class l (concat (pf_buckets p))"
  let ?D = "?g ` {pl \<in> set pls. u64log2 (fst pl) = l}"
  have dom: "dom ?m = ?g ` set pls"
    and ent: "\<And>d ea. ?m d = Some ea \<Longrightarrow> ea_count ea = of_nat (length (filter (\<lambda>pl. ?g pl = d) pls))"
    using note_all_spec [of sha1 pls] unfolding assms(2) by blast+
  have dig: "distinct (map ea_digest ?eas)"
    using profile_entries(1) [OF assms(1)] by (simp add: in_class_def distinct_map_filter)
  have mem: "\<forall>ea\<in>set ?eas. ?m (ea_digest ea) = Some ea"
    using profile_entries(2) [OF assms(1)] by (simp add: in_class_def del: set_concat)
  note D = class_digests [OF assms, of l]
  have "length ?eas = card (set (map ea_digest ?eas))" using distinct_card [OF dig] by simp
  then show "length ?eas = card ?D" using D by simp
  have "sum_list (map ea_count ?eas) = (\<Sum>d\<in>?D. ea_count (the (?m d)))"
    using sum_entries [OF dig mem, of ea_count] D by simp
  also have "\<dots> = (\<Sum>d\<in>?D. of_nat (length (filter (\<lambda>pl. ?g pl = d) pls)))"
  proof (rule sum.cong [OF refl])
    fix d assume "d \<in> ?D"
    then obtain ea where "?m d = Some ea" using dom by blast
    then show "ea_count (the (?m d)) = of_nat (length (filter (\<lambda>pl. ?g pl = d) pls))" using ent by simp
  qed
  also have "\<dots> = of_nat (\<Sum>d\<in>?D. length (filter (\<lambda>pl. ?g pl = d) pls))" by (simp only: of_nat_sum)
  also have "(\<Sum>d\<in>?D. length (filter (\<lambda>pl. ?g pl = d) pls)) = length (filter (\<lambda>pl. u64log2 (fst pl) = l) pls)"
  proof (rule length_filter_groups)
    fix x y assume "x \<in> set pls" "y \<in> set pls" "?g x = ?g y"
    then have "fst x = fst y" using assms(3) by (metis comp_apply)
    then show "(u64log2 (fst x) = l) = (u64log2 (fst y) = l)" by simp
  qed
  finally show "sum_list (map ea_count ?eas) = of_nat (length (filter (\<lambda>pl. u64log2 (fst pl) = l) pls))" .
qed

text \<open>The statistics of a journal whose entry arrays have these payloads.\<close>

definition stats_of :: "(bytes \<Rightarrow> bytes) \<Rightarrow> (u64 \<times> bytes) list \<Rightarrow> ea_stats \<Rightarrow> bool" where
  "stats_of sha1 pls stats \<longleftrightarrow>
     st_count stats = of_nat (length pls) \<and> st_unique stats = of_nat (card ((sha1 \<circ> snd) ` set pls)) \<and>
     stats_sized stats \<and>
     (\<forall>l<64. sc_total (log2_size_counts stats ! l) = of_nat (length (filter (\<lambda>pl. u64log2 (fst pl) = l) pls)) \<and>
        sc_part (log2_size_counts stats ! l) = of_nat (card ((sha1 \<circ> snd) ` {pl \<in> set pls. u64log2 (fst pl) = l})))"

definition sizes_by_digest :: "(bytes \<Rightarrow> bytes) \<Rightarrow> (u64 \<times> bytes) list \<Rightarrow> bool" where
  "sizes_by_digest sha1 pls \<longleftrightarrow> (\<forall>x\<in>set pls. \<forall>y\<in>set pls. sha1 (snd x) = sha1 (snd y) \<longrightarrow> fst x = fst y)"

lemma zero_profile_ok: "profile_ok zero_profile" "profile_map zero_profile = Map.empty"
  using digest_bucket_less
  by (auto simp: zero_profile_def profile_ok_def bucket_ok_def profile_map_def in_chain_def fun_eq_iff)

lemma journal_stats_of:
  assumes "profile_ok p" and "adds_payloads sha1 content its zero_profile p"
    and "sizes_by_digest sha1 (payloads content its)"
  shows "\<exists>stats. journal_stats p = Ok stats \<and> stats_of sha1 (payloads content its) stats"
proof -
  let ?pls = "payloads content its"
  have map: "profile_map p = note_all sha1 ?pls Map.empty" and cnt: "pf_count p = of_nat (length ?pls)"
    and "unseen p = unseen zero_profile"
    using assms(2) by (simp_all add: adds_payloads_def zero_profile_ok(2)) (simp_all add: zero_profile_def)
  then have unq: "pf_unique p = of_nat (card (dom (profile_map p)))"
    by (simp add: unseen_def zero_profile_ok(2)) (simp add: zero_profile_def)
  obtain stats where st: "journal_stats p = Ok stats"
    "adds_entries (concat (pf_buckets p)) (zero_stats (pf_count p) (pf_unique p)) stats"
    using stat_entries_adds [of "zero_stats (pf_count p) (pf_unique p)"]
    by (auto simp: journal_stats_def stats_sized_def zero_stats_def zero_classes_def)
  have "dom (profile_map p) = (sha1 \<circ> snd) ` set ?pls" unfolding map using note_all_spec by blast
  then show ?thesis
    using st cnt unq class_counts [OF assms(1) map assms(3)[unfolded sizes_by_digest_def]]
    by (simp add: adds_entries_def zero_stats_def zero_classes_def stats_of_def)
qed

section \<open>Properties\<close>

text \<open>C15: Counting the payload of an entry array in the hash table is counting it in a map from digests: a
  digest not seen before gets an entry with the payload's size and utilization, one that was seen is
  counted once more, \<open>unique\<close> grows exactly in the first case, and the table stays well-formed, each
  digest at most once and in its own bucket.\<close>

theorem entry_profile_refines_map:
  assumes "profile_ok p" and "sz \<noteq> 0"
  shows "\<exists>p'. per_entry_array_payload sha1 True sz bs p = Ok p' \<and> profile_ok p' \<and>
    profile_map p' = note_payload sha1 sz bs (profile_map p) \<and> pf_count p' = pf_count p \<and>
    pf_unique p' = pf_unique p + (if profile_map p (sha1 bs) = None then 1 else 0)"
  by (rule payload_refines [OF assms])

theorem entry_profile_refines_map_witness:
  "\<exists>p'. per_entry_array_payload (\<lambda>bs. take 20 bs) True 8 [1, 0, 0, 0, 0, 0, 0, 0] zero_profile = Ok p' \<and>
    pf_unique p' = 1 \<and> map_option ea_utilized (profile_map p' [1, 0, 0, 0, 0, 0, 0, 0]) = Some 8"
  using entry_profile_refines_map [OF zero_profile_ok(1), of 8 "\<lambda>bs. take 20 bs" "[1, 0, 0, 0, 0, 0, 0, 0]"]
  by (auto simp: zero_profile_ok(2) note_payload_def) (simp add: zero_profile_def)

text \<open>For a journal whose objects chain up and whose entry arrays lie in the file, the statistics
  count its entry arrays and their distinct payloads, in all and for each class of sizes, when
  payloads of equal digest have equal sizes.\<close>

lemma entry_arrays_counted:
  assumes "reads_file h content" and "reads_fully h content" and "coherent content j"
    and "journal_file content objs" and "it_offset it = 0"
    and "\<forall>i\<in>set (object_iters objs). entry_array_fits content i"
    and "pls = payloads content (object_iters objs)" and "sizes_by_digest sha1 pls"
  shows "\<exists>stats text. entry_arrays_per_journal sha1 (True, True) (read_chain h) be name it zero_profile j s =
      Some (Ok (stats, text, add_stats (snd s) stats)) \<and> stats_of sha1 pls stats"
proof -
  let ?its = "object_iters objs"
  have inv: "reads_file h content \<and> reads_fully h content \<and> coherent content j" using assms by simp
  obtain p where p: "dispatch_all (profile_act sha1 content) ?its zero_profile = Ok p" "profile_ok p"
    "adds_payloads sha1 content ?its zero_profile p"
    by (rule profile_closure.dispatch_all_adds [OF assms(6) zero_profile_ok(1)])
  obtain stats where st: "journal_stats p = Ok stats" "stats_of sha1 pls stats"
    using journal_stats_of [OF p(2,3)] assms(7,8) by blast
  obtain out where out: "print_stats stats = Ok out" using print_stats_Ok by blast
  obtain j1 where j1: "journal_get_header (read_chain h) be j = Ok (file_header content, j1)"
    "reads_file h content \<and> reads_fully h content \<and> coherent content j1"
    by (rule chain_full.get_header [OF inv]) (use assms(4) in \<open>auto simp: journal_file_def\<close>)
  have "\<exists>it' j'. header_then_loop (read_chain h) be (\<lambda>header. entry_array_step sha1 (True, True) (read_chain h))
      it j zero_profile = Some (Ok (it', j', p))"
    using ea_step.first_then_loop [OF j1(2) assms(5) _ assms(6), of "file_header content" be sha1 zero_profile]
      assms(4) j1(1) p(1) by (auto simp: header_then_loop_def journal_file_def)
  then show ?thesis
    using st out by (auto simp: entry_arrays_per_journal_def entry_arrays_end_def)
qed

text \<open>Two entry arrays of the same two items, one of them unused.\<close>

definition ea_object :: bytes where
  "ea_object = [6, 0, 0, 0, 0, 0, 0, 0, 40, 0, 0, 0, 0, 0, 0, 0] @ replicate 8 0 @ [0, 1] @ replicate 14 0"

definition ea_journal :: bytes where
  "ea_journal = take 136 sample_journal @ [40, 1, 0, 0, 0, 0, 0, 0] @ replicate 112 0 @ ea_object @ ea_object"

definition ea_objects :: "(u64 \<times> ObjectHeader) list" where
  "ea_objects = map (\<lambda>off. (off, \<lparr>o_type = 6, o_flags = 0, o_reserved = [0, 0, 0, 0, 0, 0], o_size = 40\<rparr>)) [256, 296]"

lemma ea_journal_expand: "ea_journal = replicate 88 0 @ [0, 1, 0, 0, 0, 0, 0, 0] @ replicate 40 0 @
    [40, 1, 0, 0, 0, 0, 0, 0] @ replicate 112 0 @ ea_object @ ea_object"
  by (simp add: ea_journal_def sample_journal_def)

lemma length_ea_journal: "length ea_journal = 336"
  by (simp add: ea_journal_expand ea_object_def)

lemma ea_journal_file: "journal_file ea_journal ea_objects"
proof -
  have "header_size (file_header ea_journal) = 256" "tail_object_offset (file_header ea_journal) = 296"
    by (simp_all add: file_header_def parse_header_def header_with_def ea_journal_expand segment_def
      le64_at_def sizeof_Header_def)
  then show ?thesis
    by (simp add: journal_file_def length_ea_journal sizeof_Header_def ea_objects_def sizeof_ObjectHeader_def)
      (simp add: ea_journal_expand ea_object_def segment_def parse_object_header_def le64_at_def ALIGN64_def)
qed

lemma ea_payloads: "payloads ea_journal (object_iters ea_objects) =
    [(16, [0, 1] @ replicate 14 0), (16, [0, 1] @ replicate 14 0)]"
  by (simp add: payloads_def object_iters_def ea_objects_def entry_array_iter_def object_type_of_def
    OBJECT_TYPE_MAX_def object_types_def payload_of_def)
    (simp add: ea_journal_expand ea_object_def segment_def)

lemma entry_arrays_counted_witness:
  "\<exists>stats text. entry_arrays_per_journal (take 20) (True, True) (read_chain (file_host False ea_journal)) False ''a''
      zero_iter zero_profile (link_bufs (calloc_journal ''a'')) ([], zero_stats 0 0) =
      Some (Ok (stats, text, add_stats (zero_stats 0 0) stats)) \<and> st_count stats = 2 \<and> st_unique stats = 1 \<and>
    sc_total (log2_size_counts stats ! 4) = 2"
proof -
  have len: "length ea_journal < 2 ^ 63" by (simp add: length_ea_journal)
  have it: "it_offset zero_iter = 0" by (simp add: zero_iter_def)
  have fits: "\<forall>i\<in>set (object_iters ea_objects). entry_array_fits ea_journal i"
    by (simp add: object_iters_def ea_objects_def entry_array_fits_def length_ea_journal max_rw_count_def)
  have log: "u64log2 16 = 4" by (rule u64log2_eqI) simp_all
  have ea_sizes: "sizes_by_digest (take 20) (payloads ea_journal (object_iters ea_objects))"
    by (simp add: ea_payloads sizes_by_digest_def)
  from entry_arrays_counted [OF file_host_reads [OF len, of False] file_host_fully link_bufs_coherent [of _ "''a''"]
      ea_journal_file it fits refl ea_sizes, of False "''a''" "([], zero_stats 0 0)",
      unfolded ea_payloads]
  obtain stats out where st: "entry_arrays_per_journal (take 20) (True, True) (read_chain (file_host False ea_journal))
      False ''a'' zero_iter zero_profile (link_bufs (calloc_journal ''a'')) ([], zero_stats 0 0) =
      Some (Ok (stats, out, add_stats (zero_stats 0 0) stats))" "st_count stats = 2" "st_unique stats = 1"
    "\<forall>l<64. sc_total (log2_size_counts stats ! l) = of_nat (length (filter (\<lambda>pl. u64log2 (fst pl) = l)
       [(16, [0, 1] @ replicate 14 (0 :: u8)), (16, [0, 1] @ replicate 14 0)]))"
    by (auto simp: insert_absorb stats_of_def)
  then have "sc_total (log2_size_counts stats ! 4) = 2" by (simp add: log)
  then show ?thesis using st by blast
qed

text \<open>The sizes by class are overwritten where the counts are added: what is printed for a class is
  that of the last of its entries in the table's order, whatever the others hold.\<close>

theorem class_bytes_of_last_entry:
  assumes "in_class l (concat (pf_buckets p)) \<noteq> []"
  shows "\<exists>stats. journal_stats p = Ok stats \<and> log2_size_bytes stats ! l =
    (let ea = List.last (in_class l (concat (pf_buckets p))) in
      \<lparr>sc_total = ea_size ea * ea_count ea, sc_part = ea_size ea\<rparr>)"
proof -
  obtain ea where "ea \<in> set (in_class l (concat (pf_buckets p)))" using assms by (cases "in_class l (concat (pf_buckets p))") auto
  then have "l < 64" using u64log2_less by (auto simp: in_class_def)
  then show ?thesis
    using stat_entries_adds [of "zero_stats (pf_count p) (pf_unique p)" "concat (pf_buckets p)"] assms
    by (auto simp: journal_stats_def stats_sized_def zero_stats_def zero_classes_def adds_entries_def)
qed

text \<open>Of two payloads of 8 and 15 bytes only the 15 are reported.\<close>

theorem class_bytes_of_last_entry_witness:
  "\<exists>stats. journal_stats \<lparr>pf_count = 2, pf_unique = 2, pf_buckets = [[\<lparr>ea_digest = [], ea_count = 1, ea_size = 8,
      ea_utilized = 8\<rparr>], [\<lparr>ea_digest = [1], ea_count = 1, ea_size = 15, ea_utilized = 8\<rparr>]]\<rparr> = Ok stats \<and>
    log2_size_bytes stats ! 3 = \<lparr>sc_total = 15, sc_part = 15\<rparr>"
proof -
  have log: "u64log2 8 = 3" "u64log2 15 = 3" by (rule u64log2_eqI; simp)+
  show ?thesis
    using class_bytes_of_last_entry [of 3 "\<lparr>pf_count = 2, pf_unique = 2, pf_buckets = [[\<lparr>ea_digest = [], ea_count = 1,
      ea_size = 8, ea_utilized = 8\<rparr>], [\<lparr>ea_digest = [1], ea_count = 1, ea_size = 15, ea_utilized = 8\<rparr>]]\<rparr>"]
    by (simp add: in_class_def log)
qed

text \<open>An entry array without items stops the program.\<close>

lemma empty_entry_array_asserts:
  assumes "entry_array_iter it" and "o_size (it_header it) = 24"
  shows "entry_array_step sha1 (True, True) (read_chain h) it j p = Fail AssertFail"
  using assms by (simp add: entry_array_step_def entry_array_iter_def read_chain_def journal_read_def
    offsetof_EntryArrayObject_items_def)

text \<open>The sum of a digest's bytes reaches few of the buckets.\<close>

lemma digest_bucket_le: "digest_bucket d \<le> 255 * length d"
proof -
  have "fold (\<lambda>d bucket. (bucket + unat d) mod N_BUCKETS) d b \<le> b + 255 * length d" for b
  proof (induction d arbitrary: b)
    case (Cons x d)
    have "unat x \<le> 255" using unsigned_less [of x, where 'a = nat] by simp
    then have "(b + unat x) mod N_BUCKETS \<le> b + 255" by (meson add_left_mono le_trans mod_less_eq_dividend)
    then show ?case using Cons [of "(b + unat x) mod N_BUCKETS"] by simp
  qed simp
  from this [of 0] show ?thesis by (simp add: digest_bucket_def)
qed

end
