(* ===== verification/Entry_Array_Schedule.thy ===== *)
theory Entry_Array_Schedule
  imports Report_Entry_Arrays
begin

text \<open>
  \<^verbatim>\<open>report-entry-arrays.c\<close> over several journals as one run: each chain profiles its own journal, and
  prints its statistics and adds them to the shared totals when its journal ends.
\<close>

section \<open>The chains of the report\<close>

text \<open>\<open>per_journal\<close>: the allocated closure holds an iterator and the profile.\<close>

definition entry_arrays_begin ::
  "(journal \<Rightarrow> iter \<times> profile) \<Rightarrow> (journal, profile proc list \<times> string \<times> ea_stats) closure" where
  "entry_arrays_begin mem jr s = Ok (fst s @ [start_chain (fst (mem jr)) (snd (mem jr)) jr], snd s)"

definition entry_arrays_act ::
  "(bytes \<Rightarrow> bytes) \<Rightarrow> bool \<times> bool \<Rightarrow> host \<Rightarrow> (profile, string \<times> ea_stats) act" where
  "entry_arrays_act sha1 allocs h header it j p s =
     (if it_offset it = 0 then res_map (\<lambda>(_, s'). (j, p, s')) (entry_arrays_end (j_name j) p s)
      else res_map (\<lambda>(j', p'). (j', p', s)) (entry_array_step sha1 allocs (read_chain h) it j p))"

definition ea_chain_step ::
  "(bytes \<Rightarrow> bytes) \<Rightarrow> bool \<times> bool \<Rightarrow> host \<Rightarrow> (profile proc, string \<times> ea_stats) chain" where
  "ea_chain_step sha1 allocs h = chain_step False (entry_arrays_act sha1 allocs h) h"

definition entry_arrays_start ::
  "profile job list \<Rightarrow> string \<times> ea_stats \<Rightarrow> profile proc list \<times> string \<times> ea_stats" where
  "entry_arrays_start jobs s = (map (begin_chain jb_data) jobs, s)"

lemma entry_arrays_begin_all:
  assumes "\<forall>b\<in>set jobs. mem (jb_bufs b) = (jb_iter b, jb_data b)"
  shows "dispatch_all (entry_arrays_begin mem) (map jb_bufs jobs) (ps, s) = Ok (ps @ fst (entry_arrays_start jobs s), s)"
  using assms
  by (induction jobs arbitrary: ps) (simp_all add: entry_arrays_begin_def entry_arrays_start_def begin_chain_def)

section \<open>What the journals add to the totals\<close>

definition job_payloads :: "profile job \<Rightarrow> (u64 \<times> bytes) list" where
  "job_payloads b = payloads (jb_content b) (object_iters (jb_objs b))"

text \<open>The entry arrays of each journal, and the distinct ones among each journal's, in all and per class.\<close>

definition of_class :: "nat \<Rightarrow> (u64 \<times> bytes) list \<Rightarrow> (u64 \<times> bytes) list" where
  "of_class l pls = filter (\<lambda>pl. u64log2 (fst pl) = l) pls"

definition distinct_payloads :: "(bytes \<Rightarrow> bytes) \<Rightarrow> (u64 \<times> bytes) list \<Rightarrow> nat" where
  "distinct_payloads sha1 pls = card ((sha1 \<circ> snd) ` set pls)"

definition adds_journals :: "(bytes \<Rightarrow> bytes) \<Rightarrow> (u64 \<times> bytes) list list \<Rightarrow> ea_stats \<Rightarrow> ea_stats \<Rightarrow> bool" where
  "adds_journals sha1 plss t t' \<longleftrightarrow> stats_sized t' \<and>
     st_count t' = st_count t + of_nat (sum_list (map length plss)) \<and>
     st_unique t' = st_unique t + of_nat (sum_list (map (distinct_payloads sha1) plss)) \<and>
     (\<forall>l<64. sc_total (log2_size_counts t' ! l) =
          sc_total (log2_size_counts t ! l) + of_nat (sum_list (map (length \<circ> of_class l) plss)) \<and>
        sc_part (log2_size_counts t' ! l) =
          sc_part (log2_size_counts t ! l) + of_nat (sum_list (map (distinct_payloads sha1 \<circ> of_class l) plss)))"

lemma adds_journals_Nil: "stats_sized t \<Longrightarrow> adds_journals sha1 [] t t"
  by (simp add: adds_journals_def)

lemma adds_journals_add:
  assumes "adds_journals sha1 plss t t'" and "stats_of sha1 pls stats"
  shows "adds_journals sha1 (plss @ [pls]) t (add_stats t' stats)"
  using assms
  by (auto simp: adds_journals_def stats_of_def add_stats_def stats_sized_def add_class_def distinct_payloads_def of_class_def)

lemma adds_journals_mset: "mset plss = mset plss' \<Longrightarrow> adds_journals sha1 plss t t' = adds_journals sha1 plss' t t'"
proof -
  assume m: "mset plss = mset plss'"
  have "sum_list (map f plss) = sum_list (map f plss')" for f :: "_ \<Rightarrow> nat"
    using m by (metis mset_map sum_mset_sum_list)
  then show ?thesis by (simp add: adds_journals_def)
qed

text \<open>A journal whose entry arrays lie in the file, with a cleared iterator and profile.\<close>

definition ea_static :: "(bytes \<Rightarrow> bytes) \<Rightarrow> profile job \<Rightarrow> bool" where
  "ea_static sha1 b \<longleftrightarrow> (\<forall>i\<in>set (object_iters (jb_objs b)). entry_array_fits (jb_content b) i) \<and>
     sizes_by_digest sha1 (job_payloads b)"

definition ea_job_ok :: "(bytes \<Rightarrow> bytes) \<Rightarrow> host \<Rightarrow> profile job \<Rightarrow> bool" where
  "ea_job_ok sha1 h b \<longleftrightarrow> job_served h b \<and> ea_static sha1 b \<and> it_offset (jb_iter b) = 0 \<and> jb_data b = zero_profile"

definition ea_dinv :: "(bytes \<Rightarrow> bytes) \<Rightarrow> profile job \<Rightarrow> iter list \<Rightarrow> profile \<Rightarrow> bool" where
  "ea_dinv sha1 b did p \<longleftrightarrow> ea_static sha1 b \<and>
     (did = dispatches b \<or> profile_ok p \<and> adds_payloads sha1 (jb_content b) did zero_profile p)"

definition ea_tinv ::
  "(bytes \<Rightarrow> bytes) \<Rightarrow> ea_stats \<Rightarrow> (profile job \<times> iter list) list \<Rightarrow> string \<times> ea_stats \<Rightarrow> bool" where
  "ea_tinv sha1 t0 gs s \<longleftrightarrow> adds_journals sha1 (map job_payloads (ended gs)) t0 (snd s)"

section \<open>Every dispatch counts one object, the last one the journal\<close>

lemma ea_tinv_step:
  assumes "k < length gs" and "gs ! k = (b, did)" and "did \<noteq> dispatches b" and "ea_tinv sha1 t0 gs s"
  shows "did' \<noteq> dispatches b \<Longrightarrow> ea_tinv sha1 t0 (gs[k := (b, did')]) s"
    and "stats_of sha1 (job_payloads b) stats \<Longrightarrow>
      ea_tinv sha1 t0 (gs[k := (b, dispatches b)]) (out, add_stats (snd s) stats)"
proof -
  have m: "mset (map job_payloads (ended (gs[k := (b, did')]))) =
      mset (map job_payloads (ended gs @ (if did' = dispatches b then [b] else [])))" for did'
    using ended_step [OF assms(1-3), of did'] by simp
  show "did' \<noteq> dispatches b \<Longrightarrow> ea_tinv sha1 t0 (gs[k := (b, did')]) s"
    using assms(4) adds_journals_mset [OF m [of did'], of sha1] by (simp add: ea_tinv_def)
  show "stats_of sha1 (job_payloads b) stats \<Longrightarrow>
      ea_tinv sha1 t0 (gs[k := (b, dispatches b)]) (out, add_stats (snd s) stats)"
    using assms(4) adds_journals_mset [OF m [of "dispatches b"], of sha1]
      adds_journals_add [of sha1 "map job_payloads (ended gs)" t0 "snd s"]
    by (simp add: ea_tinv_def)
qed

interpretation ea_chain: journal_chain False "entry_arrays_act sha1 (True, True) h" h "ea_dinv sha1" "ea_tinv sha1 t0"
    "\<lambda>b e. False" for sha1 h t0
proof
  fix k and gs :: "(profile job \<times> iter list) list" and b :: "profile job" and did it todo j p and s :: "string \<times> ea_stats"
  let ?act = "entry_arrays_act sha1 (True, True) h (file_header (jb_content b)) it j p s"
  assume k: "k < length gs" "gs ! k = (b, did)" and disp: "did @ it # todo = dispatches b"
    and j: "served h (jb_content b) (jb_bufs b) j" and jf: "journal_file (jb_content b) (jb_objs b)"
    and d: "ea_dinv sha1 b did p" and t: "ea_tinv sha1 t0 gs s"
  have more: "did \<noteq> dispatches b" using disp [symmetric] by simp
  then have p: "profile_ok p" "adds_payloads sha1 (jb_content b) did zero_profile p" and static: "ea_static sha1 b"
    using d by (simp_all add: ea_dinv_def)
  have "\<exists>j' p' s'. ?act = Ok (j', p', s') \<and> served h (jb_content b) (jb_bufs b) j' \<and>
      ea_dinv sha1 b (did @ [it]) p' \<and> ea_tinv sha1 t0 (gs[k := (b, did @ [it])]) s'"
    using disp jf
  proof (cases rule: dispatches_cases)
    case (object rest)
    then have "it \<in> set (object_iters (jb_objs b))" by (metis in_set_conv_decomp)
    then have fits: "entry_array_fits (jb_content b) it" using static by (simp add: ea_static_def)
    obtain p' where p': "profile_act sha1 (jb_content b) it p = Ok p'" "profile_ok p'"
      "adds_payloads sha1 (jb_content b) [it] p p'"
      using profile_act_adds [OF fits p(1)] by blast
    obtain j' where j': "served h (jb_content b) (jb_bufs b) j'"
      "entry_array_step sha1 (True, True) (read_chain h) it j p = Ok (j', p')"
      using indexed.entry_array_step_act [OF j fits, of sha1 p] p'(1) by auto
    have "ea_dinv sha1 b (did @ [it]) p'"
      using static p'(2) profile_closure.adds_append [OF p(2) p'(3)] by (simp add: ea_dinv_def)
    then show ?thesis
      using j' object(1) ea_tinv_step(1) [OF k more t object(3)] by (auto simp: entry_arrays_act_def)
  next
    case at_end
    obtain stats where st: "journal_stats p = Ok stats" "stats_of sha1 (job_payloads b) stats"
      using journal_stats_of [OF p] static at_end(2) by (auto simp: ea_static_def job_payloads_def)
    obtain out where "print_stats stats = Ok out" using print_stats_Ok by blast
    then have "\<exists>text. ?act = Ok (j, p, text, add_stats (snd s) stats)"
      using at_end(1) st(1) by (simp add: entry_arrays_act_def entry_arrays_end_def)
    moreover have "ea_dinv sha1 b (did @ [it]) p" using at_end(3) static by (simp add: ea_dinv_def)
    ultimately show ?thesis
      using j ea_tinv_step(2) [OF k more t st(2)] unfolding at_end(3) by blast
  qed
  then show "(\<exists>j' d' t'. ?act = Ok (j', d', t') \<and> served h (jb_content b) (jb_bufs b) j' \<and>
      ea_dinv sha1 b (did @ [it]) d' \<and> ea_tinv sha1 t0 (gs[k := (b, did @ [it])]) t') \<or> (\<exists>e. ?act = Fail e \<and> False)"
    by blast
qed

lemma ea_ready:
  assumes "\<forall>b\<in>set jobs. ea_job_ok sha1 h b" and "stats_sized (snd s)"
  shows "ea_chain.ready h sha1 (snd s) jb_data jobs s"
  using assms
  by (auto simp: ea_chain.ready_def ea_job_ok_def ea_dinv_def ea_tinv_def adds_journals_Nil zero_profile_ok(1)
    profile_closure.adds_Nil)

text \<open>What every outcome of a run is.\<close>

lemma entry_arrays_outcomes:
  assumes "\<forall>b\<in>set jobs. ea_job_ok sha1 h b" and "stats_sized (snd s)"
  shows "(\<exists>r. run_ends (ea_chain_step sha1 (True, True) h) has_finished (entry_arrays_start jobs s) r) \<and>
    (\<forall>r. run_ends (ea_chain_step sha1 (True, True) h) has_finished (entry_arrays_start jobs s) r \<longrightarrow>
      (\<exists>ps out tot. r = Ok (ps, out, tot) \<and> adds_journals sha1 (map job_payloads jobs) (snd s) tot))"
proof -
  note ready = ea_ready [OF assms]
  have "\<exists>ps out tot. r = Ok (ps, out, tot) \<and> adds_journals sha1 (map job_payloads jobs) (snd s) tot"
    if "run_ends (ea_chain_step sha1 (True, True) h) has_finished (entry_arrays_start jobs s) r" for r
    using ea_chain.outcomes_from_start [OF ready] that
    unfolding ea_chain_step_def entry_arrays_start_def ea_tinv_def ended_all by (metis prod.collapse)
  then show ?thesis
    using ea_chain.outcome_from_start [OF ready] by (simp add: ea_chain_step_def entry_arrays_start_def)
qed

section \<open>An example\<close>

text \<open>Two copies of a journal with two equal entry arrays: four in all, one distinct in each.\<close>

definition ea_job :: "nat \<Rightarrow> profile job" where
  "ea_job i = \<lparr>jb_content = ea_journal, jb_objs = ea_objects, jb_size = 336, jb_iter = zero_iter,
     jb_bufs = (link_bufs (calloc_journal ''a''))\<lparr>j_idx := i\<rparr>, jb_data = zero_profile\<rparr>"

lemma ea_job_sel: "job_payloads (ea_job i) = [(16, [0, 1] @ replicate 14 0), (16, [0, 1] @ replicate 14 0)]"
  using ea_payloads by (simp add: job_payloads_def ea_job_def)

lemma ea_job_fine: "ea_job_ok (take 20) (file_host False ea_journal) (ea_job i)"
proof -
  have len: "length ea_journal < 2 ^ 63" by (simp add: length_ea_journal)
  have "ea_static (take 20) (ea_job i)"
    unfolding ea_static_def ea_job_sel
    by (simp add: sizes_by_digest_def) (simp add: ea_job_def object_iters_def ea_objects_def entry_array_fits_def
      length_ea_journal max_rw_count_def)
  moreover have "job_served (file_host False ea_journal) (ea_job i)"
    using len by (simp add: job_served_def ea_job_def ea_journal_file file_host_served coherent_j_idx link_bufs_coherent)
  ultimately show ?thesis by (simp add: ea_job_ok_def) (simp add: ea_job_def zero_iter_def)
qed

lemma entry_arrays_outcomes_example:
  "\<exists>ps out tot. run_ends (ea_chain_step (take 20) (True, True) (file_host False ea_journal)) has_finished
      (entry_arrays_start [ea_job 0, ea_job 1] ([], zero_stats 0 0)) (Ok (ps, out, tot)) \<and>
    st_count tot = 4 \<and> st_unique tot = 2"
proof -
  have ok: "\<forall>b\<in>set [ea_job 0, ea_job 1]. ea_job_ok (take 20) (file_host False ea_journal) b"
    by (simp add: ea_job_fine)
  have sized: "stats_sized (snd ([] :: string, zero_stats 0 0))"
    by (simp add: stats_sized_def zero_stats_def zero_classes_def)
  obtain ps out tot where run: "run_ends (ea_chain_step (take 20) (True, True) (file_host False ea_journal)) has_finished
      (entry_arrays_start [ea_job 0, ea_job 1] ([], zero_stats 0 0)) (Ok (ps, out, tot))"
    and tot: "adds_journals (take 20) (map job_payloads [ea_job 0, ea_job 1]) (zero_stats 0 0) tot"
    using entry_arrays_outcomes [OF ok sized] by auto
  have "st_count tot = 4 \<and> st_unique tot = 2"
    using tot by (simp add: adds_journals_def ea_job_sel distinct_payloads_def zero_stats_def)
  then show ?thesis using run by blast
qed

end
