(* ===== verification/Siphash.thy ===== *)
theory Siphash
  imports Endian
begin

text \<open>
  SipHash-2-4 as \<^verbatim>\<open>upstream/siphash24.c\<close> computes it, incrementally, against the definition of
  the hash on the whole padded message.  The streaming operations are a refinement of
  absorbing a byte string word by word.
\<close>

unbundle bit_operations_syntax

section \<open>The source's operations\<close>

record siphash =
  v0 :: u64
  v1 :: u64
  v2 :: u64
  v3 :: u64
  sip_padding :: u64
  sip_inlen :: u64

text \<open>Called with constants below 64 only, which its \<open>assert\<close> demands.\<close>

definition rotate_left :: "u64 \<Rightarrow> nat \<Rightarrow> u64" where
  "rotate_left x b = push_bit b x OR drop_bit (64 - b) x"

definition sipround :: "siphash \<Rightarrow> siphash" where
  "sipround s =
     (let s = s\<lparr>v0 := v0 s + v1 s\<rparr>;
          s = s\<lparr>v1 := rotate_left (v1 s) 13\<rparr>;
          s = s\<lparr>v1 := v1 s XOR v0 s\<rparr>;
          s = s\<lparr>v0 := rotate_left (v0 s) 32\<rparr>;
          s = s\<lparr>v2 := v2 s + v3 s\<rparr>;
          s = s\<lparr>v3 := rotate_left (v3 s) 16\<rparr>;
          s = s\<lparr>v3 := v3 s XOR v2 s\<rparr>;
          s = s\<lparr>v0 := v0 s + v3 s\<rparr>;
          s = s\<lparr>v3 := rotate_left (v3 s) 21\<rparr>;
          s = s\<lparr>v3 := v3 s XOR v0 s\<rparr>;
          s = s\<lparr>v2 := v2 s + v1 s\<rparr>;
          s = s\<lparr>v1 := rotate_left (v1 s) 17\<rparr>;
          s = s\<lparr>v1 := v1 s XOR v2 s\<rparr>
      in s\<lparr>v2 := rotate_left (v2 s) 32\<rparr>)"

definition siphash24_init :: "bool \<Rightarrow> bytes \<Rightarrow> siphash" where
  "siphash24_init be k =
     (let k0 = unaligned_read_le64 be k; k1 = unaligned_read_le64 be (drop 8 k) in
      \<lparr>v0 = 0x736f6d6570736575 XOR k0, v1 = 0x646f72616e646f6d XOR k1,
       v2 = 0x6c7967656e657261 XOR k0, v3 = 0x7465646279746573 XOR k1,
       sip_padding = 0, sip_inlen = 0\<rparr>)"

text \<open>The loop that fills the padding: what remains of the input, \<open>left\<close> and the padding.\<close>

fun fill_padding :: "bytes \<Rightarrow> nat \<Rightarrow> u64 \<Rightarrow> bytes \<times> nat \<times> u64" where
  "fill_padding [] left p = ([], left, p)"
| "fill_padding (b # inp) left p =
     (if left < 8 then fill_padding inp (left + 1) (p OR push_bit (left * 8) (ucast b))
      else (b # inp, left, p))"

definition compress_word :: "u64 \<Rightarrow> siphash \<Rightarrow> siphash" where
  "compress_word m s =
     (let s = sipround (sipround (s\<lparr>v3 := v3 s XOR m\<rparr>)) in s\<lparr>v0 := v0 s XOR m\<rparr>)"

text \<open>\<open>for ( ; in < end; in += 8)\<close>, with \<open>n = end - in\<close>.\<close>

function compress_words :: "bool \<Rightarrow> bytes \<Rightarrow> nat \<Rightarrow> siphash \<Rightarrow> bytes \<times> siphash" where
  "compress_words be inp n s =
     (if 0 < n then compress_words be (drop 8 inp) (n - 8) (compress_word (unaligned_read_le64 be inp) s)
      else (inp, s))"
  by pat_completeness auto

termination by (relation "measure (\<lambda>(be, inp, n, s). n)") auto

declare compress_words.simps [simp del]

text \<open>The \<open>switch\<close> whose cases fall through, from \<open>case left\<close> down.\<close>

definition pad_tail :: "nat \<Rightarrow> bytes \<Rightarrow> u64 \<Rightarrow> u64" where
  "pad_tail left inp p =
     (let p = (if left \<ge> 7 then p OR push_bit 48 (ucast (inp ! 6)) else p);
          p = (if left \<ge> 6 then p OR push_bit 40 (ucast (inp ! 5)) else p);
          p = (if left \<ge> 5 then p OR push_bit 32 (ucast (inp ! 4)) else p);
          p = (if left \<ge> 4 then p OR push_bit 24 (ucast (inp ! 3)) else p);
          p = (if left \<ge> 3 then p OR push_bit 16 (ucast (inp ! 2)) else p);
          p = (if left \<ge> 2 then p OR push_bit 8 (ucast (inp ! 1)) else p)
      in if left \<ge> 1 then p OR ucast (inp ! 0) else p)"

definition compress_rest :: "bool \<Rightarrow> bytes \<Rightarrow> siphash \<Rightarrow> siphash" where
  "compress_rest be inp s =
     (case compress_words be inp (length inp - unat (sip_inlen s) mod 8) s of
        (inp', s') \<Rightarrow> s'\<lparr>sip_padding := pad_tail (unat (sip_inlen s' AND 7)) inp' (sip_padding s')\<rparr>)"

definition siphash24_compress :: "bool \<Rightarrow> bytes \<Rightarrow> siphash \<Rightarrow> siphash" where
  "siphash24_compress be inp s =
     (let left = unat (sip_inlen s AND 7);
          s = s\<lparr>sip_inlen := sip_inlen s + of_nat (length inp)\<rparr>
      in if 0 < left then
           (case fill_padding inp left (sip_padding s) of
              (inp', left', p) \<Rightarrow>
                let s = s\<lparr>sip_padding := p\<rparr> in
                if inp' = [] \<and> left' < 8 then s
                else compress_rest be inp' ((compress_word (sip_padding s) s)\<lparr>sip_padding := 0\<rparr>))
         else compress_rest be inp s)"

definition siphash24_finalize :: "siphash \<Rightarrow> u64" where
  "siphash24_finalize s =
     (let b = sip_padding s OR push_bit 56 (sip_inlen s);
          s = compress_word b s;
          s = s\<lparr>v2 := v2 s XOR 0xff\<rparr>;
          s = sipround (sipround (sipround (sipround s)))
      in v0 s XOR v1 s XOR v2 s XOR v3 s)"

definition siphash24 :: "bool \<Rightarrow> bytes \<Rightarrow> bytes \<Rightarrow> u64" where
  "siphash24 be inp k = siphash24_finalize (siphash24_compress be inp (siphash24_init be k))"

text \<open>The wrappers of \<^verbatim>\<open>siphash24.h\<close>; a string is given without its terminating zero.\<close>

definition siphash24_compress_boolean :: "bool \<Rightarrow> bool \<Rightarrow> siphash \<Rightarrow> siphash" where
  "siphash24_compress_boolean be b s = siphash24_compress be [if b then 1 else 0] s"

definition siphash24_compress_string :: "bool \<Rightarrow> bytes option \<Rightarrow> siphash \<Rightarrow> siphash" where
  "siphash24_compress_string be inp s =
     (case inp of None \<Rightarrow> s | Some str \<Rightarrow> siphash24_compress be str s)"

definition siphash24_string :: "bool \<Rightarrow> bytes \<Rightarrow> bytes \<Rightarrow> u64" where
  "siphash24_string be str k = siphash24 be (str @ [0]) k"

section \<open>The hash of a whole message\<close>

text \<open>
  The published definition on four words: rounds with rotations, the message padded with
  zeros to a multiple of 8 whose last byte is the length, each word absorbed by two rounds.
\<close>

fun sip_round :: "u64 \<times> u64 \<times> u64 \<times> u64 \<Rightarrow> u64 \<times> u64 \<times> u64 \<times> u64" where
  "sip_round (a, b, c, d) =
     (let a1 = a + b; b1 = word_rotl 13 b XOR a1; a2 = word_rotl 32 a1;
          c1 = c + d; d1 = word_rotl 16 d XOR c1;
          a3 = a2 + d1; d2 = word_rotl 21 d1 XOR a3;
          c2 = c1 + b1; b2 = word_rotl 17 b1 XOR c2; c3 = word_rotl 32 c2
      in (a3, b2, c3, d2))"

fun sip_absorb :: "u64 \<Rightarrow> u64 \<times> u64 \<times> u64 \<times> u64 \<Rightarrow> u64 \<times> u64 \<times> u64 \<times> u64" where
  "sip_absorb m (a, b, c, d) =
     (case sip_round (sip_round (a, b, c, d XOR m)) of (a', b', c', d') \<Rightarrow> (a' XOR m, b', c', d'))"

function sip_words :: "bytes \<Rightarrow> u64 list" where
  "sip_words m = (if length m < 8 then [] else le_word (take 8 m) # sip_words (drop 8 m))"
  by pat_completeness auto

termination by (relation "measure length") auto

declare sip_words.simps [simp del]

definition sip_pad :: "bytes \<Rightarrow> bytes" where
  "sip_pad m = m @ replicate (7 - length m mod 8) 0 @ [of_nat (length m)]"

definition sip_start :: "bytes \<Rightarrow> u64 \<times> u64 \<times> u64 \<times> u64" where
  "sip_start k =
     (let k0 = le_word (take 8 k); k1 = le_word (take 8 (drop 8 k)) in
      (k0 XOR 0x736f6d6570736575, k1 XOR 0x646f72616e646f6d,
       k0 XOR 0x6c7967656e657261, k1 XOR 0x7465646279746573))"

definition sip_hash_2_4 :: "bytes \<Rightarrow> bytes \<Rightarrow> u64" where
  "sip_hash_2_4 k m =
     (case fold sip_absorb (sip_words (sip_pad m)) (sip_start k) of
        (a, b, c, d) \<Rightarrow>
          case sip_round (sip_round (sip_round (sip_round (a, b, c XOR 0xff, d)))) of
            (a, b, c, d) \<Rightarrow> a XOR b XOR c XOR d)"

section \<open>The state after a message\<close>

definition sip_regs :: "siphash \<Rightarrow> u64 \<times> u64 \<times> u64 \<times> u64" where
  "sip_regs s = (v0 s, v1 s, v2 s, v3 s)"

text \<open>The bytes left over after the whole words, and the abstraction of a streaming state.\<close>

definition sip_rest :: "bytes \<Rightarrow> bytes" where
  "sip_rest m = drop (8 * (length m div 8)) m"

definition sip_abs :: "bytes \<Rightarrow> bytes \<Rightarrow> siphash \<Rightarrow> bool" where
  "sip_abs k m s \<longleftrightarrow> sip_regs s = fold sip_absorb (sip_words m) (sip_start k) \<and>
     sip_padding s = le_word (sip_rest m) \<and> sip_inlen s = of_nat (length m)"

lemma rotate_left_word_rotl:
  assumes "0 < b" and "b < 64"
  shows "rotate_left x b = word_rotl b x"
proof (rule bit_word_eqI)
  fix n
  assume "n < LENGTH(64)"
  then have n: "n < 64" by simp
  have lhs: "bit (rotate_left x b) n \<longleftrightarrow> (b \<le> n \<and> bit x (n - b)) \<or> bit x (64 - b + n)"
    using n by (simp add: rotate_left_def bit_or_iff bit_push_bit_iff bit_drop_bit_eq)
  have rhs: "bit (word_rotl b x) n \<longleftrightarrow> bit x ((n + (64 - b)) mod 64)"
    using assms n by (simp add: bit_word_rotl_iff)
  show "bit (rotate_left x b) n = bit (word_rotl b x) n"
  proof (cases "b \<le> n")
    case True
    then have "(n + (64 - b)) mod 64 = n - b" and "\<not> bit x (64 - b + n)"
      using assms n by (auto simp: mod_if dest: bit_imp_le_length)
    then show ?thesis using True by (simp only: lhs rhs simp_thms)
  next
    case False
    then have "(n + (64 - b)) mod 64 = 64 - b + n" using assms by simp
    then show ?thesis using False by (simp only: lhs rhs simp_thms)
  qed
qed

lemma sipround_regs: "sip_regs (sipround s) = sip_round (sip_regs s)"
  by (simp add: sipround_def sip_regs_def rotate_left_word_rotl Let_def)

lemma sipround_frame [simp]:
  "sip_padding (sipround s) = sip_padding s" "sip_inlen (sipround s) = sip_inlen s"
  by (simp_all add: sipround_def Let_def)

lemma compress_word_regs: "sip_regs (compress_word m s) = sip_absorb m (sip_regs s)"
proof -
  have "sip_regs (s\<lparr>v3 := v3 s XOR m\<rparr>) = (v0 s, v1 s, v2 s, v3 s XOR m)"
    by (simp add: sip_regs_def)
  then have "sip_regs (sipround (sipround (s\<lparr>v3 := v3 s XOR m\<rparr>))) =
      sip_round (sip_round (v0 s, v1 s, v2 s, v3 s XOR m))"
    by (simp only: sipround_regs)
  then show ?thesis
    by (simp add: compress_word_def Let_def sip_regs_def split: prod.split)
qed

lemma compress_word_frame [simp]:
  "sip_padding (compress_word m s) = sip_padding s" "sip_inlen (compress_word m s) = sip_inlen s"
  by (simp_all add: compress_word_def Let_def)

lemma sip_regs_frame [simp]:
  "sip_regs (s\<lparr>sip_padding := p\<rparr>) = sip_regs s" "sip_regs (s\<lparr>sip_inlen := n\<rparr>) = sip_regs s"
  by (simp_all add: sip_regs_def)

lemma sip_words_short [simp]: "length m < 8 \<Longrightarrow> sip_words m = []"
  by (subst sip_words.simps) simp

lemma sip_words_step: "8 \<le> length m \<Longrightarrow> sip_words m = le_word (take 8 m) # sip_words (drop 8 m)"
  by (subst sip_words.simps) simp

lemma length_sip_rest [simp]: "length (sip_rest m) = length m mod 8"
  by (simp add: sip_rest_def minus_mult_div_eq_mod)

lemma sip_rest_short: "length m < 8 \<Longrightarrow> sip_rest m = m"
  by (simp add: sip_rest_def)

lemma sip_rest_step: "8 \<le> length m \<Longrightarrow> sip_rest (drop 8 m) = sip_rest m"
  by (simp add: sip_rest_def le_div_geq add.commute)

lemma sip_split: "sip_words (m @ n) = sip_words m @ sip_words (sip_rest m @ n)"
  "sip_rest (m @ n) = sip_rest (sip_rest m @ n)"
proof -
  have "sip_words (m @ n) = sip_words m @ sip_words (sip_rest m @ n) \<and>
      sip_rest (m @ n) = sip_rest (sip_rest m @ n)"
  proof (induction m rule: sip_words.induct)
    case (1 m)
    show ?case
    proof (cases "length m < 8")
      case True
      then show ?thesis by (simp add: sip_rest_short)
    next
      case False
      then have "8 \<le> length m" "8 \<le> length (m @ n)" by simp_all
      then show ?thesis
        using 1 sip_words_step [of m] sip_words_step [of "m @ n"] sip_rest_step [of m]
          sip_rest_step [of "m @ n"] by simp
    qed
  qed
  then show "sip_words (m @ n) = sip_words m @ sip_words (sip_rest m @ n)"
    and "sip_rest (m @ n) = sip_rest (sip_rest m @ n)" by simp_all
qed


section \<open>The streaming operations refine it\<close>

lemma le_word_append:
  "le_word (a @ b) = (le_word a OR push_bit (8 * length a) (le_word b) :: u64)"
  by (induction a) (simp_all add: push_bit_or push_bit_push_bit or.assoc)

lemma unat_and_7: "unat (x AND 7 :: u64) = unat x mod 8"
  using unat_and_mask [of x 3] by (simp add: mask_eq_exp_minus_1)

lemma unat_of_nat_mod_8: "unat (of_nat n :: u64) mod 8 = n mod 8"
proof -
  have "(n mod 2 ^ 64) mod 8 = n mod (8 :: nat)" by (rule mod_mod_cancel) simp
  then show ?thesis by (simp add: unat_of_nat take_bit_eq_mod)
qed

lemma fill_padding_eq:
  "length r \<le> 8 \<Longrightarrow> fill_padding inp (length r) (le_word r) =
     (drop (8 - length r) inp, min 8 (length r + length inp), le_word (r @ take (8 - length r) inp))"
proof (induction inp arbitrary: r)
  case Nil
  then show ?case by simp
next
  case (Cons b inp)
  show ?case
  proof (cases "length r < 8")
    case True
    have "le_word (r @ [b]) = (le_word r OR push_bit (length r * 8) (ucast b) :: u64)"
      by (simp add: le_word_append mult.commute)
    then have "fill_padding (b # inp) (length r) (le_word r) =
        fill_padding inp (length (r @ [b])) (le_word (r @ [b]))"
      using True by simp
    also have "\<dots> = (drop (8 - length (r @ [b])) inp, min 8 (length (r @ [b]) + length inp),
        le_word ((r @ [b]) @ take (8 - length (r @ [b])) inp))"
      by (rule Cons.IH) (use True in simp)
    finally have eq: "fill_padding (b # inp) (length r) (le_word r) =
        (drop (8 - length (r @ [b])) inp, min 8 (length (r @ [b]) + length inp),
         le_word ((r @ [b]) @ take (8 - length (r @ [b])) inp))" .
    have "8 - length r = Suc (8 - length (r @ [b]))" using True by simp
    then have "drop (8 - length (r @ [b])) inp = drop (8 - length r) (b # inp)"
      "(r @ [b]) @ take (8 - length (r @ [b])) inp = r @ take (8 - length r) (b # inp)" by simp_all
    then show ?thesis using eq by simp
  next
    case False
    then show ?thesis using Cons.prems by simp
  qed
qed

lemma pad_tail_eq:
  assumes "length r < 8"
  shows "pad_tail (length r) r 0 = le_word r"
proof -
  consider "r = []" | a where "r = [a]" | a b where "r = [a, b]" | a b c where "r = [a, b, c]"
    | a b c d where "r = [a, b, c, d]" | a b c d e where "r = [a, b, c, d, e]"
    | a b c d e f where "r = [a, b, c, d, e, f]" | a b c d e f g where "r = [a, b, c, d, e, f, g]"
    using assms by (auto simp: numeral_eq_Suc less_Suc_eq length_Suc_conv)
  then show ?thesis
    by cases (simp_all add: pad_tail_def Let_def push_bit_or push_bit_push_bit or.assoc or.commute
      or.left_commute)
qed

lemma compress_words_eq:
  "compress_words be inp (8 * (length inp div 8)) s = (sip_rest inp, fold compress_word (sip_words inp) s)"
proof (induction inp arbitrary: s rule: sip_words.induct)
  case (1 inp)
  show ?case
  proof (cases "length inp < 8")
    case True
    then show ?thesis by (subst compress_words.simps) (simp add: sip_rest_short)
  next
    case False
    then have len: "8 \<le> length inp" by simp
    then have n: "0 < 8 * (length inp div 8)" "8 * (length inp div 8) - 8 = 8 * (length (drop 8 inp) div 8)"
      by (simp_all add: le_div_geq)
    have "compress_words be inp (8 * (length inp div 8)) s = compress_words be (drop 8 inp)
        (8 * (length (drop 8 inp) div 8)) (compress_word (le_word (take 8 inp)) s)"
      using n len by (subst compress_words.simps) (simp only: if_True unaligned_read_le64_eq)
    then show ?thesis
      using 1 [OF False, of "compress_word (le_word (take 8 inp)) s"] len
      by (simp add: sip_words_step sip_rest_step)
  qed
qed

lemma fold_compress_word:
  "sip_regs (fold compress_word ws s) = fold sip_absorb ws (sip_regs s)"
  "sip_padding (fold compress_word ws s) = sip_padding s"
  "sip_inlen (fold compress_word ws s) = sip_inlen s"
  by (induction ws arbitrary: s) (simp_all add: compress_word_regs)

lemma compress_rest_eq:
  assumes "sip_padding s = 0" and "unat (sip_inlen s) mod 8 = length inp mod 8"
  shows "compress_rest be inp s =
    (fold compress_word (sip_words inp) s)\<lparr>sip_padding := le_word (sip_rest inp)\<rparr>"
proof -
  have "length inp - unat (sip_inlen s) mod 8 = 8 * (length inp div 8)"
    unfolding assms(2) by (rule minus_mod_eq_mult_div)
  then have w: "compress_words be inp (length inp - unat (sip_inlen s) mod 8) s =
      (sip_rest inp, fold compress_word (sip_words inp) s)"
    by (simp only: compress_words_eq)
  have "unat (sip_inlen s AND 7) = length (sip_rest inp)"
    using assms(2) by (simp only: unat_and_7 length_sip_rest)
  then have "pad_tail (unat (sip_inlen s AND 7)) (sip_rest inp) 0 = le_word (sip_rest inp)"
    by (simp only:) (rule pad_tail_eq, simp)
  then show ?thesis
    unfolding compress_rest_def w by (simp add: fold_compress_word assms(1))
qed

lemma sip_abs_init:
  assumes "length k = 16"
  shows "sip_abs k [] (siphash24_init be k)"
  using assms
  by (simp add: sip_abs_def siphash24_init_def sip_start_def sip_regs_def Let_def
    unaligned_read_le64_eq sip_rest_def xor.commute)

text \<open>The three cases of \<open>siphash24_compress\<close>, by what the padding holds and what the chunk fills.\<close>

lemma compress_aligned:
  assumes abs: "sip_abs k m s" and r0: "sip_rest m = []"
  shows "sip_abs k (m @ inp) (siphash24_compress be inp s)"
proof -
  let ?s = "s\<lparr>sip_inlen := sip_inlen s + of_nat (length inp)\<rparr>"
  have pad: "sip_padding s = 0" and inlen: "sip_inlen s = of_nat (length m)"
    using abs r0 by (simp_all add: sip_abs_def)
  have inlen': "sip_inlen ?s = of_nat (length (m @ inp))" by (simp add: inlen)
  have "length m mod 8 = 0" using r0 length_sip_rest [of m] by simp
  then have mod8: "unat (sip_inlen ?s) mod 8 = length inp mod 8"
    unfolding inlen' by (simp only: unat_of_nat_mod_8 length_append) (metis mod_add_left_eq add_0)
  have "unat (sip_inlen s AND 7) = 0"
    using r0 length_sip_rest [of m] by (simp add: unat_and_7 inlen unat_of_nat_mod_8)
  then have "siphash24_compress be inp s = compress_rest be inp ?s"
    by (simp add: siphash24_compress_def Let_def)
  also have "\<dots> = (fold compress_word (sip_words inp) ?s)\<lparr>sip_padding := le_word (sip_rest inp)\<rparr>"
    by (rule compress_rest_eq) (use pad mod8 in simp_all)
  finally show ?thesis
    using abs r0 sip_split [of m inp] inlen'
    by (simp add: sip_abs_def fold_compress_word)
qed

lemma compress_into_padding:
  assumes abs: "sip_abs k m s" and r: "length (sip_rest m) \<noteq> 0" and short: "length (sip_rest m) + length inp < 8"
  shows "sip_abs k (m @ inp) (siphash24_compress be inp s)"
proof -
  let ?r = "sip_rest m"
  have pad: "sip_padding s = le_word ?r" and inlen: "sip_inlen s = of_nat (length m)"
    using abs by (simp_all add: sip_abs_def)
  have left: "unat (sip_inlen s AND 7) = length ?r"
    by (simp add: unat_and_7 inlen unat_of_nat_mod_8)
  have r8: "length ?r < 8" by simp
  have "siphash24_compress be inp s =
      s\<lparr>sip_inlen := sip_inlen s + of_nat (length inp), sip_padding := le_word (?r @ inp)\<rparr>"
    using left r short fill_padding_eq [OF less_imp_le [OF r8], of inp] pad
    by (simp add: siphash24_compress_def Let_def)
  then show ?thesis
    using abs short sip_split [of m inp] inlen
    by (simp add: sip_abs_def sip_rest_short)
qed

lemma compress_over_padding:
  assumes abs: "sip_abs k m s" and r: "length (sip_rest m) \<noteq> 0" and long: "8 \<le> length (sip_rest m @ inp)"
  shows "sip_abs k (m @ inp) (siphash24_compress be inp s)"
proof -
  let ?r = "sip_rest m" and ?s = "s\<lparr>sip_inlen := sip_inlen s + of_nat (length inp)\<rparr>"
  have pad: "sip_padding s = le_word ?r" and inlen: "sip_inlen s = of_nat (length m)"
    using abs by (simp_all add: sip_abs_def)
  have left: "unat (sip_inlen s AND 7) = length ?r"
    by (simp add: unat_and_7 inlen unat_of_nat_mod_8)
  have inlen': "sip_inlen ?s = of_nat (length (m @ inp))" by (simp add: inlen)
  then have mod8: "unat (sip_inlen ?s) mod 8 = length (?r @ inp) mod 8"
    by (simp only: unat_of_nat_mod_8) (simp add: mod_add_left_eq)
  have r8: "length ?r < 8" by simp
  note fill = fill_padding_eq [OF less_imp_le [OF r8], of inp]
  let ?t = "drop (8 - length ?r) inp" and ?w = "le_word (?r @ take (8 - length ?r) inp) :: u64"
  let ?s1 = "(compress_word ?w (?s\<lparr>sip_padding := ?w\<rparr>))\<lparr>sip_padding := 0\<rparr>"
  have t: "?t = drop 8 (?r @ inp)" "?r @ take (8 - length ?r) inp = take 8 (?r @ inp)"
    using r8 by simp_all
  have "siphash24_compress be inp s = compress_rest be ?t ?s1"
    using left r fill pad long by (simp add: siphash24_compress_def Let_def min_def)
  also have "\<dots> = (fold compress_word (sip_words ?t) ?s1)\<lparr>sip_padding := le_word (sip_rest ?t)\<rparr>"
  proof (rule compress_rest_eq)
    show "unat (sip_inlen ?s1) mod 8 = length ?t mod 8"
      using mod8 long unfolding t(1) by (simp add: le_mod_geq add.commute)
  qed simp
  finally have eq: "siphash24_compress be inp s =
    (fold compress_word (sip_words ?t) ?s1)\<lparr>sip_padding := le_word (sip_rest ?t)\<rparr>" .
  have "sip_words (m @ inp) = sip_words m @ ?w # sip_words ?t"
    using sip_split(1) [of m inp] sip_words_step [OF long] unfolding t by simp
  moreover have "sip_rest (m @ inp) = sip_rest ?t"
    using sip_split(2) [of m inp] sip_rest_step [OF long] unfolding t(1) by simp
  ultimately show ?thesis
    using abs inlen' by (simp add: sip_abs_def eq fold_compress_word compress_word_regs)
qed

lemma sip_abs_compress:
  assumes "sip_abs k m s"
  shows "sip_abs k (m @ inp) (siphash24_compress be inp s)"
  using assms
  by (metis compress_aligned compress_into_padding compress_over_padding length_0_conv length_append not_less)

lemma push_56: "push_bit 56 (ucast (of_nat n :: u8)) = (push_bit 56 (of_nat n) :: u64)"
  by (rule bit_word_eqI) (auto simp: bit_push_bit_iff bit_unsigned_iff bit_of_nat_iff)

lemma sip_words_pad:
  "sip_words (sip_pad m) = sip_words m @ [le_word (sip_rest m) OR push_bit 56 (of_nat (length m))]"
proof -
  let ?r = "sip_rest m" and ?p = "replicate (7 - length m mod 8) 0 @ [of_nat (length m)] :: bytes"
  have len: "length (?r @ ?p) = 8" by simp
  have "le_word (?r @ ?p) = (le_word ?r OR push_bit 56 (of_nat (length m)) :: u64)"
    unfolding le_word_append by (simp add: push_bit_push_bit push_56)
      (simp add: add_mult_distrib2 [symmetric] push_56)
  moreover have "sip_words (?r @ ?p) = [le_word (?r @ ?p)]"
    using sip_words_step [of "?r @ ?p"] len by simp
  ultimately show ?thesis
    using sip_split(1) [of m ?p] by (simp add: sip_pad_def)
qed

lemma siphash24_finalize_regs:
  "siphash24_finalize s =
     (case sip_absorb (sip_padding s OR push_bit 56 (sip_inlen s)) (sip_regs s) of (a, b, c, d) \<Rightarrow>
        case sip_round (sip_round (sip_round (sip_round (a, b, c XOR 0xff, d)))) of (a, b, c, d) \<Rightarrow> a XOR b XOR c XOR d)"
proof -
  let ?b = "sip_padding s OR push_bit 56 (sip_inlen s)"
  let ?s1 = "compress_word ?b s"
  let ?s2 = "?s1\<lparr>v2 := v2 ?s1 XOR 0xff\<rparr>"
  let ?s3 = "sipround (sipround (sipround (sipround ?s2)))"
  have "sip_regs ?s2 = (case sip_regs ?s1 of (a, b, c, d) \<Rightarrow> (a, b, c XOR 0xff, d))"
    by (simp add: sip_regs_def)
  moreover have "sip_regs ?s3 = sip_round (sip_round (sip_round (sip_round (sip_regs ?s2))))"
    by (simp only: sipround_regs)
  moreover have "siphash24_finalize s = (case sip_regs ?s3 of (a, b, c, d) \<Rightarrow> a XOR b XOR c XOR d)"
    by (simp add: siphash24_finalize_def Let_def sip_regs_def)
  ultimately show ?thesis by (simp add: compress_word_regs split: prod.split)
qed

lemma sip_abs_finalize:
  assumes "sip_abs k m s"
  shows "siphash24_finalize s = sip_hash_2_4 k m"
  using assms by (simp add: siphash24_finalize_regs sip_hash_2_4_def sip_abs_def sip_words_pad)

lemma sip_abs_chunks:
  "sip_abs k m s \<Longrightarrow> sip_abs k (m @ concat chunks) (fold (siphash24_compress be) chunks s)"
  by (induction chunks arbitrary: m s) (auto simp: append_assoc [symmetric] simp del: append_assoc
    intro: sip_abs_compress)

section \<open>Properties\<close>

text \<open>C22: Feeding a message to the streaming hash in chunks of any sizes, on a host of either byte
  order, gives SipHash-2-4 of the whole message: the digest depends neither on how the message is
  split nor on the host.\<close>

theorem siphash_streaming_correct:
  assumes "length k = 16"
  shows "siphash24_finalize (fold (siphash24_compress be) chunks (siphash24_init be k)) =
    sip_hash_2_4 k (concat chunks)"
  using sip_abs_finalize [OF sip_abs_chunks [OF sip_abs_init [OF assms]]] by simp

lemma siphash24_eq: "length k = 16 \<Longrightarrow> siphash24 be m k = sip_hash_2_4 k m"
  using sip_abs_finalize [OF sip_abs_compress [OF sip_abs_init, of k m be be]] by (simp add: siphash24_def)

definition sip_key :: bytes where "sip_key = [0, 1, 2, 3, 4, 5, 6, 7, 8, 9, 10, 11, 12, 13, 14, 15]"

lemma word_rotl_shifts:
  "word_rotl 13 (x :: u64) = push_bit 13 x OR drop_bit 51 x"
  "word_rotl 16 x = push_bit 16 x OR drop_bit 48 x"
  "word_rotl 17 x = push_bit 17 x OR drop_bit 47 x"
  "word_rotl 21 x = push_bit 21 x OR drop_bit 43 x"
  "word_rotl 32 x = push_bit 32 x OR drop_bit 32 x"
  using rotate_left_word_rotl [of 13 x] rotate_left_word_rotl [of 16 x] rotate_left_word_rotl [of 17 x]
    rotate_left_word_rotl [of 21 x] rotate_left_word_rotl [of 32 x]
  by (simp_all add: rotate_left_def)

lemma sip_key_words: "sip_words (sip_pad (take 15 sip_key)) = [0x0706050403020100, 0x0f0e0d0c0b0a0908]"
proof -
  have "sip_pad (take 15 sip_key) = [0, 1, 2, 3, 4, 5, 6, 7, 8, 9, 10, 11, 12, 13, 14, 15]"
    by (simp add: sip_pad_def sip_key_def)
  then show ?thesis by (simp add: sip_words_step)
qed

lemma sip_key_start: "sip_start sip_key =
    (0x7469686173716475, 0x6b617f6d656e6665, 0x6b7f62616d677361, 0x7b6b696e727e6c7b)"
  by (simp add: sip_start_def sip_key_def)

text \<open>The published test vector.\<close>

lemma sip_hash_vector: "sip_hash_2_4 sip_key (take 15 sip_key) = 0xa129ca6149be45e5"
  by (simp add: sip_hash_2_4_def sip_key_words sip_key_start word_rotl_shifts)

text \<open>The vector, fed to a big-endian host in three chunks.\<close>

theorem siphash_streaming_correct_witness:
  "siphash24_finalize (fold (siphash24_compress True) [[0, 1, 2], [], take 12 (drop 3 sip_key)]
     (siphash24_init True sip_key)) = 0xa129ca6149be45e5"
proof -
  have len: "length sip_key = 16" by (simp add: sip_key_def)
  have msg: "concat [[0, 1, 2], [], take 12 (drop 3 sip_key)] = take 15 sip_key"
    by (simp add: sip_key_def)
  show ?thesis
    using siphash_streaming_correct [OF len, of True "[[0, 1, 2], [], take 12 (drop 3 sip_key)]"]
    unfolding msg sip_hash_vector .
qed

end
