(* ===== verification/Siphash_Memory.thy ===== *)
theory Siphash_Memory
  imports Siphash
begin

text \<open>
  \<open>siphash24_compress\<close> on addresses: the input is given by a pointer and a length, the ends of its loops are
  compared as 64-bit addresses, and every access is to an object that lies at an address.  When the end of the
  input does not wrap around and lies in the object, this is the hash of its bytes; when it wraps
  around, the loops read nothing.
\<close>

unbundle bit_operations_syntax

section \<open>Accesses\<close>

text \<open>
  \<open>n\<close> bytes at \<open>p\<close> of an object \<open>m\<close> at the address \<open>a\<close>.  No object contains the last address: C demands
  that the address after an object is greater than those in it.
\<close>

definition bytes_in :: "nat \<Rightarrow> bytes \<Rightarrow> u64 \<Rightarrow> nat \<Rightarrow> bytes res" where
  "bytes_in a m p n =
     (if n = 0 then Ok []
      else if a \<le> unat p \<and> unat p + n \<le> a + length m \<and> unat p + n < 2 ^ 64 then Ok (segment (unat p - a) n m)
      else Fail OutOfBounds)"

section \<open>The source's operations\<close>

text \<open>The loop that fills the padding; \<open>p\<close> is \<open>in\<close> and \<open>e\<close> is \<open>end\<close>.\<close>

function fill_padding_at :: "nat \<Rightarrow> bytes \<Rightarrow> u64 \<Rightarrow> u64 \<Rightarrow> nat \<Rightarrow> u64 \<Rightarrow> (u64 \<times> nat \<times> u64) res" where
  "fill_padding_at a m p e left pad =
     (if p < e \<and> left < 8 then
        (case bytes_in a m p 1 of
           Fail f \<Rightarrow> Fail f
         | Ok bs \<Rightarrow> fill_padding_at a m (p + 1) e (left + 1) (pad OR push_bit (left * 8) (ucast (hd bs))))
      else Ok (p, left, pad))"
  by pat_completeness auto

termination by (relation "measure (\<lambda>(a, m, p, e, left, pad). 8 - left)") auto

declare fill_padding_at.simps [simp del]

text \<open>\<open>for ( ; in < end; in += 8)\<close>.\<close>

lemma bytes_in_advances: "bytes_in a m p 8 = Ok bs \<Longrightarrow> unat p < unat (p + 8) \<and> unat (p + 8) < 2 ^ 64"
  by (auto simp: bytes_in_def unat_add_no_wrap split: if_splits)

function compress_words_at :: "bool \<Rightarrow> nat \<Rightarrow> bytes \<Rightarrow> u64 \<Rightarrow> u64 \<Rightarrow> siphash \<Rightarrow> (u64 \<times> siphash) res" where
  "compress_words_at be a m p e s =
     (if p < e then
        (case bytes_in a m p 8 of
           Fail f \<Rightarrow> Fail f
         | Ok w \<Rightarrow> compress_words_at be a m (p + 8) e (compress_word (unaligned_read_le64 be w) s))
      else Ok (p, s))"
  by pat_completeness auto

termination
  by (relation "measure (\<lambda>(be, a, m, p, e, s). 2 ^ 64 - unat p)") (auto dest: bytes_in_advances)

declare compress_words_at.simps [simp del]

definition compress_rest_at :: "bool \<Rightarrow> nat \<Rightarrow> bytes \<Rightarrow> u64 \<Rightarrow> u64 \<Rightarrow> siphash \<Rightarrow> siphash res" where
  "compress_rest_at be a m p e s =
     res_bind (compress_words_at be a m p (e - sip_inlen s mod 8) s) (\<lambda>(p', s').
       let left = unat (sip_inlen s' AND 7) in
       res_map (\<lambda>bs. s'\<lparr>sip_padding := pad_tail left bs (sip_padding s')\<rparr>) (bytes_in a m p' left))"

definition siphash24_compress_at :: "bool \<Rightarrow> nat \<Rightarrow> bytes \<Rightarrow> u64 \<Rightarrow> u64 \<Rightarrow> siphash \<Rightarrow> siphash res" where
  "siphash24_compress_at be a m p inlen s =
     (let e = p + inlen; left = unat (sip_inlen s AND 7); s = s\<lparr>sip_inlen := sip_inlen s + inlen\<rparr> in
      if 0 < left then
        res_bind (fill_padding_at a m p e left (sip_padding s)) (\<lambda>(p', left', pad).
          let s = s\<lparr>sip_padding := pad\<rparr> in
          if p' = e \<and> left' < 8 then Ok s
          else compress_rest_at be a m p' e ((compress_word (sip_padding s) s)\<lparr>sip_padding := 0\<rparr>))
      else compress_rest_at be a m p e s)"

definition siphash24_at :: "bool \<Rightarrow> nat \<Rightarrow> bytes \<Rightarrow> u64 \<Rightarrow> u64 \<Rightarrow> bytes \<Rightarrow> u64 res" where
  "siphash24_at be a m p inlen k = res_map siphash24_finalize (siphash24_compress_at be a m p inlen (siphash24_init be k))"

section \<open>An input that lies in the object\<close>

text \<open>The bytes \<open>bs\<close> lie at \<open>p\<close>.\<close>

definition lie_at :: "nat \<Rightarrow> bytes \<Rightarrow> u64 \<Rightarrow> bytes \<Rightarrow> bool" where
  "lie_at a m p bs \<longleftrightarrow> a \<le> unat p \<and> unat p + length bs \<le> a + length m \<and> unat p + length bs < 2 ^ 64 \<and>
     bs = segment (unat p - a) (length bs) m"

lemma lie_at_segment:
  "a \<le> unat p \<Longrightarrow> unat p + n \<le> a + length m \<Longrightarrow> unat p + n < 2 ^ 64 \<Longrightarrow> lie_at a m p (segment (unat p - a) n m)"
  by (simp add: lie_at_def)

lemma lie_at_read:
  assumes "lie_at a m p bs" and "n \<le> length bs"
  shows "bytes_in a m p n = Ok (take n bs)"
proof -
  have "take n bs = segment (unat p - a) n m"
    using assms by (subst lie_at_def [THEN iffD1, OF assms(1), THEN conjunct2, THEN conjunct2, THEN conjunct2])
      (simp add: segment_def min_def)
  then show ?thesis using assms by (auto simp: bytes_in_def lie_at_def)
qed

lemma lie_at_unat: "lie_at a m p bs \<Longrightarrow> n \<le> length bs \<Longrightarrow> unat (p + of_nat n) = unat p + n"
  by (simp add: lie_at_def unat_add_no_wrap unat_of_nat take_bit_nat_eq_self)

lemma lie_at_drop:
  assumes "lie_at a m p bs" and "n \<le> length bs"
  shows "lie_at a m (p + of_nat n) (drop n bs)"
proof -
  have "drop n bs = drop n (segment (unat p - a) (length bs) m)" using assms(1) by (simp only: lie_at_def)
  also have "\<dots> = segment (unat p + n - a) (length bs - n) m"
    using lie_at_def [THEN iffD1, OF assms(1), THEN conjunct1] by (simp add: segment_def drop_take add.commute)
  finally have d: "drop n bs = segment (unat p + n - a) (length bs - n) m" .
  show ?thesis
    unfolding lie_at_def lie_at_unat [OF assms] length_drop
  proof (intro conjI)
    show "drop n bs = segment (unat p + n - a) (length bs - n) m" by (rule d)
  qed (use assms in \<open>simp_all add: lie_at_def\<close>)
qed

lemma lie_at_less: "lie_at a m p bs \<Longrightarrow> n \<le> length bs \<Longrightarrow> p < p + of_nat n \<longleftrightarrow> 0 < n"
  using lie_at_unat [of a m p bs n] by (simp add: word_less_nat_alt)

lemma fill_padding_at_bytes:
  assumes "lie_at a m p inp" and "fill_padding inp left pad = (inp', left', pad')"
  shows "\<exists>n\<le>length inp. inp' = drop n inp \<and>
    fill_padding_at a m p (p + of_nat (length inp)) left pad = Ok (p + of_nat n, left', pad')"
  using assms
proof (induction inp arbitrary: p left pad)
  case Nil
  then show ?case by (subst fill_padding_at.simps) simp
next
  case (Cons b inp)
  show ?case
  proof (cases "left < 8")
    case True
    have at: "lie_at a m (p + 1) inp" using lie_at_drop [OF Cons.prems(1), of 1] by simp
    have fill: "fill_padding inp (left + 1) (pad OR push_bit (left * 8) (ucast b)) = (inp', left', pad')"
      using Cons.prems(2) True by simp
    obtain n where n: "n \<le> length inp" "inp' = drop n inp"
      "fill_padding_at a m (p + 1) (p + 1 + of_nat (length inp)) (left + 1) (pad OR push_bit (left * 8) (ucast b)) =
        Ok (p + 1 + of_nat n, left', pad')"
      using Cons.IH [OF at fill] by blast
    have less: "p < p + of_nat (length (b # inp))" using lie_at_less [OF Cons.prems(1), of "length (b # inp)"] by simp
    have read: "bytes_in a m p 1 = Ok [b]" using lie_at_read [OF Cons.prems(1), of 1] by simp
    have "fill_padding_at a m p (p + of_nat (length (b # inp))) left pad = Ok (p + of_nat (Suc n), left', pad')"
      using True less read n(3) by (subst fill_padding_at.simps) (simp add: add.assoc)
    then show ?thesis using n(1,2) by (intro exI [of _ "Suc n"]) simp
  next
    case False
    then show ?thesis using Cons.prems(2) by (subst fill_padding_at.simps) (auto intro!: exI [of _ 0])
  qed
qed

lemma fill_padding_counts:
  "fill_padding inp left pad = (inp', left', pad') \<Longrightarrow> left \<le> 8 \<Longrightarrow>
     left' = min 8 (left + length inp) \<and> length inp' = length inp - (8 - left)"
  by (induction inp left pad rule: fill_padding.induct) (auto split: if_splits)

lemma compress_words_at_bytes:
  assumes "lie_at a m p inp" and "8 * q \<le> length inp" and "e = p + of_nat (8 * q)"
  shows "compress_words_at be a m p e s = Ok (e, snd (compress_words be inp (8 * q) s)) \<and>
    fst (compress_words be inp (8 * q) s) = drop (8 * q) inp"
  using assms
proof (induction q arbitrary: p inp s)
  case 0
  then show ?case by (subst compress_words_at.simps, subst (1 2) compress_words.simps) simp
next
  case (Suc q)
  have at: "lie_at a m (p + 8) (drop 8 inp)" using lie_at_drop [OF Suc.prems(1), of 8] Suc.prems(2) by simp
  have less: "p < e" using lie_at_less [OF Suc.prems(1,2)] Suc.prems(3) by simp
  have read: "bytes_in a m p 8 = Ok (take 8 inp)" by (rule lie_at_read [OF Suc.prems(1)]) (use Suc.prems(2) in simp)
  have e: "e = p + 8 + of_nat (8 * q)" using Suc.prems(3) by (simp add: algebra_simps)
  have q: "8 * q \<le> length (drop 8 inp)" using Suc.prems(2) by simp
  have word: "unaligned_read_le64 be (take 8 inp) = unaligned_read_le64 be inp" by (simp add: unaligned_read_le64_def)
  have words: "compress_words be inp (8 * Suc q) s =
      compress_words be (drop 8 inp) (8 * q) (compress_word (unaligned_read_le64 be inp) s)"
    by (subst compress_words.simps) simp
  have "compress_words_at be a m p e s = compress_words_at be a m (p + 8) e (compress_word (unaligned_read_le64 be inp) s)"
    using less read word by (subst compress_words_at.simps) simp
  then show ?case
    using Suc.IH [OF at q e, of "compress_word (unaligned_read_le64 be inp) s"] unfolding words by (simp add: add.commute)
qed

lemma compress_words_inlen: "sip_inlen (snd (compress_words be inp n s)) = sip_inlen s"
  by (induction be inp n s rule: compress_words.induct) (subst compress_words.simps, simp)

lemma compress_rest_at_bytes:
  assumes "lie_at a m p inp" and "unat (sip_inlen s) mod 8 = length inp mod 8" and "e = p + of_nat (length inp)"
  shows "compress_rest_at be a m p e s = Ok (compress_rest be inp s)"
proof -
  let ?q = "length inp div 8" and ?r = "length inp mod 8"
  have n: "length inp - unat (sip_inlen s) mod 8 = 8 * ?q" unfolding assms(2) by (rule minus_mod_eq_mult_div)
  have "unat (sip_inlen s mod 8) = ?r" using assms(2) by (simp add: unat_mod)
  then have r: "sip_inlen s mod 8 = of_nat ?r" by (metis of_nat_unat ucast_id)
  have "(of_nat (length inp) :: u64) = of_nat (8 * ?q) + of_nat ?r" by (metis mult_div_mod_eq of_nat_add)
  then have e: "e - sip_inlen s mod 8 = p + of_nat (8 * ?q)" unfolding assms(3) r by (simp add: algebra_simps)
  have q: "8 * ?q \<le> length inp" by simp
  note words = compress_words_at_bytes [OF assms(1) q e, of be s]
  obtain inp' s' where w: "compress_words be inp (8 * ?q) s = (inp', s')" by fastforce
  have left: "unat (sip_inlen s' AND 7) = length inp'"
    using compress_words_inlen [of be inp "8 * ?q" s] w words assms(2) by (simp add: unat_and_7 minus_mult_div_eq_mod)
  have "lie_at a m (p + of_nat (8 * ?q)) inp'" using lie_at_drop [OF assms(1) q] words w by simp
  from lie_at_read [OF this order_refl] show ?thesis
    using words w left n by (simp add: compress_rest_at_def compress_rest_def e)
qed

text \<open>The streaming operation on pointers is the one on bytes.\<close>

lemma siphash24_compress_at_bytes:
  assumes "lie_at a m p inp" and "inlen = of_nat (length inp)"
  shows "siphash24_compress_at be a m p inlen s = Ok (siphash24_compress be inp s)"
proof -
  let ?left = "unat (sip_inlen s AND 7)" and ?s = "s\<lparr>sip_inlen := sip_inlen s + of_nat (length inp)\<rparr>"
  have left: "?left = unat (sip_inlen s) mod 8" by (rule unat_and_7)
  have "sip_inlen ?s = of_nat (unat (sip_inlen s) + length inp)" by simp
  then have total: "unat (sip_inlen ?s) mod 8 = (?left + length inp) mod 8"
    by (simp only: unat_of_nat_mod_8 left mod_add_left_eq)
  show ?thesis
  proof (cases "0 < ?left")
    case True
    obtain inp' left' pad' where fill: "fill_padding inp ?left (sip_padding s) = (inp', left', pad')"
      by (cases "fill_padding inp ?left (sip_padding s)") auto
    obtain n where n: "n \<le> length inp" "inp' = drop n inp"
      "fill_padding_at a m p (p + of_nat (length inp)) ?left (sip_padding s) = Ok (p + of_nat n, left', pad')"
      using fill_padding_at_bytes [OF assms(1) fill] by blast
    have at: "lie_at a m (p + of_nat n) inp'" using lie_at_drop [OF assms(1) n(1)] n(2) by simp
    have e: "p + of_nat (length inp) = p + of_nat n + of_nat (length inp')"
      using n(1,2) by (simp add: of_nat_diff)
    have ended: "p + of_nat n = p + of_nat (length inp) \<longleftrightarrow> inp' = []"
      using lie_at_less [OF at order_refl] unfolding e by auto
    let ?s1 = "(compress_word pad' (?s\<lparr>sip_padding := pad'\<rparr>))\<lparr>sip_padding := 0\<rparr>"
    have rest: "unat (sip_inlen ?s1) mod 8 = length inp' mod 8" if more: "\<not> (inp' = [] \<and> left' < 8)"
    proof -
      have "?left < 8" by (simp add: left)
      then have "8 \<le> ?left + length inp \<and> length inp' = ?left + length inp - 8"
        using fill_padding_counts [OF fill] more length_greater_0_conv [of inp'] by (cases "inp' = []") auto
      then have "?left + length inp = length inp' + 8" by linarith
      then have "(?left + length inp) mod 8 = length inp' mod 8" by simp
      then show ?thesis using total by simp
    qed
    show ?thesis
    proof (cases "inp' = [] \<and> left' < 8")
      case True
      then show ?thesis
        using \<open>0 < ?left\<close> n(3) fill ended assms(2) by (simp add: siphash24_compress_at_def siphash24_compress_def Let_def)
    next
      case False
      have "compress_rest_at be a m (p + of_nat n) (p + of_nat (length inp)) ?s1 = Ok (compress_rest be inp' ?s1)"
        by (rule compress_rest_at_bytes [OF at rest [OF False] e])
      then show ?thesis
        using \<open>0 < ?left\<close> n(3) fill ended False assms(2)
        by (auto simp: siphash24_compress_at_def siphash24_compress_def Let_def)
    qed
  next
    case False
    then have "compress_rest_at be a m p (p + of_nat (length inp)) ?s = Ok (compress_rest be inp ?s)"
      using total by (intro compress_rest_at_bytes [OF assms(1)]) simp_all
    then show ?thesis using False assms(2) by (simp add: siphash24_compress_at_def siphash24_compress_def Let_def)
  qed
qed

lemma siphash24_at_bytes:
  assumes "a \<le> unat p" and "unat p + unat inlen \<le> a + length m" and "unat p + unat inlen < 2 ^ 64"
  shows "siphash24_at be a m p inlen k = Ok (siphash24 be (segment (unat p - a) (unat inlen) m) k)"
proof -
  have "length (segment (unat p - a) (unat inlen) m) = unat inlen" using assms(1,2) by simp
  then have "inlen = of_nat (length (segment (unat p - a) (unat inlen) m))" by simp
  from siphash24_compress_at_bytes [OF lie_at_segment [OF assms] this] show ?thesis
    by (simp add: siphash24_at_def siphash24_def)
qed

section \<open>A length that wraps around\<close>

text \<open>When the end of the input is before its start, only the tail of at most seven bytes is read.\<close>

lemma siphash24_at_wraps:
  assumes "\<not> p < p + inlen - inlen mod 8"
  shows "siphash24_at be a m p inlen k = res_map (\<lambda>bs. siphash24_finalize ((siphash24_init be k)
    \<lparr>sip_inlen := inlen, sip_padding := pad_tail (length bs) bs 0\<rparr>)) (bytes_in a m p (unat (inlen mod 8)))"
proof -
  have left: "unat (inlen AND 7) = unat (inlen mod 8)" by (simp add: unat_and_7 unat_mod)
  have init: "sip_inlen (siphash24_init be k) = 0" "sip_padding (siphash24_init be k) = 0"
    by (simp_all add: siphash24_init_def Let_def)
  have len: "length bs = n" if "bytes_in a m p n = Ok bs" for n bs
    using that by (auto simp: bytes_in_def split: if_splits)
  show ?thesis
    using assms len by (cases "bytes_in a m p (unat (inlen mod 8))")
      (simp_all add: siphash24_at_def siphash24_compress_at_def compress_rest_at_def compress_words_at.simps [of be a m p]
        init left Let_def)
qed

end
