(* ===== verification/Verify_Hashed.thy ===== *)
theory Verify_Hashed
  imports Object_Loop Printf Siphash_Memory Lookup3
begin

text \<open>
  \<^verbatim>\<open>verify-hashed-objects.c\<close>: every data and field object of a journal is loaded, decompressed if need
  be, hashed, and compared with the hash stored in it.  The zstd library is an argument: what it says
  of a frame's size, whether it makes a context, what one call of \<open>ZSTD_decompressStream\<close> returns.
  So are \<open>malloc\<close>, the addresses of the objects, and what \<open>iou_async\<close> makes of the work it runs.
\<close>

section \<open>The environment\<close>

datatype frame_size = Content_Error | Content_Unknown | Content_Size u64

datatype zstd_error = DstSize_Too_Small | Memory_Allocation | Other_Error

record zstd =
  z_frame_size :: "bytes \<Rightarrow> frame_size"
  z_dctx :: bool
  z_stream :: "bytes \<Rightarrow> nat \<Rightarrow> zstd_error option \<times> bytes"
    \<comment> \<open>source and room at the destination to error and bytes written\<close>

record verify_stats =
  n_field_objects :: u64
  n_data_objects :: u64
  n_field_bytes :: u64
  n_data_bytes :: u64

record verify_state =
  vs_object :: bytes \<comment> \<open>\<open>*iter_object\<close>, of \<open>malloc_usable_size\<close> its length\<close>
  vs_decompressed :: bytes \<comment> \<open>\<open>*decompressed\<close>\<close>
  vs_stats :: verify_stats

record verify_env =
  ve_be :: bool
  ve_vg :: bool \<comment> \<open>built for a memory checker\<close>
  ve_addr :: nat \<comment> \<open>the address of the hashed memory\<close>
  ve_around :: memory \<comment> \<open>the bytes around it\<close>
  ve_malloc :: bool
  ve_zstd :: zstd
  ve_async :: "string \<times> verify_state res \<Rightarrow> string \<times> verify_state res" \<comment> \<open>of what is printed and returned\<close>

section \<open>Operations\<close>

text \<open>Memory that holds \<open>bs\<close> at an address.\<close>

definition placed :: "memory \<Rightarrow> nat \<Rightarrow> bytes \<Rightarrow> memory" where
  "placed around a bs i = (if a \<le> i \<and> i < a + length bs then bs ! (i - a) else around i)"

text \<open>
  \<open>hash\<close> of \<open>n\<close> bytes at the offset \<open>off\<close> of an object \<open>m\<close> that lies at the address \<open>a\<close>.  lookup3 reads every byte of its key, so
  the key must lie in the object; SipHash is given the address.
\<close>

definition hash :: "bool \<Rightarrow> bool \<Rightarrow> Header \<Rightarrow> memory \<Rightarrow> nat \<Rightarrow> bytes \<Rightarrow> nat \<Rightarrow> u64 \<Rightarrow> u64 res" where
  "hash be vg header around a m off n =
     (if incompatible_flags header AND HEADER_INCOMPATIBLE_KEYED_HASH \<noteq> 0
      then siphash24_at be a m (of_nat (a + off)) n (file_id header)
      else if off + unat n \<le> length m then Ok (jenkins_hash64 be vg (placed around a m) (a + off) (unat n))
      else Fail OutOfBounds)"

definition hash_in :: "verify_env \<Rightarrow> Header \<Rightarrow> bytes \<Rightarrow> nat \<Rightarrow> u64 \<Rightarrow> u64 res" where
  "hash_in env header m off n = hash (ve_be env) (ve_vg env) header (ve_around env) (ve_addr env) m off n"

definition zstd_ret_to_errno :: "zstd_error \<Rightarrow> int" where
  "zstd_ret_to_errno e =
     (case e of DstSize_Too_Small \<Rightarrow> - ENOBUFS | Memory_Allocation \<Rightarrow> - ENOMEM | Other_Error \<Rightarrow> - EBADMSG)"

text \<open>\<open>size > SIZE_MAX\<close> does not hold for a 64-bit \<open>size_t\<close>, which is assumed.\<close>

definition decompress :: "verify_env \<Rightarrow> u8 \<Rightarrow> bytes \<Rightarrow> bytes \<Rightarrow> (bytes \<times> nat) res" where
  "decompress env compression src dest =
     res_bind (assert_that (src \<noteq> [])) (\<lambda>_.
     res_bind (assert_that (compression AND OBJECT_COMPRESSED_ZSTD \<noteq> 0)) (\<lambda>_.
     case z_frame_size (ve_zstd env) src of
       Content_Error \<Rightarrow> Fail (Errno (- EBADMSG))
     | Content_Unknown \<Rightarrow> Fail (Errno (- EBADMSG))
     | Content_Size sz \<Rightarrow>
         if length dest < unat sz \<and> \<not> ve_malloc env then Fail (Errno (- ENOMEM))
         else if \<not> z_dctx (ve_zstd env) then Fail (Errno (- ENOMEM))
         else let d = (if length dest < unat sz then replicate (unat sz) 0 else dest) in
           case z_stream (ve_zstd env) src (unat sz) of
             (Some e, _) \<Rightarrow> Fail (Errno (zstd_ret_to_errno e))
           | (None, out) \<Rightarrow>
               res_map (\<lambda>_. (out @ drop (length out) d, unat sz)) (assert_that (unat sz \<le> length out))))"

definition count_field :: "u64 \<Rightarrow> verify_stats \<Rightarrow> verify_stats" where
  "count_field n st = st\<lparr>n_field_objects := n_field_objects st + 1, n_field_bytes := n_field_bytes st + n\<rparr>"

definition count_data :: "u64 \<Rightarrow> verify_stats \<Rightarrow> verify_stats" where
  "count_data n st = st\<lparr>n_data_objects := n_data_objects st + 1, n_data_bytes := n_data_bytes st + n\<rparr>"

text \<open>What is printed for a mismatch: \<open>(int)payload_size\<close> bytes of the payload at most, as it lies in the file.\<close>

definition mismatch_line :: "u64 \<Rightarrow> u64 \<Rightarrow> string \<Rightarrow> string" where
  "mismatch_line h stored contents = ''mismatch '' @ hex_nat (unat h) @ '' != '' @ hex_nat (unat stored) @ newline @
     ''contents='' @ CHR 0x22 # contents @ CHR 0x22 # newline"

definition mismatch_text :: "u64 \<Rightarrow> u64 \<Rightarrow> u64 \<Rightarrow> bytes \<Rightarrow> string res" where
  "mismatch_text h stored payload_size mem =
     res_map (mismatch_line h stored) (print_prec (sint (ucast payload_size :: 32 word)) mem)"

text \<open>The part of \<open>verify_hashed_object\<close> after the \<open>switch\<close>: \<open>off\<close> is the offset of the payload.  The results are
  what is printed and what is returned.\<close>

definition payload_hash :: "verify_env \<Rightarrow> Header \<Rightarrow> nat \<Rightarrow> u64 \<Rightarrow> verify_state \<Rightarrow> (u64 \<times> bytes) res" where
  "payload_hash env header off payload_size s =
     (let m = vs_object s; compression = m ! 1 AND OBJECT_COMPRESSION_MASK in
      if compression \<noteq> 0 then
        res_bind (mem_read m off (unat payload_size)) (\<lambda>src.
        res_bind (decompress env compression src (vs_decompressed s)) (\<lambda>(dec, n).
          res_map (\<lambda>h. (h, dec)) (hash_in env header dec 0 (of_nat n))))
      else res_map (\<lambda>h. (h, vs_decompressed s)) (hash_in env header m off payload_size))"

definition verify_payload ::
  "verify_env \<Rightarrow> Header \<Rightarrow> nat \<Rightarrow> u64 \<Rightarrow> verify_state \<Rightarrow> string \<times> verify_state res" where
  "verify_payload env header off payload_size s =
     (case payload_hash env header off payload_size s of
        Fail e \<Rightarrow> ([], Fail e)
      | Ok (h, d) \<Rightarrow>
          let m = vs_object s; stored = ld64 (ve_be env) 16 m in
          if h \<noteq> stored then
            (case mismatch_text h stored payload_size (drop off m) of
               Fail e \<Rightarrow> ([], Fail e)
             | Ok text \<Rightarrow> (text, Fail (Errno (- EBADMSG))))
          else ([], Ok (s\<lparr>vs_decompressed := d\<rparr>)))"

definition verify_hashed_object :: "verify_env \<Rightarrow> Header \<Rightarrow> verify_state \<Rightarrow> string \<times> verify_state res" where
  "verify_hashed_object env header s =
     (let m = vs_object s; sz = ld64 (ve_be env) 8 m in
      case object_type_of (m ! 0) of
        Some OBJECT_FIELD \<Rightarrow>
          (let payload_size = sz - of_nat sizeof_FieldObject in
           verify_payload env header sizeof_FieldObject payload_size
             (s\<lparr>vs_stats := count_field payload_size (vs_stats s)\<rparr>))
      | Some OBJECT_DATA \<Rightarrow>
          (let payload_size = sz - of_nat sizeof_DataObject in
           verify_payload env header sizeof_DataObject payload_size
             (s\<lparr>vs_stats := count_data payload_size (vs_stats s)\<rparr>))
      | _ \<Rightarrow> ([], Fail AssertFail))"

text \<open>Large objects are handed to a worker thread; the closure waits for it.\<close>

definition per_hashed_object :: "verify_env \<Rightarrow> Header \<Rightarrow> verify_state \<Rightarrow> string \<times> verify_state res" where
  "per_hashed_object env header s =
     (if unat (ld64 (ve_be env) 8 (vs_object s)) \<le> 16 * 1024
      then verify_hashed_object env header s
      else ve_async env (verify_hashed_object env header s))"

definition hashed_type :: "u8 \<Rightarrow> bool" where
  "hashed_type t \<longleftrightarrow> object_type_of t = Some OBJECT_FIELD \<or> object_type_of t = Some OBJECT_DATA"

text \<open>What \<open>per_object\<close> does at an offset that is not 0.\<close>

definition verify_step :: "verify_env \<Rightarrow> 'j reader \<Rightarrow> Header \<Rightarrow> ('j, verify_state) object_step" where
  "verify_step env rd header it j s =
     (if \<not> hashed_type (o_type (it_header it)) then Ok (j, s)
      else let sz = o_size (it_header it) in
        if length (vs_object s) < unat sz \<and> \<not> ve_malloc env then Fail (Errno (- ENOMEM))
        else let buf = (if length (vs_object s) < unat sz then replicate (unat sz) 0 else vs_object s) in
          res_bind (journal_get_object rd (ve_be env) (it_offset it) sz buf j) (\<lambda>(obj, j').
            res_map (\<lambda>s'. (j', s')) (snd (per_hashed_object env header (s\<lparr>vs_object := obj\<rparr>)))))"

text \<open>What a step prints.\<close>

definition verify_step_prints ::
  "verify_env \<Rightarrow> 'j reader \<Rightarrow> Header \<Rightarrow> iter \<Rightarrow> 'j \<Rightarrow> verify_state \<Rightarrow> string" where
  "verify_step_prints env rd header it j s =
     (let sz = o_size (it_header it); grow = length (vs_object s) < unat sz in
      if \<not> hashed_type (o_type (it_header it)) \<or> grow \<and> \<not> ve_malloc env then []
      else case journal_get_object rd (ve_be env) (it_offset it) sz (if grow then replicate (unat sz) 0 else vs_object s) j of
        Fail e \<Rightarrow> []
      | Ok (obj, j') \<Rightarrow> fst (per_hashed_object env header (s\<lparr>vs_object := obj\<rparr>)))"

text \<open>The end of a journal: both buffers are freed and a line is printed.\<close>

definition verify_end :: "string \<Rightarrow> verify_stats \<Rightarrow> string res" where
  "verify_end name st =
     res_bind (humane_bytes (n_field_bytes st)) (\<lambda>h1.
     res_map (\<lambda>h2. CHR 0x22 # name @ CHR 0x22 # '' finished: field_objects='' @ dec (unat (n_field_objects st)) @
         ''('' @ h1 @ '') data_objects='' @ dec (unat (n_data_objects st)) @ ''('' @ h2 @ '')'' @ newline)
       (humane_bytes (n_data_bytes st)))"

text \<open>\<open>per_journal\<close>: \<open>fb\<close> and \<open>db\<close> are the byte counts, which it does not initialise.\<close>

definition verify_per_journal ::
  "verify_env \<Rightarrow> 'j reader \<Rightarrow> string \<Rightarrow> iter \<Rightarrow> u64 \<Rightarrow> u64 \<Rightarrow> 'j \<Rightarrow> (verify_stats \<times> string) res option" where
  "verify_per_journal env rd name it fb db j =
     map_option (\<lambda>r. res_bind r (\<lambda>(_, _, s). res_map (\<lambda>text. (vs_stats s, text)) (verify_end name (vs_stats s))))
       (header_then_loop rd (ve_be env) (verify_step env rd) it j
          \<lparr>vs_object = [], vs_decompressed = [],
           vs_stats = \<lparr>n_field_objects = 0, n_data_objects = 0, n_field_bytes = fb, n_data_bytes = db\<rparr>\<rparr>)"

definition jio_verify_hashed_objects :: "int \<Rightarrow> int \<Rightarrow> int" where
  "jio_verify_hashed_objects machid_r run_r =
     (if machid_r < 0 then machid_r else if run_r < 0 then run_r else 0)"

section \<open>Reference hashes\<close>

text \<open>The hash a payload should have: SipHash-2-4 under the file's id, or the two hashes of lookup3.\<close>

definition reference_hash :: "Header \<Rightarrow> bytes \<Rightarrow> u64" where
  "reference_hash header bs =
     (if incompatible_flags header AND HEADER_INCOMPATIBLE_KEYED_HASH \<noteq> 0 then sip_hash_2_4 (file_id header) bs
      else let x = 0xdeadbeef + of_nat (length bs) in
        case lookup3_bytes le_word bs (x, x, x) of (a, b, c) \<Rightarrow> push_bit 32 (ucast c) OR ucast b)"

lemma bytes_at_placed:
  assumes "off + n \<le> length m"
  shows "bytes_at (placed around a m) (a + off) n = segment off n m"
  by (rule nth_equalityI) (use assms in \<open>simp_all add: nth_bytes_at placed_def segment_def\<close>)

lemma hash_in_reference:
  assumes "length (file_id header) = 16" and "off + unat n \<le> length m" and "ve_addr env + off + unat n < 2 ^ 64"
  shows "hash_in env header m off n = Ok (reference_hash header (segment off (unat n) m))"
proof (cases "incompatible_flags header AND HEADER_INCOMPATIBLE_KEYED_HASH = 0")
  case True
  then show ?thesis
    using assms(2) by (simp add: hash_in_def hash_def reference_hash_def bytes_at_placed jenkins_hash64_def
      jenkins_hashlittle2_def hashlittle_body_correct Let_def split: prod.split)
next
  case False
  have p: "unat (of_nat (ve_addr env + off) :: u64) = ve_addr env + off"
    using assms(3) by (simp only: unat_of_nat) (simp add: take_bit_nat_eq_self)
  have "siphash24_at (ve_be env) (ve_addr env) m (of_nat (ve_addr env + off)) n (file_id header) =
      Ok (siphash24 (ve_be env) (segment (ve_addr env + off - ve_addr env) (unat n) m) (file_id header))"
    using siphash24_at_bytes [of "ve_addr env" "of_nat (ve_addr env + off)" n m "ve_be env" "file_id header"] assms(2,3)
    unfolding p by simp
  then show ?thesis using False assms(1) by (simp add: hash_in_def hash_def reference_hash_def siphash24_eq)
qed

section \<open>What a correct object is\<close>

definition payload_start :: "u8 \<Rightarrow> nat" where
  "payload_start t = (if object_type_of t = Some OBJECT_FIELD then sizeof_FieldObject else sizeof_DataObject)"

definition payload_bytes :: "bytes \<Rightarrow> iter \<Rightarrow> bytes" where
  "payload_bytes content it =
     (let k = payload_start (o_type (it_header it)) in
      segment (unat (it_offset it) + k) (unat (o_size (it_header it)) - k) content)"

text \<open>The payload as it was before compression, if zstd gives it back.\<close>

definition plain_payload :: "zstd \<Rightarrow> u8 \<Rightarrow> bytes \<Rightarrow> bytes option" where
  "plain_payload z flags src =
     (if flags AND OBJECT_COMPRESSION_MASK = 0 then Some src
      else if src = [] \<or> (flags AND OBJECT_COMPRESSION_MASK) AND OBJECT_COMPRESSED_ZSTD = 0 \<or> \<not> z_dctx z then None
      else case z_frame_size z src of
          Content_Size n \<Rightarrow>
            (case z_stream z src (unat n) of
               (None, out) \<Rightarrow> if length out = unat n then Some out else None
             | _ \<Rightarrow> None)
        | _ \<Rightarrow> None)"

definition hash_matches :: "verify_env \<Rightarrow> Header \<Rightarrow> bytes \<Rightarrow> iter \<Rightarrow> bool" where
  "hash_matches env header content it \<longleftrightarrow>
     (case plain_payload (ve_zstd env) (o_flags (it_header it)) (payload_bytes content it) of
        Some out \<Rightarrow> reference_hash header out = le64_at (unat (it_offset it) + 16) content
      | None \<Rightarrow> False)"

definition hashed_iter :: "iter \<Rightarrow> bool" where
  "hashed_iter it \<longleftrightarrow> hashed_type (o_type (it_header it))"

text \<open>A hashed object lies in the file with its fixed part, and its payload decompresses; the memory for both does not
  wrap around the address space.\<close>

definition hashed_fits :: "verify_env \<Rightarrow> bytes \<Rightarrow> iter \<Rightarrow> bool" where
  "hashed_fits env content it \<longleftrightarrow> (hashed_iter it \<longrightarrow>
     payload_start (o_type (it_header it)) \<le> unat (o_size (it_header it)) \<and>
     unat (it_offset it) + unat (o_size (it_header it)) \<le> length content \<and>
     unat (o_size (it_header it)) \<le> max_rw_count \<and> ve_addr env + unat (o_size (it_header it)) < 2 ^ 64 \<and>
     (\<exists>out. plain_payload (ve_zstd env) (o_flags (it_header it)) (payload_bytes content it) = Some out \<and>
        ve_addr env + length out < 2 ^ 64))"

definition env_ok :: "verify_env \<Rightarrow> bool" where
  "env_ok env \<longleftrightarrow> ve_malloc env \<and> (\<forall>r. ve_async env r = r)"

definition counts_object :: "iter \<Rightarrow> verify_stats \<Rightarrow> verify_stats" where
  "counts_object it st =
     (let n = o_size (it_header it) - of_nat (payload_start (o_type (it_header it))) in
      if object_type_of (o_type (it_header it)) = Some OBJECT_FIELD then count_field n st else count_data n st)"

section \<open>One object\<close>

text \<open>What converting a hashed object leaves of it.\<close>

lemma got_hashed_object:
  assumes "hashed_type (obj ! 0)" and "payload_start (obj ! 0) \<le> unat (le64_at 8 obj)"
    and "unat (le64_at 8 obj) \<le> length obj"
  obtains m where "got_object be obj = Ok m" and "length m = length obj" and "m ! 0 = obj ! 0" and "m ! 1 = obj ! 1"
    and "ld64 be 8 m = le64_at 8 obj" and "ld64 be 16 m = le64_at 16 obj"
    and "\<And>n. payload_start (obj ! 0) + n \<le> length obj \<Longrightarrow>
      segment (payload_start (obj ! 0)) n m = segment (payload_start (obj ! 0)) n obj"
proof -
  obtain ty where ty: "object_type_of (obj ! 0) = Some ty" "ty = OBJECT_FIELD \<or> ty = OBJECT_DATA"
    using assms(1) by (auto simp: hashed_type_def)
  have k: "payload_start (obj ! 0) = object_min_size ty"
    using ty by (auto simp: payload_start_def layout_simps)
  obtain m where m: "got_object be obj = Ok m" "swapped be (8 # object_fields ty (le64_at 8 obj)) obj m"
    using got_object_swaps [OF ty(1), of be] ty(2) assms(2,3) k by auto
  have sw: "length m = length obj" "\<And>off. off \<in> set (8 # object_fields ty (le64_at 8 obj)) \<Longrightarrow> ld64 be off m = le64_at off obj"
    "\<And>i. i < length obj \<Longrightarrow> (\<forall>off\<in>set (8 # object_fields ty (le64_at 8 obj)). i < off \<or> off + 8 \<le> i) \<Longrightarrow> m ! i = obj ! i"
    using m(2) unfolding swapped_def by blast+
  have min: "40 \<le> object_min_size ty" using ty(2) by auto
  then have len: "40 \<le> length obj" using assms(2,3) k by linarith
  have same: "m ! i = obj ! i" if "i < length obj" "i < 8 \<or> object_min_size ty \<le> i" for i
    by (rule sw(3) [OF that(1)]) (use that(2) ty(2) in auto)
  show ?thesis
  proof (rule that [OF m(1) sw(1)])
    have l: "0 < length obj" "1 < length obj" using len by linarith+
    show "m ! 0 = obj ! 0" by (rule same [OF l(1)]) simp
    show "m ! 1 = obj ! 1" by (rule same [OF l(2)]) simp
    show "ld64 be 8 m = le64_at 8 obj" "ld64 be 16 m = le64_at 16 obj" using sw(2) ty(2) by auto
    show "segment (payload_start (obj ! 0)) n m = segment (payload_start (obj ! 0)) n obj"
      if "payload_start (obj ! 0) + n \<le> length obj" for n
      by (rule nth_equalityI) (use that same k sw(1) in \<open>auto simp: segment_def\<close>)
  qed
qed

text \<open>\<open>verify_payload\<close> on an object that holds a payload which decompresses.\<close>

lemma payload_hash_result:
  assumes "env_ok env" and "length (file_id header) = 16" and "off + unat n \<le> length (vs_object s)"
    and "plain_payload (ve_zstd env) (vs_object s ! 1) (segment off (unat n) (vs_object s)) = Some out"
    and "ve_addr env + off + unat n < 2 ^ 64" and "ve_addr env + length out < 2 ^ 64"
  shows "\<exists>dec. payload_hash env header off n s = Ok (reference_hash header out, dec)"
proof (cases "vs_object s ! 1 AND OBJECT_COMPRESSION_MASK = 0")
  case True
  then have "segment off (unat n) (vs_object s) = out" using assms(4) by (simp add: plain_payload_def)
  then show ?thesis
    using True assms(2,3,5) by (auto simp: payload_hash_def Let_def hash_in_reference)
next
  case False
  let ?src = "segment off (unat n) (vs_object s)" and ?z = "ve_zstd env"
  let ?c = "vs_object s ! 1 AND OBJECT_COMPRESSION_MASK"
  obtain k where k: "?src \<noteq> []" "?c AND OBJECT_COMPRESSED_ZSTD \<noteq> 0" "z_dctx ?z" "z_frame_size ?z ?src = Content_Size k"
    "z_stream ?z ?src (unat k) = (None, out)" "length out = unat k"
    using False assms(4) by (auto simp: plain_payload_def split: if_splits frame_size.splits prod.splits option.splits)
  obtain dec where dec: "decompress env ?c ?src (vs_decompressed s) = Ok (out @ dec, unat k)"
    using k assms(1) by (auto simp: decompress_def env_ok_def Let_def)
  have "hash_in env header (out @ dec) 0 k = Ok (reference_hash header out)"
    using k(6) assms(6) by (simp add: hash_in_reference assms(2) segment_def)
  then show ?thesis
    using False assms(3) dec by (auto simp: payload_hash_def Let_def mem_read_in)
qed

text \<open>The text of a mismatch shows the payload, as stored, up to the first NUL.\<close>

definition shown_payload :: "bytes \<Rightarrow> string" where
  "shown_payload bs = chars (takeWhile (\<lambda>b. b \<noteq> 0) bs)"

lemma mismatch_text_in:
  assumes "off + unat n \<le> length m" and "unat n \<le> max_rw_count"
  shows "mismatch_text h stored n (drop off m) = Ok (mismatch_line h stored (shown_payload (segment off (unat n) m)))"
proof -
  have "unat n < 2 ^ 31" using assms(2) by (simp add: max_rw_count_def)
  then have "sint (ucast n :: 32 word) = int (unat n)"
    by (simp add: signed_ucast_eq signed_take_bit_int_eq_self uint_nat del: of_nat_unat)
  then show ?thesis
    using print_prec_in [of "unat n" "drop off m"] assms(1)
    by (simp add: mismatch_text_def shown_payload_def segment_def)
qed

lemma verify_payload_result:
  assumes "env_ok env" and "length (file_id header) = 16" and "off + unat n \<le> length (vs_object s)"
    and "plain_payload (ve_zstd env) (vs_object s ! 1) (segment off (unat n) (vs_object s)) = Some out"
    and "unat n \<le> max_rw_count"
    and "ve_addr env + off + unat n < 2 ^ 64" and "ve_addr env + length out < 2 ^ 64"
  shows "\<exists>dec. verify_payload env header off n s =
    (if reference_hash header out = ld64 (ve_be env) 16 (vs_object s) then ([], Ok (s\<lparr>vs_decompressed := dec\<rparr>))
     else (mismatch_line (reference_hash header out) (ld64 (ve_be env) 16 (vs_object s))
         (shown_payload (segment off (unat n) (vs_object s))), Fail (Errno (- EBADMSG))))"
  using payload_hash_result [OF assms(1-4,6,7)] mismatch_text_in [OF assms(3,5)]
  by (auto simp: verify_payload_def Let_def)

text \<open>The action of a step on an object of the file.\<close>

definition verify_act_run ::
  "verify_env \<Rightarrow> Header \<Rightarrow> bytes \<Rightarrow> iter \<Rightarrow> verify_state \<Rightarrow> string \<times> verify_state res" where
  "verify_act_run env header content it s =
     (if \<not> hashed_iter it then ([], Ok s)
      else let sz = unat (o_size (it_header it));
               buf = (if length (vs_object s) < sz then replicate sz 0 else vs_object s) in
        case got_object (ve_be env) (segment (unat (it_offset it)) sz content @ drop sz buf) of
          Fail e \<Rightarrow> ([], Fail e)
        | Ok obj \<Rightarrow> per_hashed_object env header (s\<lparr>vs_object := obj\<rparr>))"

definition verify_act :: "verify_env \<Rightarrow> Header \<Rightarrow> bytes \<Rightarrow> (iter, verify_state) closure" where
  "verify_act env header content it s = snd (verify_act_run env header content it s)"

text \<open>What is printed for an object whose hash is wrong.\<close>

definition mismatch_of :: "verify_env \<Rightarrow> Header \<Rightarrow> bytes \<Rightarrow> iter \<Rightarrow> string" where
  "mismatch_of env header content it =
     mismatch_line (case plain_payload (ve_zstd env) (o_flags (it_header it)) (payload_bytes content it) of
         Some out \<Rightarrow> reference_hash header out | None \<Rightarrow> 0)
       (le64_at (unat (it_offset it) + 16) content) (shown_payload (payload_bytes content it))"

definition iter_of_file :: "verify_env \<Rightarrow> bytes \<Rightarrow> iter \<Rightarrow> bool" where
  "iter_of_file env content it \<longleftrightarrow> hashed_fits env content it \<and> it_header it = header_at content (it_offset it)"

context complete_reader
begin

lemma verify_step_act:
  assumes "inv j" and "env_ok env" and "iter_of_file env content it"
  shows "\<exists>j'. inv j' \<and> verify_step env rd header it j s = res_map (\<lambda>s'. (j', s')) (verify_act env header content it s) \<and>
    verify_step_prints env rd header it j s = fst (verify_act_run env header content it s)"
proof (cases "hashed_iter it")
  case False
  then show ?thesis
    using assms(1) by (auto simp: verify_step_def verify_step_prints_def verify_act_def verify_act_run_def hashed_iter_def)
next
  case True
  let ?sz = "o_size (it_header it)" and ?off = "it_offset it"
  have sz: "40 \<le> unat ?sz" "unat ?off + unat ?sz \<le> length content" "unat ?sz \<le> max_rw_count"
    using assms(3) True by (auto simp: iter_of_file_def hashed_fits_def payload_start_def layout_simps split: if_splits)
  have nz: "?sz \<noteq> 0" using sz(1) by auto
  obtain j' where j': "rd j ?off ?sz = Ok (segment (unat ?off) (unat ?sz) content, j')" "inv j'"
    by (rule rd_in_range [OF assms(1) nz sz(2,3)])
  let ?buf = "if length (vs_object s) < unat ?sz then replicate (unat ?sz) 0 else vs_object s"
  have "\<not> length ?buf < length (segment (unat ?off) (unat ?sz) content)" by simp
  then have "journal_get_object rd (ve_be env) ?off ?sz ?buf j =
      res_map (\<lambda>obj. (obj, j')) (got_object (ve_be env)
        (segment (unat ?off) (unat ?sz) content @ drop (unat ?sz) ?buf))"
    using j'(1) sz(2) by (simp add: journal_get_object_def)
  then have "verify_step env rd header it j s = res_map (\<lambda>s'. (j', s')) (verify_act env header content it s) \<and>
    verify_step_prints env rd header it j s = fst (verify_act_run env header content it s)"
    using True assms(2)
    by (cases "got_object (ve_be env) (segment (unat ?off) (unat ?sz) content @ drop (unat ?sz) ?buf)")
      (simp_all add: verify_step_def verify_step_prints_def verify_act_def verify_act_run_def hashed_iter_def Let_def env_ok_def)
  then show ?thesis using j'(2) by blast
qed

end

interpretation verify: reading_step "read_chain h"
    "\<lambda>j. reads_file h content \<and> reads_fully h content \<and> coherent content j" content
    "verify_step env (read_chain h) header" "\<lambda>it. env_ok env \<and> iter_of_file env content it" "verify_act env header content"
  for h content env header
  by unfold_locales (use chain_full.verify_step_act in blast)

lemma verify_hashed_object_result:
  assumes "env_ok env" and "length (file_id header) = 16" and "hashed_type t" and "vs_object s ! 0 = t"
    and "ld64 (ve_be env) 8 (vs_object s) = sz" and "payload_start t \<le> unat sz" and "unat sz \<le> length (vs_object s)"
    and "plain_payload (ve_zstd env) (vs_object s ! 1)
      (segment (payload_start t) (unat sz - payload_start t) (vs_object s)) = Some out"
    and "unat sz \<le> max_rw_count" and "ve_addr env + unat sz < 2 ^ 64" and "ve_addr env + length out < 2 ^ 64"
  shows "\<exists>s'. per_hashed_object env header s =
      (if reference_hash header out = ld64 (ve_be env) 16 (vs_object s) then ([], Ok s')
       else (mismatch_line (reference_hash header out) (ld64 (ve_be env) 16 (vs_object s))
         (shown_payload (segment (payload_start t) (unat sz - payload_start t) (vs_object s))), Fail (Errno (- EBADMSG)))) \<and>
    vs_stats s' = counts_object \<lparr>it_offset = 0, it_header = \<lparr>o_type = t, o_flags = 0, o_reserved = [], o_size = sz\<rparr>\<rparr>
      (vs_stats s)"
proof -
  let ?k = "payload_start t"
  let ?n = "sz - of_nat ?k"
  let ?st = "counts_object \<lparr>it_offset = 0, it_header = \<lparr>o_type = t, o_flags = 0, o_reserved = [], o_size = sz\<rparr>\<rparr> (vs_stats s)"
  let ?s = "s\<lparr>vs_stats := ?st\<rparr>"
  have k: "unat (of_nat ?k :: u64) = ?k" by (simp add: payload_start_def layout_simps)
  then have n: "unat ?n = unat sz - ?k" using assms(6) by (simp add: unat_sub word_le_nat_alt)
  have "\<exists>dec. verify_payload env header ?k ?n ?s =
      (if reference_hash header out = ld64 (ve_be env) 16 (vs_object s) then ([], Ok (?s\<lparr>vs_decompressed := dec\<rparr>))
       else (mismatch_line (reference_hash header out) (ld64 (ve_be env) 16 (vs_object s))
         (shown_payload (segment ?k (unat sz - ?k) (vs_object s))), Fail (Errno (- EBADMSG))))"
    using verify_payload_result [OF assms(1,2), of ?k ?n ?s out, unfolded n] assms(6-8,10,11) le_trans [OF diff_le_self assms(9)]
    by (simp cong: if_cong)
  then obtain dec where dec: "verify_payload env header ?k ?n ?s =
      (if reference_hash header out = ld64 (ve_be env) 16 (vs_object s) then ([], Ok (?s\<lparr>vs_decompressed := dec\<rparr>))
       else (mismatch_line (reference_hash header out) (ld64 (ve_be env) 16 (vs_object s))
         (shown_payload (segment ?k (unat sz - ?k) (vs_object s))), Fail (Errno (- EBADMSG))))"
    by blast
  have sync: "ve_async env r = r" for r using assms(1) unfolding env_ok_def by blast
  have "per_hashed_object env header s = verify_payload env header ?k ?n ?s"
    using assms(3,4,5)
    by (auto simp: per_hashed_object_def verify_hashed_object_def hashed_type_def sync payload_start_def
      counts_object_def Let_def)
  then show ?thesis unfolding dec by (intro exI [of _ "?s\<lparr>vs_decompressed := dec\<rparr>"]) simp
qed

lemma le64_at_append: "i + 8 \<le> length xs \<Longrightarrow> le64_at i (xs @ ys) = le64_at i xs"
  by (simp add: le64_at_def segment_append_left)

lemma verify_act_run_result:
  assumes "env_ok env" and "length (file_id header) = 16" and "iter_of_file env content it" and "hashed_iter it"
  shows "\<exists>s'. verify_act_run env header content it s =
      (if hash_matches env header content it then ([], Ok s')
       else (mismatch_of env header content it, Fail (Errno (- EBADMSG)))) \<and>
    vs_stats s' = counts_object it (vs_stats s)"
proof -
  let ?hd = "it_header it" and ?off = "unat (it_offset it)"
  let ?sz = "unat (o_size ?hd)" and ?k = "payload_start (o_type ?hd)"
  let ?buf = "if length (vs_object s) < ?sz then replicate ?sz 0 else vs_object s"
  let ?obj = "segment ?off ?sz content @ drop ?sz ?buf"
  have fits: "?k \<le> ?sz" "?off + ?sz \<le> length content" "?sz \<le> max_rw_count"
    and hd: "?hd = header_at content (it_offset it)"
    using assms(3,4) by (auto simp: iter_of_file_def hashed_fits_def)
  have addr: "ve_addr env + ?sz < 2 ^ 64"
    using assms(3,4) unfolding iter_of_file_def hashed_fits_def by blast
  obtain out where out: "plain_payload (ve_zstd env) (o_flags ?hd) (payload_bytes content it) = Some out"
    "ve_addr env + length out < 2 ^ 64"
    using assms(3,4) by (auto simp: iter_of_file_def hashed_fits_def)
  have k: "40 \<le> ?k" by (simp add: payload_start_def layout_simps)
  have len: "length (segment ?off ?sz content) = ?sz" using fits(2) by simp
  have t: "o_type ?hd = ?obj ! 0" and f: "o_flags ?hd = ?obj ! 1"
    using fits k hd by (simp_all add: header_at_def parse_object_header_def segment_def sizeof_ObjectHeader_def nth_append)
  have "o_size ?hd = le64_at (?off + 8) content"
    unfolding hd header_at_def parse_object_header_def by (simp add: le64_at_segment sizeof_ObjectHeader_def)
  then have sz: "o_size ?hd = le64_at 8 ?obj" and h16: "le64_at 16 ?obj = le64_at (?off + 16) content"
    using fits k len by (simp_all add: le64_at_append le64_at_segment)
  have pay: "segment ?k (?sz - ?k) ?obj = payload_bytes content it"
    using fits len by (simp add: payload_bytes_def Let_def segment_append_left segment_segment)
  have ht: "hashed_type (?obj ! 0)" using assms(4) t by (simp add: hashed_iter_def)
  obtain m where m: "got_object (ve_be env) ?obj = Ok m" "length m = length ?obj" "m ! 0 = o_type ?hd" "m ! 1 = o_flags ?hd"
    "ld64 (ve_be env) 8 m = o_size ?hd" "ld64 (ve_be env) 16 m = le64_at (?off + 16) content"
    "segment ?k (?sz - ?k) m = payload_bytes content it"
    by (rule got_hashed_object [of ?obj "ve_be env", OF ht])
      (use t f sz h16 pay fits len in \<open>auto simp del: One_nat_def\<close>)
  have lm: "?sz \<le> length m" unfolding m(2) length_append len by simp
  let ?s = "s\<lparr>vs_object := m\<rparr>"
  obtain s' where s': "per_hashed_object env header ?s =
      (if reference_hash header out = ld64 (ve_be env) 16 (vs_object ?s) then ([], Ok s')
       else (mismatch_line (reference_hash header out) (ld64 (ve_be env) 16 (vs_object ?s))
         (shown_payload (segment ?k (?sz - ?k) (vs_object ?s))), Fail (Errno (- EBADMSG))))"
    "vs_stats s' = counts_object \<lparr>it_offset = 0, it_header = \<lparr>o_type = o_type ?hd, o_flags = 0, o_reserved = [],
       o_size = o_size ?hd\<rparr>\<rparr> (vs_stats ?s)"
    using verify_hashed_object_result [OF assms(1,2), of "o_type ?hd" ?s "o_size ?hd" out] assms(4) lm m(3-5,7) fits(1,3) addr out
    by (auto simp: hashed_iter_def)
  have "verify_act_run env header content it s = per_hashed_object env header ?s"
    using assms(4) m(1) by (simp add: verify_act_run_def Let_def)
  then show ?thesis
    using s' m(6,7) out(1) by (intro exI [of _ s']) (simp add: hash_matches_def counts_object_def mismatch_of_def)
qed

lemma verify_act_result:
  assumes "env_ok env" and "length (file_id header) = 16" and "iter_of_file env content it" and "hashed_iter it"
  shows "\<exists>s'. verify_act env header content it s =
      (if hash_matches env header content it then Ok s' else Fail (Errno (- EBADMSG))) \<and>
    vs_stats s' = counts_object it (vs_stats s)"
proof -
  obtain s' where "verify_act_run env header content it s =
      (if hash_matches env header content it then ([], Ok s')
       else (mismatch_of env header content it, Fail (Errno (- EBADMSG))))"
    "vs_stats s' = counts_object it (vs_stats s)"
    using verify_act_run_result [OF assms] by blast
  then show ?thesis by (intro exI [of _ s']) (simp add: verify_act_def)
qed

section \<open>Properties\<close>

lemma header_file_id: "sizeof_Header \<le> length content \<Longrightarrow> length (file_id (file_header content)) = 16"
  by (simp add: file_header_def parse_header_def header_with_def sizeof_Header_def)

lemma chain_iters_of_file:
  assumes "object_chain content off tail objs" and "\<forall>i\<in>set (object_iters objs). hashed_fits env content i"
  shows "\<forall>i\<in>set (object_iters objs). iter_of_file env content i"
  using assms
  by (induction content off tail objs rule: object_chain.induct)
    (auto simp: object_iters_def iter_of_file_def header_at_def)

text \<open>The statistics after a list of objects.\<close>

definition counts_all :: "iter list \<Rightarrow> verify_stats \<Rightarrow> verify_stats" where
  "counts_all its st = fold counts_object (filter hashed_iter its) st"

lemma dispatch_verify:
  assumes "env_ok env" and "length (file_id header) = 16" and "\<forall>i\<in>set its. iter_of_file env content i"
  shows "\<exists>s'. dispatch_all (verify_act env header content) its s =
      (if \<forall>i\<in>set its. hashed_iter i \<longrightarrow> hash_matches env header content i then Ok s' else Fail (Errno (- EBADMSG))) \<and>
    vs_stats s' = counts_all its (vs_stats s)"
  using assms(3)
proof (induction its arbitrary: s)
  case Nil
  then show ?case by (auto simp: counts_all_def)
next
  case (Cons it its)
  show ?case
  proof (cases "hashed_iter it")
    case False
    then have "dispatch_all (verify_act env header content) (it # its) s =
        dispatch_all (verify_act env header content) its s"
      by (simp add: verify_act_def verify_act_run_def)
    then show ?thesis using Cons False by (simp add: counts_all_def)
  next
    case True
    obtain s1 where s1: "verify_act env header content it s =
        (if hash_matches env header content it then Ok s1 else Fail (Errno (- EBADMSG)))"
      "vs_stats s1 = counts_object it (vs_stats s)"
      using verify_act_result [OF assms(1,2) _ True] Cons.prems by (metis list.set_intros(1))
    obtain s2 where "dispatch_all (verify_act env header content) its s1 =
        (if \<forall>i\<in>set its. hashed_iter i \<longrightarrow> hash_matches env header content i then Ok s2 else Fail (Errno (- EBADMSG)))"
      "vs_stats s2 = counts_all its (vs_stats s1)"
      using Cons.IH [of s1] Cons.prems by auto
    then show ?thesis using s1 True by (intro exI [of _ s2]) (simp add: counts_all_def)
  qed
qed

text \<open>C10: Verification of a journal succeeds exactly when the hash stored in every data and field object is
  the reference hash (SipHash-2-4 under the file's id, or lookup3) of its decompressed payload, for
  objects of any size, on any host and wherever they lie in memory; a mismatch ends it with
  \<open>EBADMSG\<close>, and success reports the number of objects.\<close>

theorem verify_journal_exact:
  assumes "reads_file h content" and "reads_fully h content" and "coherent content j"
    and "journal_file content objs" and "it_offset it = 0" and "env_ok env"
    and "\<forall>i\<in>set (object_iters objs). hashed_fits env content i"
  shows "\<exists>text. verify_per_journal env (read_chain h) name it fb db j = Some
    (if \<forall>i\<in>set (object_iters objs). hashed_iter i \<longrightarrow> hash_matches env (file_header content) content i
     then Ok (counts_all (object_iters objs)
       \<lparr>n_field_objects = 0, n_data_objects = 0, n_field_bytes = fb, n_data_bytes = db\<rparr>, text)
     else Fail (Errno (- EBADMSG)))"
proof -
  let ?its = "object_iters objs" and ?hd = "file_header content"
  let ?s = "\<lparr>vs_object = [], vs_decompressed = [],
    vs_stats = \<lparr>n_field_objects = 0, n_data_objects = 0, n_field_bytes = fb, n_data_bytes = db\<rparr>\<rparr>"
  have inv: "reads_file h content \<and> reads_fully h content \<and> coherent content j" using assms by simp
  have len: "sizeof_Header \<le> length content"
    and chain: "object_chain content (header_size ?hd) (tail_object_offset ?hd) objs"
    using assms(4) by (simp_all add: journal_file_def)
  have its: "\<forall>i\<in>set ?its. iter_of_file env content i" by (rule chain_iters_of_file [OF chain assms(7)])
  obtain s' where s': "dispatch_all (verify_act env ?hd content) ?its ?s =
      (if \<forall>i\<in>set ?its. hashed_iter i \<longrightarrow> hash_matches env ?hd content i then Ok s' else Fail (Errno (- EBADMSG)))"
    "vs_stats s' = counts_all ?its (vs_stats ?s)"
    using dispatch_verify [OF assms(6) header_file_id [OF len] its] by blast
  obtain j1 where j1: "journal_get_header (read_chain h) (ve_be env) j = Ok (?hd, j1)"
    "reads_file h content \<and> reads_fully h content \<and> coherent content j1"
    by (rule chain_full.get_header [OF inv len])
  obtain it' j' where "header_then_loop (read_chain h) (ve_be env) (verify_step env (read_chain h)) it j ?s =
      Some (res_map (\<lambda>s'. (it', j', s')) (dispatch_all (verify_act env ?hd content) ?its ?s))"
    using verify.first_then_loop [OF j1(2) assms(5) chain, of env "ve_be env" ?hd ?s] its assms(6) j1(1)
    by (auto simp: header_then_loop_def)
  then show ?thesis
    using s' by (auto simp: verify_per_journal_def verify_end_def humane_bytes_str)
qed

text \<open>A journal with keyed hashes whose only object holds the published SipHash vector.\<close>

definition keyed_journal :: bytes where
  "keyed_journal = replicate 12 0 @ [4, 0, 0, 0] @ replicate 8 0 @ sip_key @ replicate 48 0 @ [0, 1, 0, 0, 0, 0, 0, 0] @
     replicate 40 0 @ [0, 1, 0, 0, 0, 0, 0, 0] @ replicate 112 0 @
     [1, 0, 0, 0, 0, 0, 0, 0, 79, 0, 0, 0, 0, 0, 0, 0, 0xe5, 0x45, 0xbe, 0x49, 0x61, 0xca, 0x29, 0xa1] @
     replicate 40 0 @ take 15 sip_key"

definition keyed_objects :: "(u64 \<times> ObjectHeader) list" where
  "keyed_objects = [(256, \<lparr>o_type = 1, o_flags = 0, o_reserved = [0, 0, 0, 0, 0, 0], o_size = 79\<rparr>)]"

definition plain_env :: verify_env where
  "plain_env = \<lparr>ve_be = False, ve_vg = False, ve_addr = 4099, ve_around = (\<lambda>i. 7), ve_malloc = True,
     ve_zstd = \<lparr>z_frame_size = (\<lambda>src. Content_Unknown), z_dctx = True, z_stream = (\<lambda>src n. (None, []))\<rparr>,
     ve_async = (\<lambda>r. r)\<rparr>"

lemma length_keyed_journal: "length keyed_journal = 335"
  by (simp add: keyed_journal_def sip_key_def)

lemma keyed_journal_header:
  "header_size (file_header keyed_journal) = 256" "tail_object_offset (file_header keyed_journal) = 256"
  "incompatible_flags (file_header keyed_journal) = 4" "file_id (file_header keyed_journal) = sip_key"
  by (simp_all add: file_header_def parse_header_def header_with_def keyed_journal_def segment_def
    le64_at_def le32_at_def sizeof_Header_def sip_key_def)

lemma keyed_journal_file: "journal_file keyed_journal keyed_objects"
  by (simp add: journal_file_def length_keyed_journal keyed_journal_header sizeof_Header_def
    keyed_objects_def sizeof_ObjectHeader_def)
    (simp add: keyed_journal_def sip_key_def segment_def parse_object_header_def le64_at_def ALIGN64_def)

definition keyed_iter :: iter where
  "keyed_iter = \<lparr>it_offset = 256, it_header = \<lparr>o_type = 1, o_flags = 0, o_reserved = [0, 0, 0, 0, 0, 0], o_size = 79\<rparr>\<rparr>"

lemma keyed_iters: "object_iters keyed_objects = [keyed_iter]"
  by (simp add: object_iters_def keyed_objects_def keyed_iter_def)

lemma data_type_1: "object_type_of (1 :: u8) = Some OBJECT_DATA"
  by (simp add: object_type_of_def OBJECT_TYPE_MAX_def object_types_def)

lemma keyed_payload: "payload_bytes keyed_journal keyed_iter = take 15 sip_key"
  by (simp add: payload_bytes_def payload_start_def data_type_1 sizeof_DataObject_def keyed_iter_def)
    (simp add: keyed_journal_def sip_key_def segment_def)

lemma keyed_fits: "\<forall>i\<in>set (object_iters keyed_objects). hashed_fits plain_env keyed_journal i"
  unfolding keyed_iters by (simp add: hashed_fits_def payload_start_def data_type_1 sizeof_DataObject_def
    length_keyed_journal max_rw_count_def plain_payload_def keyed_iter_def payload_bytes_def plain_env_def)

lemma keyed_matches: "hash_matches plain_env (file_header keyed_journal) keyed_journal keyed_iter"
proof -
  have "reference_hash (file_header keyed_journal) (take 15 sip_key) = 0xa129ca6149be45e5"
    by (simp add: reference_hash_def keyed_journal_header HEADER_INCOMPATIBLE_KEYED_HASH_def sip_hash_vector)
  moreover have "le64_at 272 keyed_journal = 0xa129ca6149be45e5"
    by (simp add: le64_at_def segment_def keyed_journal_def sip_key_def)
  ultimately show ?thesis
    by (simp add: hash_matches_def keyed_payload plain_payload_def) (simp add: keyed_iter_def)
qed

theorem verify_journal_exact_witness:
  "\<exists>text st. verify_per_journal plain_env (read_chain (file_host False keyed_journal)) ''a'' zero_iter 0 0
      (link_bufs (calloc_journal ''a'')) = Some (Ok (st, text)) \<and> n_data_objects st = 1 \<and> n_data_bytes st = 15"
proof -
  have len: "length keyed_journal < 2 ^ 63" by (simp add: length_keyed_journal)
  have it: "it_offset zero_iter = 0" by (simp add: zero_iter_def)
  have env: "env_ok plain_env" by (simp add: env_ok_def plain_env_def)
  from verify_journal_exact [OF file_host_reads [OF len, of False] file_host_fully
      link_bufs_coherent [of _ "''a''"] keyed_journal_file it env keyed_fits, of "''a''" 0 0]
  obtain line where "verify_per_journal plain_env (read_chain (file_host False keyed_journal)) ''a'' zero_iter 0 0
      (link_bufs (calloc_journal ''a'')) = Some
    (if hashed_iter keyed_iter \<longrightarrow> hash_matches plain_env (file_header keyed_journal) keyed_journal keyed_iter
     then Ok (counts_all [keyed_iter] \<lparr>n_field_objects = 0, n_data_objects = 0, n_field_bytes = 0, n_data_bytes = 0\<rparr>, line)
     else Fail (Errno (- EBADMSG)))"
    unfolding keyed_iters by auto
  moreover have "counts_all [keyed_iter] \<lparr>n_field_objects = 0, n_data_objects = 0, n_field_bytes = 0, n_data_bytes = 0\<rparr> =
      \<lparr>n_field_objects = 0, n_data_objects = 1, n_field_bytes = 0, n_data_bytes = 15\<rparr>"
    by (simp add: counts_all_def hashed_iter_def hashed_type_def counts_object_def keyed_iter_def data_type_1 payload_start_def
      sizeof_DataObject_def count_data_def Let_def)
  ultimately show ?thesis using keyed_matches by auto
qed

text \<open>The hash that is computed of a data object of less than its fixed size, with keyed hashes.\<close>

definition short_object_hash :: "bool \<Rightarrow> Header \<Rightarrow> bytes \<Rightarrow> u64" where
  "short_object_hash be header m =
     (let sz = ld64 be 8 m; k = unat sz mod 8 in
      siphash24_finalize ((siphash24_init be (file_id header))
        \<lparr>sip_inlen := sz - 64, sip_padding := pad_tail k (segment sizeof_DataObject k m) 0\<rparr>))"

lemma short_siphash:
  assumes "unat sz < 64" and "64 + unat sz mod 8 \<le> length m" and "a + length m < 2 ^ 64"
  shows "siphash24_at be a m (of_nat (a + 64)) (sz - 64) key = Ok (siphash24_finalize ((siphash24_init be key)
    \<lparr>sip_inlen := sz - 64, sip_padding := pad_tail (unat sz mod 8) (segment 64 (unat sz mod 8) m) 0\<rparr>))"
proof -
  let ?k = "unat sz mod 8"
  have p: "unat (of_nat (a + 64) :: u64) = a + 64"
    using assms(2,3) by (simp only: unat_of_nat) (simp add: take_bit_nat_eq_self)
  have "unat (sz - 64) = unat sz + (2 ^ 64 - 64)"
    using assms(1) by (simp add: unat_sub_if')
  then have k: "unat ((sz - 64) mod 8) = ?k" by (simp add: unat_mod) presburger
  then have k': "(sz - 64) mod 8 = of_nat ?k" by (metis of_nat_unat ucast_id)
  have "of_nat (a + 64) + (sz - 64) - (sz - 64) mod 8 = of_nat (a + (unat sz - ?k))"
    unfolding k' by (simp add: of_nat_diff algebra_simps)
  moreover have "unat (of_nat (a + (unat sz - ?k)) :: u64) = a + (unat sz - ?k)"
    using assms by (simp only: unat_of_nat) (simp add: take_bit_nat_eq_self)
  ultimately have "\<not> (of_nat (a + 64) :: u64) < of_nat (a + 64) + (sz - 64) - (sz - 64) mod 8"
    using p assms(1) by (simp add: word_less_nat_alt del: of_nat_add)
  note siphash24_at_wraps [OF this, of be a m key]
  moreover have "bytes_in a m (of_nat (a + 64)) ?k = Ok (segment 64 ?k m)"
    using assms(2,3) unfolding bytes_in_def p by (auto simp: segment_def)
  moreover have "length (segment 64 ?k m) = ?k" using assms(2) by simp
  ultimately show ?thesis by (simp add: k)
qed

lemma short_precision:
  assumes "unat (sz :: u64) < 64"
  shows "sint (ucast (sz - 64) :: 32 word) = int (unat sz) - 64"
proof -
  have "uint (sz - 64) = int (unat sz) - 64 + 2 ^ 64"
    using assms by (simp add: uint_nat unat_sub_if' del: of_nat_unat)
  then have "(of_int (uint (sz - 64)) :: 32 word) = of_int (int (unat sz) - 64 + 2 ^ 64)" by simp
  then have "ucast (sz - 64) = (of_int (int (unat sz) - 64) :: 32 word)" by simp
  then have "sint (ucast (sz - 64) :: 32 word) = signed_take_bit 31 (int (unat sz) - 64)"
    by (simp only: signed_of_int) simp
  also have "\<dots> = int (unat sz) - 64"
    using assms by (intro signed_take_bit_int_eq_self) (simp_all del: of_nat_unat)
  finally show ?thesis .
qed

text \<open>C0: A data object whose stored size is less than its fixed part gets a payload size that wraps around.  Of a
  keyed hash the loops then read nothing: it is a hash of the key, of the wrapped size and of at most seven bytes,
  whatever else the object holds.  An object with that hash stored passes; otherwise a mismatch is
  printed, with a precision that is negative, so that all of the memory up to a NUL is shown, and
  verification fails with \<open>EBADMSG\<close>.\<close>

theorem short_object_hashes_length_only:
  assumes "object_type_of (vs_object s ! 0) = Some OBJECT_DATA" and "vs_object s ! 1 AND OBJECT_COMPRESSION_MASK = 0"
    and "unat (ld64 (ve_be env) 8 (vs_object s)) < sizeof_DataObject"
    and "sizeof_DataObject + unat (ld64 (ve_be env) 8 (vs_object s)) mod 8 \<le> length (vs_object s)"
    and "ve_addr env + length (vs_object s) < 2 ^ 64"
    and "incompatible_flags header AND HEADER_INCOMPATIBLE_KEYED_HASH \<noteq> 0"
  shows "verify_hashed_object env header s =
    (let m = vs_object s; sz = ld64 (ve_be env) 8 m; stored = ld64 (ve_be env) 16 m;
         h = short_object_hash (ve_be env) header m in
     if h = stored then ([], Ok (s\<lparr>vs_stats := count_data (sz - 64) (vs_stats s)\<rparr>))
     else case print_prec (int (unat sz) - 64) (drop sizeof_DataObject m) of
         Ok shown \<Rightarrow> (mismatch_line h stored shown, Fail (Errno (- EBADMSG)))
       | Fail e \<Rightarrow> ([], Fail e))"
proof -
  let ?m = "vs_object s"
  let ?sz = "ld64 (ve_be env) 8 ?m"
  let ?h = "short_object_hash (ve_be env) header ?m"
  have "payload_hash env header 64 (?sz - 64) (s\<lparr>vs_stats := st\<rparr>) = Ok (?h, vs_decompressed s)" for st
    using short_siphash [of ?sz ?m "ve_addr env" "ve_be env" "file_id header"] assms(2-6)
    by (simp add: payload_hash_def hash_in_def hash_def short_object_hash_def sizeof_DataObject_def Let_def del: of_nat_add)
  then show ?thesis
    using assms(1) short_precision [of ?sz] assms(3)
    by (simp add: verify_hashed_object_def verify_payload_def mismatch_text_def sizeof_DataObject_def Let_def split: res.split)
qed

text \<open>Two objects of the size 40: one stores the hash of nothing and passes, the other stores 0 and is reported with what
  lies after its fixed part.\<close>

definition short_object :: "bytes \<Rightarrow> bytes" where
  "short_object stored = [1, 0, 0, 0, 0, 0, 0, 0, 40, 0, 0, 0, 0, 0, 0, 0] @ stored @ replicate 40 0 @ [104, 105, 0]"

lemma short_object_reads:
  assumes "length stored = 8"
  shows "object_type_of (short_object stored ! 0) = Some OBJECT_DATA" "short_object stored ! 1 AND OBJECT_COMPRESSION_MASK = 0"
    "ld64 False 8 (short_object stored) = 40" "length (short_object stored) = 67"
    "ld64 False 16 (short_object stored) = ld64 False 0 stored" "drop 64 (short_object stored) = [104, 105, 0]"
  using assms by (simp_all add: short_object_def data_type_1 ld64_def segment_def load_native_def)

lemma short_object_hash_40:
  assumes "length stored = 8"
  shows "short_object_hash False (file_header keyed_journal) (short_object stored) = 0x9d0904ba3d185a3a"
proof -
  have "sip_regs (siphash24_init False sip_key) = sip_start sip_key"
    using sip_abs_init [of sip_key False] by (simp add: sip_abs_def sip_key_def)
  then show ?thesis
    unfolding short_object_hash_def keyed_journal_header short_object_reads [OF assms] Let_def siphash24_finalize_regs
    by (simp add: sip_key_start word_rotl_shifts pad_tail_def)
qed

theorem short_object_hashes_length_only_witness:
  "let verify = \<lambda>stored. verify_hashed_object plain_env (file_header keyed_journal)
     \<lparr>vs_object = short_object stored, vs_decompressed = [],
      vs_stats = \<lparr>n_field_objects = 0, n_data_objects = 0, n_field_bytes = 0, n_data_bytes = 0\<rparr>\<rparr> in
   (\<exists>s. verify [0x3a, 0x5a, 0x18, 0x3d, 0xba, 0x04, 0x09, 0x9d] = ([], Ok s)) \<and>
   verify (replicate 8 0) = (mismatch_line 0x9d0904ba3d185a3a 0 ''hi'', Fail (Errno (- EBADMSG)))"
proof -
  let ?s = "\<lambda>stored. \<lparr>vs_object = short_object stored, vs_decompressed = [],
      vs_stats = \<lparr>n_field_objects = 0, n_data_objects = 0, n_field_bytes = 0, n_data_bytes = 0\<rparr>\<rparr>"
  let ?pass = "[0x3a, 0x5a, 0x18, 0x3d, 0xba, 0x04, 0x09, 0x9d] :: bytes"
  have env: "ve_be plain_env = False" "ve_addr plain_env = 4099" by (simp_all add: plain_env_def)
  have v: "verify_hashed_object plain_env (file_header keyed_journal) (?s stored) =
    (if 0x9d0904ba3d185a3a = ld64 False 0 stored then ([], Ok ((?s stored)\<lparr>vs_stats := count_data (40 - 64) (vs_stats (?s stored))\<rparr>))
     else case print_prec (- 24) [104, 105, 0] of
         Ok shown \<Rightarrow> (mismatch_line 0x9d0904ba3d185a3a (ld64 False 0 stored) shown, Fail (Errno (- EBADMSG)))
       | Fail e \<Rightarrow> ([], Fail e))" if "length stored = 8" for stored
  proof -
    note r = short_object_reads [OF that]
    show ?thesis
      by (subst short_object_hashes_length_only)
        (simp_all add: env r short_object_hash_40 [OF that] keyed_journal_header HEADER_INCOMPATIBLE_KEYED_HASH_def
          sizeof_DataObject_def Let_def del: One_nat_def cong: res.case_cong)
  qed
  have "ld64 False 0 ?pass = 0x9d0904ba3d185a3a" "ld64 False 0 (replicate 8 0) = 0"
    by (simp_all add: ld64_def segment_def load_native_def)
  moreover have "print_prec (- 24) [104, 105, 0] = Ok ''hi''" by (simp add: print_prec_def chars_def char_of_def bit_iff_odd)
  ultimately show ?thesis using v [of ?pass] v [of "replicate 8 0"] by (simp add: Let_def)
qed

text \<open>A payload compressed with XZ or LZ4, which the journal format allows, fails an assertion: only
  zstd is decompressed.\<close>

lemma xz_lz4_asserts:
  assumes "vs_object s ! 1 AND OBJECT_COMPRESSION_MASK = OBJECT_COMPRESSED_XZ \<or>
      vs_object s ! 1 AND OBJECT_COMPRESSION_MASK = OBJECT_COMPRESSED_LZ4"
    and "object_type_of (vs_object s ! 0) = Some OBJECT_DATA"
    and "sizeof_DataObject < unat (ld64 (ve_be env) 8 (vs_object s))"
    and "unat (ld64 (ve_be env) 8 (vs_object s)) \<le> length (vs_object s)"
  shows "verify_hashed_object env header s = ([], Fail AssertFail)"
proof -
  let ?sz = "ld64 (ve_be env) 8 (vs_object s)"
  have "unat (?sz - of_nat sizeof_DataObject) = unat ?sz - sizeof_DataObject"
    using assms(3) by (simp add: unat_sub word_le_nat_alt sizeof_DataObject_def)
  then have "mem_read (vs_object s) sizeof_DataObject (unat (?sz - of_nat sizeof_DataObject)) =
      Ok (segment sizeof_DataObject (unat ?sz - sizeof_DataObject) (vs_object s))"
    using assms(3,4) by (simp add: mem_read_in)
  moreover have "segment sizeof_DataObject (unat ?sz - sizeof_DataObject) (vs_object s) \<noteq> []"
    using assms(3,4) by (simp add: segment_def)
  moreover have "OBJECT_COMPRESSED_XZ \<noteq> 0" "OBJECT_COMPRESSED_LZ4 \<noteq> 0"
    "OBJECT_COMPRESSED_XZ AND OBJECT_COMPRESSED_ZSTD = 0" "OBJECT_COMPRESSED_LZ4 AND OBJECT_COMPRESSED_ZSTD = 0"
    by (simp_all add: OBJECT_COMPRESSED_XZ_def OBJECT_COMPRESSED_LZ4_def OBJECT_COMPRESSED_ZSTD_def)
  ultimately show ?thesis
    using assms(1,2) by (auto simp: verify_hashed_object_def verify_payload_def payload_hash_def decompress_def Let_def)
qed

lemma xz_lz4_asserts_witness:
  "verify_hashed_object plain_env (file_header keyed_journal)
     \<lparr>vs_object = [1, 2, 0, 0, 0, 0, 0, 0, 70, 0, 0, 0, 0, 0, 0, 0] @ replicate 54 0, vs_decompressed = [],
      vs_stats = \<lparr>n_field_objects = 0, n_data_objects = 0, n_field_bytes = 0, n_data_bytes = 0\<rparr>\<rparr> = ([], Fail AssertFail)"
  by (rule xz_lz4_asserts)
    (simp_all add: object_type_of_def OBJECT_TYPE_MAX_def object_types_def ld64_def segment_def plain_env_def
      load_native_def sizeof_DataObject_def OBJECT_COMPRESSION_MASK_def OBJECT_COMPRESSED_XZ_def
      OBJECT_COMPRESSED_LZ4_def OBJECT_COMPRESSED_ZSTD_def)

end
