(* ===== verification/Verify_Schedule.thy ===== *)
theory Verify_Schedule
  imports Verify_Hashed
begin

text \<open>
  \<^verbatim>\<open>verify-hashed-objects.c\<close> over several journals as one run: each chain verifies its own journal and
  prints a line at its end; the first mismatch ends the run.
\<close>

section \<open>The chains of the verification\<close>

text \<open>\<open>per_journal\<close>: the counts of objects and the two buffers are cleared, the counts of bytes are what the
  allocated closure holds.\<close>

definition verify_fresh :: "u64 \<Rightarrow> u64 \<Rightarrow> verify_state" where
  "verify_fresh fb db = \<lparr>vs_object = [], vs_decompressed = [],
     vs_stats = \<lparr>n_field_objects = 0, n_data_objects = 0, n_field_bytes = fb, n_data_bytes = db\<rparr>\<rparr>"

definition verify_begin ::
  "(journal \<Rightarrow> iter \<times> u64 \<times> u64) \<Rightarrow> (journal, verify_state proc list \<times> string) closure" where
  "verify_begin mem jr s =
     (case mem jr of (it, fb, db) \<Rightarrow> Ok (fst s @ [start_chain it (verify_fresh fb db) jr], snd s))"

definition verify_dispatch :: "verify_env \<Rightarrow> host \<Rightarrow> (verify_state, string) act" where
  "verify_dispatch env h header it j s out =
     (if it_offset it = 0 then res_map (\<lambda>line. (j, s, out @ line)) (verify_end (j_name j) (vs_stats s))
      else res_map (\<lambda>(j', s'). (j', s', out)) (verify_step env (read_chain h) header it j s))"

definition verify_chain_step :: "verify_env \<Rightarrow> host \<Rightarrow> (verify_state proc, string) chain" where
  "verify_chain_step env h = chain_step False (verify_dispatch env h) h"

definition verify_init :: "(u64 \<times> u64) job \<Rightarrow> verify_state" where
  "verify_init b = verify_fresh (fst (jb_data b)) (snd (jb_data b))"

definition verify_start :: "(u64 \<times> u64) job list \<Rightarrow> string \<Rightarrow> verify_state proc list \<times> string" where
  "verify_start jobs out = (map (begin_chain verify_init) jobs, out)"

lemma verify_begin_all:
  assumes "\<forall>b\<in>set jobs. mem (jb_bufs b) = (jb_iter b, jb_data b)"
  shows "dispatch_all (verify_begin mem) (map jb_bufs jobs) (ps, out) = Ok (ps @ fst (verify_start jobs out), out)"
  using assms
  by (induction jobs arbitrary: ps)
    (simp_all add: verify_begin_def verify_start_def begin_chain_def verify_init_def split_beta)

section \<open>Every dispatch verifies one object, the last one prints the line\<close>

definition verify_static :: "verify_env \<Rightarrow> (u64 \<times> u64) job \<Rightarrow> bool" where
  "verify_static env b \<longleftrightarrow> (\<forall>i\<in>set (object_iters (jb_objs b)). hashed_fits env (jb_content b) i)"

definition verify_job_ok :: "verify_env \<Rightarrow> host \<Rightarrow> (u64 \<times> u64) job \<Rightarrow> bool" where
  "verify_job_ok env h b \<longleftrightarrow> job_served h b \<and> verify_static env b \<and> it_offset (jb_iter b) = 0"

definition matches_all :: "verify_env \<Rightarrow> (u64 \<times> u64) job \<Rightarrow> iter list \<Rightarrow> bool" where
  "matches_all env b its \<longleftrightarrow>
     (\<forall>i\<in>set its. hashed_iter i \<longrightarrow> hash_matches env (file_header (jb_content b)) (jb_content b) i)"

text \<open>All hashes of a journal are right.\<close>

definition job_matches :: "verify_env \<Rightarrow> (u64 \<times> u64) job \<Rightarrow> bool" where
  "job_matches env b \<longleftrightarrow> matches_all env b (object_iters (jb_objs b))"

text \<open>The line that is printed for a journal.\<close>

definition job_line :: "(u64 \<times> u64) job \<Rightarrow> string" where
  "job_line b = (case verify_end (j_name (jb_bufs b)) (counts_all (object_iters (jb_objs b)) (vs_stats (verify_init b))) of
     Ok line \<Rightarrow> line | Fail _ \<Rightarrow> [])"

lemma verify_end_line:
  "verify_end (j_name (jb_bufs b)) (counts_all (object_iters (jb_objs b)) (vs_stats (verify_init b))) = Ok (job_line b)"
  by (simp add: job_line_def verify_end_def humane_bytes_str)

definition verify_dinv :: "verify_env \<Rightarrow> (u64 \<times> u64) job \<Rightarrow> iter list \<Rightarrow> verify_state \<Rightarrow> bool" where
  "verify_dinv env b did s \<longleftrightarrow> env_ok env \<and> verify_static env b \<and>
     (if did = dispatches b then job_matches env b
      else matches_all env b did \<and> vs_stats s = counts_all did (vs_stats (verify_init b)))"

definition verify_tinv :: "string \<Rightarrow> ((u64 \<times> u64) job \<times> iter list) list \<Rightarrow> string \<Rightarrow> bool" where
  "verify_tinv out0 gs out \<longleftrightarrow> (\<exists>order. mset order = mset (ended gs) \<and> out = out0 @ concat (map job_line order))"

definition mismatch :: "verify_env \<Rightarrow> (u64 \<times> u64) job \<Rightarrow> fault \<Rightarrow> bool" where
  "mismatch env b e \<longleftrightarrow> e = Errno (- EBADMSG) \<and> \<not> job_matches env b"

lemma verify_tinv_step:
  assumes "k < length gs" and "gs ! k = (b, did)" and "did \<noteq> dispatches b" and "verify_tinv out0 gs out"
  shows "did' \<noteq> dispatches b \<Longrightarrow> verify_tinv out0 (gs[k := (b, did')]) out"
    and "verify_tinv out0 (gs[k := (b, dispatches b)]) (out @ job_line b)"
proof -
  obtain order where order: "mset order = mset (ended gs)" "out = out0 @ concat (map job_line order)"
    using assms(4) by (auto simp: verify_tinv_def)
  note step = ended_step [OF assms(1-3)]
  show "did' \<noteq> dispatches b \<Longrightarrow> verify_tinv out0 (gs[k := (b, did')]) out"
    using order step [of did'] by (auto simp: verify_tinv_def)
  show "verify_tinv out0 (gs[k := (b, dispatches b)]) (out @ job_line b)"
    using order step [of "dispatches b"] by (auto simp: verify_tinv_def intro!: exI [of _ "order @ [b]"])
qed

lemma counts_all_snoc: "counts_all (its @ [it]) st = (if hashed_iter it then counts_object it (counts_all its st) else counts_all its st)"
  by (simp add: counts_all_def)

text \<open>The dispatch of an object of the file.\<close>

lemma verify_object_dispatch:
  assumes "served h (jb_content b) (jb_bufs b) j" and "journal_file (jb_content b) (jb_objs b)" and "verify_dinv env b did s"
    and "did \<noteq> dispatches b" and "did @ [it] \<noteq> dispatches b" and "it \<in> set (object_iters (jb_objs b))"
  shows "(\<exists>j' s'. verify_step env (read_chain h) (file_header (jb_content b)) it j s = Ok (j', s') \<and>
      served h (jb_content b) (jb_bufs b) j' \<and> verify_dinv env b (did @ [it]) s') \<or>
    (\<exists>e. verify_step env (read_chain h) (file_header (jb_content b)) it j s = Fail e \<and> mismatch env b e)"
proof -
  let ?c = "jb_content b" and ?hd = "file_header (jb_content b)"
  have env: "env_ok env" and static: "verify_static env b" and did: "matches_all env b did"
    "vs_stats s = counts_all did (vs_stats (verify_init b))"
    using assms(3,4) by (simp_all add: verify_dinv_def)
  have len: "sizeof_Header \<le> length ?c"
    and chain: "object_chain ?c (header_size ?hd) (tail_object_offset ?hd) (jb_objs b)"
    using assms(2) by (simp_all add: journal_file_def)
  have it: "iter_of_file env ?c it"
    using chain_iters_of_file [OF chain] static assms(6) by (auto simp: verify_static_def)
  obtain j' where j': "served h ?c (jb_bufs b) j'"
    "verify_step env (read_chain h) ?hd it j s = res_map (\<lambda>s'. (j', s')) (verify_act env ?hd ?c it s)"
    using indexed.verify_step_act [OF assms(1) env it] by blast
  show ?thesis
  proof (cases "hashed_iter it")
    case False
    then have "verify_act env ?hd ?c it s = Ok s" by (simp add: verify_act_def verify_act_run_def)
    moreover have "verify_dinv env b (did @ [it]) s"
      using False env static did assms(5) by (simp add: verify_dinv_def matches_all_def counts_all_snoc)
    ultimately show ?thesis using j' by auto
  next
    case True
    obtain s' where s': "verify_act env ?hd ?c it s =
        (if hash_matches env ?hd ?c it then Ok s' else Fail (Errno (- EBADMSG)))"
      "vs_stats s' = counts_object it (vs_stats s)"
      using verify_act_result [OF env header_file_id [OF len] it True] by blast
    show ?thesis
    proof (cases "hash_matches env ?hd ?c it")
      case True
      then have "verify_dinv env b (did @ [it]) s'"
        using \<open>hashed_iter it\<close> env static did s'(2) assms(5) by (simp add: verify_dinv_def matches_all_def counts_all_snoc)
      then show ?thesis using True s'(1) j' by auto
    next
      case False
      then have "mismatch env b (Errno (- EBADMSG))"
        using \<open>hashed_iter it\<close> assms(6) by (auto simp: mismatch_def job_matches_def matches_all_def)
      then show ?thesis using False s'(1) j'(2) by simp
    qed
  qed
qed

interpretation verify_chain: journal_chain False "verify_dispatch env h" h "verify_dinv env" "verify_tinv out0" "mismatch env"
  for env h out0
proof
  fix k and gs :: "((u64 \<times> u64) job \<times> iter list) list" and b :: "(u64 \<times> u64) job" and did it todo j s out
  let ?act = "verify_dispatch env h (file_header (jb_content b)) it j s out"
  assume k: "k < length gs" "gs ! k = (b, did)" and disp: "did @ it # todo = dispatches b"
    and j: "served h (jb_content b) (jb_bufs b) j" and jf: "journal_file (jb_content b) (jb_objs b)"
    and d: "verify_dinv env b did s" and t: "verify_tinv out0 gs out"
  have more: "did \<noteq> dispatches b" using disp [symmetric] by simp
  show "(\<exists>j' d' t'. ?act = Ok (j', d', t') \<and> served h (jb_content b) (jb_bufs b) j' \<and>
      verify_dinv env b (did @ [it]) d' \<and> verify_tinv out0 (gs[k := (b, did @ [it])]) t') \<or>
    (\<exists>e. ?act = Fail e \<and> mismatch env b e)"
    using disp jf
  proof (cases rule: dispatches_cases)
    case (object rest)
    then have "it \<in> set (object_iters (jb_objs b))" by (metis in_set_conv_decomp)
    from verify_object_dispatch [OF j jf d more object(3) this] show ?thesis
      using object(1) verify_tinv_step(1) [OF k more t object(3)] by (auto simp: verify_dispatch_def)
  next
    case at_end
    have name: "j_name j = j_name (jb_bufs b)" using j by (simp add: served_def identity_def)
    have d': "verify_dinv env b (did @ [it]) s"
      using d more at_end by (auto simp: verify_dinv_def job_matches_def)
    have "vs_stats s = counts_all (object_iters (jb_objs b)) (vs_stats (verify_init b))"
      using d more at_end(2) by (simp add: verify_dinv_def)
    then have "?act = Ok (j, s, out @ job_line b)"
      using at_end(1) by (simp add: verify_dispatch_def name verify_end_line)
    then show ?thesis
      using j d' verify_tinv_step(2) [OF k more t] unfolding at_end(3) by blast
  qed
qed

lemma verify_ready:
  assumes "\<forall>b\<in>set jobs. verify_job_ok env h b" and "env_ok env"
  shows "verify_chain.ready h env out verify_init jobs out"
  using assms
  by (auto simp: verify_chain.ready_def verify_job_ok_def verify_dinv_def verify_tinv_def dispatches_def visits_split
    matches_all_def counts_all_def)

text \<open>What every outcome of a run is.\<close>

lemma verify_outcomes:
  assumes "\<forall>b\<in>set jobs. verify_job_ok env h b" and "env_ok env"
  shows "(\<exists>r. run_ends (verify_chain_step env h) has_finished (verify_start jobs out) r) \<and>
    (\<forall>r. run_ends (verify_chain_step env h) has_finished (verify_start jobs out) r \<longrightarrow>
      (if \<forall>b\<in>set jobs. job_matches env b
       then \<exists>ps order. r = Ok (ps, out @ concat (map job_line order)) \<and> mset order = mset jobs
       else r = Fail (Errno (- EBADMSG))))"
proof -
  note ready = verify_ready [OF assms, of out]
  have "if \<forall>b\<in>set jobs. job_matches env b
       then \<exists>ps order. r = Ok (ps, out @ concat (map job_line order)) \<and> mset order = mset jobs
       else r = Fail (Errno (- EBADMSG))"
    if "run_ends (verify_chain_step env h) has_finished (verify_start jobs out) r" for r
  proof -
    have "(\<exists>ps t'. r = Ok (ps, t') \<and> verify_tinv out (map (\<lambda>b. (b, dispatches b)) jobs) t' \<and>
        (\<forall>k<length jobs. verify_dinv env (jobs ! k) (dispatches (jobs ! k)) (pr_data (ps ! k)))) \<or>
      (\<exists>e. r = Fail e \<and> (\<exists>b\<in>set jobs. mismatch env b e))"
      using verify_chain.outcomes_from_start [OF ready] that unfolding verify_chain_step_def verify_start_def by blast
    then show ?thesis
    proof
      assume "\<exists>ps t'. r = Ok (ps, t') \<and> verify_tinv out (map (\<lambda>b. (b, dispatches b)) jobs) t' \<and>
        (\<forall>k<length jobs. verify_dinv env (jobs ! k) (dispatches (jobs ! k)) (pr_data (ps ! k)))"
      then obtain ps order where r: "r = Ok (ps, out @ concat (map job_line order))" "mset order = mset jobs"
        and all: "\<forall>k<length jobs. verify_dinv env (jobs ! k) (dispatches (jobs ! k)) (pr_data (ps ! k))"
        by (auto simp: verify_tinv_def)
      have "\<forall>b\<in>set jobs. job_matches env b" using all by (auto simp: verify_dinv_def in_set_conv_nth)
      then show ?thesis using r by auto
    qed (auto simp: mismatch_def)
  qed
  then show ?thesis
    using verify_chain.outcome_from_start [OF ready] by (simp add: verify_chain_step_def verify_start_def)
qed

section \<open>An example\<close>

text \<open>Two copies of a journal whose keyed hash is right.\<close>

definition keyed_job :: "nat \<Rightarrow> (u64 \<times> u64) job" where
  "keyed_job i = \<lparr>jb_content = keyed_journal, jb_objs = keyed_objects, jb_size = 335, jb_iter = zero_iter,
     jb_bufs = (link_bufs (calloc_journal ''a''))\<lparr>j_idx := i\<rparr>, jb_data = (0, 0)\<rparr>"

lemma keyed_job_ok: "verify_job_ok plain_env (file_host False keyed_journal) (keyed_job i)"
proof -
  have len: "length keyed_journal < 2 ^ 63" by (simp add: length_keyed_journal)
  have "job_served (file_host False keyed_journal) (keyed_job i)"
    using len by (simp add: job_served_def keyed_job_def keyed_journal_file file_host_served coherent_j_idx link_bufs_coherent)
  then show ?thesis
    using keyed_fits by (simp add: verify_job_ok_def verify_static_def) (simp add: keyed_job_def zero_iter_def)
qed

lemma keyed_job_matches: "job_matches plain_env (keyed_job i)"
  using keyed_matches by (simp add: job_matches_def matches_all_def keyed_job_def keyed_iters)

lemma verify_outcomes_example:
  "\<exists>ps. run_ends (verify_chain_step plain_env (file_host False keyed_journal)) has_finished
      (verify_start [keyed_job 0, keyed_job 1] []) (Ok (ps, job_line (keyed_job 0) @ job_line (keyed_job 1)))"
proof -
  have ok: "\<forall>b\<in>set [keyed_job 0, keyed_job 1]. verify_job_ok plain_env (file_host False keyed_journal) b"
    by (simp add: keyed_job_ok)
  have env: "env_ok plain_env" by (simp add: env_ok_def plain_env_def)
  have all: "\<forall>b\<in>set [keyed_job 0, keyed_job 1]. job_matches plain_env b" by (simp add: keyed_job_matches)
  have same: "job_line (keyed_job i) = job_line (keyed_job 0)" for i
    by (simp add: job_line_def keyed_job_def verify_init_def)
  obtain ps order where run: "run_ends (verify_chain_step plain_env (file_host False keyed_journal)) has_finished
      (verify_start [keyed_job 0, keyed_job 1] []) (Ok (ps, [] @ concat (map job_line order)))"
    and order: "mset order = mset [keyed_job 0, keyed_job 1]"
    using verify_outcomes [OF ok env, of "[]"] all by metis
  have "set order = {keyed_job 0, keyed_job 1}" "length order = 2"
    using mset_eq_setD [OF order] mset_eq_length [OF order] by auto
  then have "map job_line order = replicate 2 (job_line (keyed_job 0))"
    using same [of 1] by (intro replicate_eqI) auto
  then show ?thesis using run same [of 1] by (intro exI [of _ ps]) (simp add: numeral_2_eq_2)
qed

end
