(* ===== verification/Report_Tail_Waste.thy ===== *)
theory Report_Tail_Waste
  imports Report_Run
begin

text \<open>
  \<^verbatim>\<open>report-tail-waste.c\<close>: the bytes between each journal's tail object and the end of the file, summed
  by the journal's state.  \<open>fstat\<close> of a journal is an argument (\<open>None\<close> where it fails), the results
  of \<open>machid_get\<close> and \<open>iou_run\<close> are arguments of \<open>jio_report_tail_waste\<close>.
\<close>

section \<open>Operations\<close>

record tail_waste =
  per_state_counts :: "u32 list"
  per_state_bytes :: "u64 list"
  waste_total :: u64
  total_file_size :: u64
  tw_journals :: u32

definition zero_tail_waste :: tail_waste where
  "zero_tail_waste = \<lparr>per_state_counts = replicate STATE_MAX 0, per_state_bytes = replicate STATE_MAX 0,
     waste_total = 0, total_file_size = 0, tw_journals = 0\<rparr>"

text \<open>What the thunk of a journal is given: its name and size, its header, its tail object's header.\<close>

record tail_info =
  ti_name :: string
  ti_stat :: "u64 option" \<comment> \<open>\<open>st_size\<close>, unless \<open>fstat\<close> fails\<close>
  ti_header :: Header
  ti_tail :: ObjectHeader

definition tail_end :: "Header \<Rightarrow> ObjectHeader \<Rightarrow> u64" where
  "tail_end header h = tail_object_offset header + ALIGN64 (o_size h)"

definition print_tail_waste :: "(tail_info, string \<times> tail_waste) closure" where
  "print_tail_waste i s =
     (case ti_stat i of
        None \<Rightarrow> Fail (Errno (- 1))
      | Some sz \<Rightarrow>
          let waste = sz - tail_end (ti_header i) (ti_tail i);
              state = unat (h_state (ti_header i)); tw = snd s in
          res_bind (humane_bytes sz) (\<lambda>h1. res_bind (humane_bytes waste) (\<lambda>h2.
          res_bind (arr_upd (per_state_bytes tw) state (\<lambda>n. n + waste)) (\<lambda>bs.
          res_map (\<lambda>cs.
              (fst s @ tab @ journal_state_str (int state) @ '': '' @ ti_name i @ '', size: '' @ h1 @
                 '', tail-waste: '' @ h2 @ newline,
               \<lparr>per_state_counts = cs, per_state_bytes = bs, waste_total = waste_total tw + waste,
                total_file_size = total_file_size tw + sz, tw_journals = tw_journals tw + 1\<rparr>))
            (arr_upd (per_state_counts tw) state (\<lambda>n. n + 1))))))"

definition tail_waste_per_journal ::
  "'j reader \<Rightarrow> bool \<Rightarrow> string \<Rightarrow> u64 option \<Rightarrow> 'j \<Rightarrow> string \<times> tail_waste \<Rightarrow> (string \<times> tail_waste) res" where
  "tail_waste_per_journal rd be name st j s =
     res_bind (header_then_tail rd be j) (\<lambda>((header, h), j').
       print_tail_waste \<lparr>ti_name = name, ti_stat = st, ti_header = header, ti_tail = h\<rparr> s)"

text \<open>The percentages, in integer arithmetic.\<close>

definition percent_of :: "u64 \<Rightarrow> u64 \<Rightarrow> u64" where
  "percent_of part whole = (if 100 \<le> whole then part div (whole div 100) else 0)"

definition tail_waste_totals :: "tail_waste \<Rightarrow> string res" where
  "tail_waste_totals tw =
     res_map ((@) (newline @ ''Totals:'' @ newline @ tab @ ''Tail-waste by state:'' @ newline))
      (res_bind (res_concat (map (\<lambda>i.
          res_map (\<lambda>h. tab @ tab @ pad_left 10 (journal_state_str (int i)) @ '' ['' @
              dec (unat (per_state_counts tw ! i)) @ '']: '' @ h @ '', '' @
              dec (unat (percent_of (per_state_bytes tw ! i) (waste_total tw))) @
              ''% of all tail-waste'' @ newline)
            (humane_bytes (per_state_bytes tw ! i))) [0..<STATE_MAX])) (\<lambda>table.
       res_bind (humane_bytes (waste_total tw)) (\<lambda>h1.
       res_map (\<lambda>h2. table @ newline @ tab @ ''Aggregate tail-waste: '' @ h1 @ '', '' @
            dec (unat (percent_of (waste_total tw) (total_file_size tw))) @ ''% of '' @ h2 @ '' spanning '' @
            dec (unat (tw_journals tw)) @ '' journal files'' @ newline)
         (humane_bytes (total_file_size tw)))))"

text \<open>\<open>s\<close> is what the run of the journals has printed and summed up.\<close>

definition jio_report_tail_waste :: "int \<Rightarrow> int \<Rightarrow> string \<times> tail_waste \<Rightarrow> (int \<times> string) res" where
  "jio_report_tail_waste machid_r run_r s =
     (if machid_r < 0 then Ok (machid_r, [])
      else let printed = newline @ ''Per-journal:'' @ newline @ fst s in
        if run_r < 0 then Ok (run_r, printed)
        else res_map (\<lambda>text. (0, printed @ text)) (tail_waste_totals (snd s)))"

section \<open>Sums by state\<close>

definition tail_info_ok :: "tail_info \<Rightarrow> bool" where
  "tail_info_ok i \<longleftrightarrow> ti_stat i \<noteq> None \<and> unat (h_state (ti_header i)) < STATE_MAX"

definition tail_waste_ok :: "tail_waste \<Rightarrow> bool" where
  "tail_waste_ok tw \<longleftrightarrow> length (per_state_counts tw) = STATE_MAX \<and> length (per_state_bytes tw) = STATE_MAX"

definition state_of :: "tail_info \<Rightarrow> nat" where
  "state_of i = unat (h_state (ti_header i))"

definition size_of :: "tail_info \<Rightarrow> u64" where
  "size_of i = (case ti_stat i of None \<Rightarrow> 0 | Some sz \<Rightarrow> sz)"

definition waste_of :: "tail_info \<Rightarrow> u64" where
  "waste_of i = size_of i - tail_end (ti_header i) (ti_tail i)"


definition adds_waste :: "tail_info list \<Rightarrow> tail_waste \<Rightarrow> tail_waste \<Rightarrow> bool" where
  "adds_waste is tw tw' \<longleftrightarrow>
     (\<forall>st<STATE_MAX.
        per_state_counts tw' ! st = per_state_counts tw ! st + of_nat (length (filter (\<lambda>i. state_of i = st) is)) \<and>
        per_state_bytes tw' ! st = per_state_bytes tw ! st +
          sum_list (map waste_of (filter (\<lambda>i. state_of i = st) is))) \<and>
     waste_total tw' = waste_total tw + sum_list (map waste_of is) \<and>
     total_file_size tw' = total_file_size tw + sum_list (map size_of is) \<and>
     tw_journals tw' = tw_journals tw + of_nat (length is) \<and> tail_waste_ok tw'"

lemma adds_waste_Nil: "tail_waste_ok tw \<Longrightarrow> adds_waste [] tw tw"
  by (simp add: adds_waste_def)

lemma adds_waste_append: "adds_waste is tw tw' \<Longrightarrow> adds_waste is' tw' tw'' \<Longrightarrow> adds_waste (is @ is') tw tw''"
  by (simp add: adds_waste_def)

text \<open>One journal, and what is printed for it.\<close>

definition tail_waste_line :: "tail_info \<Rightarrow> string" where
  "tail_waste_line i = tab @ journal_state_str (int (state_of i)) @ '': '' @ ti_name i @ '', size: '' @
     humane_str (size_of i) @ '', tail-waste: '' @ humane_str (waste_of i) @ newline"

definition waste_effect :: "tail_info \<Rightarrow> string \<times> tail_waste \<Rightarrow> string \<times> tail_waste" where
  "waste_effect i s =
     (fst s @ tail_waste_line i,
      \<lparr>per_state_counts = (per_state_counts (snd s))[state_of i := per_state_counts (snd s) ! state_of i + 1],
       per_state_bytes = (per_state_bytes (snd s))[state_of i := per_state_bytes (snd s) ! state_of i + waste_of i],
       waste_total = waste_total (snd s) + waste_of i, total_file_size = total_file_size (snd s) + size_of i,
       tw_journals = tw_journals (snd s) + 1\<rparr>)"

lemma adds_waste_effect:
  "tail_info_ok i \<Longrightarrow> tail_waste_ok (snd s) \<Longrightarrow> adds_waste [i] (snd s) (snd (waste_effect i s))"
  by (auto simp: adds_waste_def waste_effect_def tail_info_ok_def tail_waste_ok_def state_of_def nth_list_update)

interpretation waste_closure: summing_closure print_tail_waste tail_info_ok "\<lambda>s. tail_waste_ok (snd s)" waste_effect
    "\<lambda>is s s'. adds_waste is (snd s) (snd s') \<and> fst s' = fst s @ concat (map tail_waste_line is)"
proof
  fix i and s :: "string \<times> tail_waste"
  assume ok: "tail_info_ok i" "tail_waste_ok (snd s)"
  then obtain sz where "ti_stat i = Some sz" by (auto simp: tail_info_ok_def)
  then show "print_tail_waste i s = Ok (waste_effect i s)"
    using ok by (simp add: print_tail_waste_def Let_def humane_bytes_str tail_info_ok_def tail_waste_ok_def
      waste_effect_def tail_waste_line_def state_of_def size_of_def waste_of_def)
  show "tail_waste_ok (snd (waste_effect i s))"
    using adds_waste_effect [OF ok] by (simp add: adds_waste_def)
  show "adds_waste [i] (snd s) (snd (waste_effect i s)) \<and>
      fst (waste_effect i s) = fst s @ concat (map tail_waste_line [i])"
    using adds_waste_effect [OF ok] by (simp add: waste_effect_def)
qed (auto simp: adds_waste_Nil intro: adds_waste_append)

section \<open>Properties\<close>

text \<open>The journals' thunks, in whatever order they complete, print one line each and sum up, for
  every state, the journals in that state and the bytes of the file past the end of the tail
  object; the totals are those over all journals.\<close>

lemma tail_waste_sums_by_state:
  assumes "\<forall>i\<in>set is. tail_info_ok i"
  shows "\<exists>tw. dispatch_all print_tail_waste is ([], zero_tail_waste) =
      Ok (concat (map tail_waste_line is), tw) \<and> adds_waste is zero_tail_waste tw"
proof -
  have ok: "tail_waste_ok (snd ([], zero_tail_waste))" by (simp add: tail_waste_ok_def zero_tail_waste_def)
  obtain s' where "dispatch_all print_tail_waste is ([], zero_tail_waste) = Ok s'"
    "adds_waste is zero_tail_waste (snd s') \<and> fst s' = concat (map tail_waste_line is)"
    by (rule waste_closure.dispatch_all_adds [OF assms ok]) simp
  then show ?thesis by (cases s') simp
qed

definition sample_info :: "u8 \<Rightarrow> u64 \<Rightarrow> tail_info" where
  "sample_info state sz = \<lparr>ti_name = ''a'', ti_stat = Some sz,
     ti_header = (parse_header (replicate 256 0))\<lparr>h_state := state, tail_object_offset := 256\<rparr>,
     ti_tail = \<lparr>o_type = 7, o_flags = 0, o_reserved = [], o_size = 60\<rparr>\<rparr>"

lemma tail_waste_sums_by_state_witness:
  "\<exists>text tw. dispatch_all print_tail_waste [sample_info 2 420, sample_info 1 500, sample_info 2 400]
      ([], zero_tail_waste) = Ok (text, tw) \<and>
    per_state_bytes tw ! 2 = 180 \<and> per_state_counts tw ! 2 = 2 \<and> waste_total tw = 360"
proof -
  let ?is = "[sample_info 2 420, sample_info 1 500, sample_info 2 400]"
  have "\<forall>i\<in>set ?is. tail_info_ok i" by (simp add: tail_info_ok_def sample_info_def STATE_MAX_def)
  from tail_waste_sums_by_state [OF this] show ?thesis
    by (auto simp: adds_waste_def zero_tail_waste_def STATE_MAX_def sample_info_def state_of_def waste_of_def
      size_of_def tail_end_def ALIGN64_def)
qed

text \<open>The printed share of a part of at most the whole is at least its true percentage and at most
  199: the whole is divided by 100 first, and what that drops can double the result.\<close>

lemma percent_of_bounds:
  assumes "100 \<le> whole" and "part \<le> whole"
  shows "100 * unat part div unat whole \<le> unat (percent_of part whole) \<and> unat (percent_of part whole) \<le> 199"
proof -
  let ?p = "unat part" and ?w = "unat whole"
  let ?q = "?w div 100"
  have le: "100 \<le> ?w" "?p \<le> ?w" using assms by (simp_all add: word_le_nat_alt)
  have q: "1 \<le> ?q" "?w < 100 * (?q + 1)" "100 * ?q \<le> ?w"
    using div_le_mono [OF le(1), of 100] dividend_less_div_times [of 100 ?w] by simp_all
  have pc: "unat (percent_of part whole) = ?p div ?q"
    using assms(1) by (simp add: percent_of_def unat_div)
  have "100 * ?p div ?w \<le> 100 * ?p div (100 * ?q)" by (rule div_le_mono2) (use q in simp_all)
  then have "100 * ?p div ?w \<le> ?p div ?q" by simp
  moreover have "?p < 200 * ?q" using le q by linarith
  then have "?p div ?q < 200" using q by (simp add: less_mult_imp_div_less mult.commute)
  ultimately show ?thesis unfolding pc by simp
qed

lemma percent_of_bounds_witness:
  "100 * unat (199 :: u64) div unat (199 :: u64) \<le> unat (percent_of 199 199) \<and> unat (percent_of 199 199) \<le> 199"
  by (rule percent_of_bounds) simp_all

text \<open>The bound is reached: a single state that has all of 199 bytes is given 199 percent of them.\<close>

lemma percent_of_199: "percent_of 199 199 = 199"
  by (simp add: percent_of_def)

text \<open>A state byte that is no state, and a tail object that ends past the file.\<close>

lemma unknown_state_overruns:
  assumes "STATE_MAX \<le> unat (h_state (ti_header i))" and "ti_stat i = Some sz" and "tail_waste_ok (snd s)"
  shows "print_tail_waste i s = Fail OutOfBounds"
  using assms by (simp add: print_tail_waste_def Let_def humane_bytes_str tail_waste_ok_def arr_upd_out)

lemma short_file_waste_wraps: "size_of (sample_info 0 300) = 300 \<and> waste_of (sample_info 0 300) = - 20"
  by (simp add: sample_info_def size_of_def waste_of_def tail_end_def ALIGN64_def)

end
