(* ===== verification/Header_Tail_Chain.thy ===== *)
theory Header_Tail_Chain
  imports Independent_Chains
begin

text \<open>
  The chain that \<^verbatim>\<open>report-tail-waste.c\<close> and \<^verbatim>\<open>reclaim-tail-waste.c\<close> build for a journal: the header is read, then
  the header of the tail object, then a closure is dispatched with both.
\<close>

section \<open>The chain\<close>

datatype tail_phase =
    Reading_Header
  | Reading_Tail Header
  | Printing Header ObjectHeader
  | Printed

record tail_proc =
  tp_phase :: tail_phase
  tp_bufs :: journal

type_synonym 't final = "Header \<Rightarrow> ObjectHeader \<Rightarrow> journal \<Rightarrow> 't \<Rightarrow> 't res"

definition header_tail_step :: "host \<Rightarrow> 't final \<Rightarrow> (tail_proc, 't) chain" where
  "header_tail_step h final p s =
     (case tp_phase p of
        Reading_Header \<Rightarrow>
          res_map (\<lambda>(header, j). (\<lparr>tp_phase = Reading_Tail header, tp_bufs = j\<rparr>, s))
            (journal_get_header (read_chain h) (host_be h) (tp_bufs p))
      | Reading_Tail header \<Rightarrow>
          res_map (\<lambda>(oh, j). (\<lparr>tp_phase = Printing header oh, tp_bufs = j\<rparr>, s))
            (journal_get_object_header (read_chain h) (host_be h) (tail_object_offset header) (tp_bufs p))
      | Printing header oh \<Rightarrow>
          res_map (\<lambda>s'. (p\<lparr>tp_phase := Printed\<rparr>, s')) (final header oh (tp_bufs p) s)
      | Printed \<Rightarrow> Ok (p, s))"

definition tail_finished :: "tail_proc \<Rightarrow> bool" where
  "tail_finished p \<longleftrightarrow> tp_phase p = Printed"

definition tail_chain :: "journal \<Rightarrow> tail_proc" where
  "tail_chain j = \<lparr>tp_phase = Reading_Header, tp_bufs = j\<rparr>"

section \<open>One journal\<close>

lemma header_then_tail_identity:
  "header_then_tail (read_chain h) (host_be h) j = Ok ((header, oh), j') \<Longrightarrow> identity j' = identity j"
  by (auto simp: header_then_tail_def res_elims dest!: get_header_identity get_object_header_identity)

text \<open>The run of one such chain is the sequential composition of its parts.\<close>

lemma header_tail_alone:
  "(\<exists>x. run_ends (header_tail_step h final) tail_finished ([\<lparr>tp_phase = Reading_Header, tp_bufs = j\<rparr>], s) x \<and> r = res_map snd x) \<longleftrightarrow>
   res_bind (header_then_tail (read_chain h) (host_be h) j) (\<lambda>((header, oh), j'). final header oh j' s) = r"
proof -
  let ?run = "\<lambda>ph j s. run_ends (header_tail_step h final) tail_finished ([\<lparr>tp_phase = ph, tp_bufs = j\<rparr>], s)"
  have printed: "?run Printed j s x \<longleftrightarrow> x = Ok ([\<lparr>tp_phase = Printed, tp_bufs = j\<rparr>], s)" for j s x
    by (subst run_ends_one) (simp add: tail_finished_def)
  have printing: "?run (Printing header oh) j s x \<longleftrightarrow>
      x = res_map (\<lambda>s'. ([\<lparr>tp_phase = Printed, tp_bufs = j\<rparr>], s')) (final header oh j s)" for header oh j s x
    by (subst run_ends_one, cases "final header oh j s") (simp_all add: tail_finished_def header_tail_step_def printed)
  have reading: "?run (Reading_Tail header) j s x \<longleftrightarrow>
      (case journal_get_object_header (read_chain h) (host_be h) (tail_object_offset header) j of
         Fail e \<Rightarrow> x = Fail e
       | Ok (oh, j') \<Rightarrow> x = res_map (\<lambda>s'. ([\<lparr>tp_phase = Printed, tp_bufs = j'\<rparr>], s')) (final header oh j' s))" for header j s x
    by (subst run_ends_one, cases "journal_get_object_header (read_chain h) (host_be h) (tail_object_offset header) j")
      (auto simp: tail_finished_def header_tail_step_def printing)
  have whole: "?run Reading_Header j s x \<longleftrightarrow>
      (case journal_get_header (read_chain h) (host_be h) j of
         Fail e \<Rightarrow> x = Fail e | Ok (header, j') \<Rightarrow> ?run (Reading_Tail header) j' s x)" for x
    by (subst run_ends_one, cases "journal_get_header (read_chain h) (host_be h) j")
      (auto simp: tail_finished_def header_tail_step_def)
  have shown: "res_map snd (res_map (Pair ps) q) = q" for ps :: "tail_proc list" and q
    by (cases q) auto
  show ?thesis
  proof (cases "journal_get_header (read_chain h) (host_be h) j")
    case (Ok hj)
    obtain header j' where hj: "hj = (header, j')" by (cases hj)
    show ?thesis
      by (cases "journal_get_object_header (read_chain h) (host_be h) (tail_object_offset header) j'")
        (auto simp: whole reading header_then_tail_def Ok hj shown)
  qed (auto simp: whole header_then_tail_def)
qed

section \<open>Several journals\<close>

text \<open>A closure that reports, and does not look at what was reported before.\<close>

locale own_final =
  fixes final :: "'t final" and own :: "Header \<Rightarrow> ObjectHeader \<Rightarrow> journal \<Rightarrow> 'e res"
    and effect :: "'e \<Rightarrow> 't \<Rightarrow> 't" and good :: "'t \<Rightarrow> bool"
  assumes final_own: "good s \<Longrightarrow> final header oh j s = res_map (\<lambda>e. effect e s) (own header oh j)"
    and final_good: "good s \<Longrightarrow> own header oh j = Ok e \<Longrightarrow> good (effect e s)"
begin

definition own_step :: "host \<Rightarrow> tail_proc \<Rightarrow> (tail_proc \<times> 'e list) res" where
  "own_step h p = header_tail_step h (\<lambda>header oh j es. res_map (\<lambda>e. es @ [e]) (own header oh j)) p []"

end

sublocale own_final \<subseteq> chains: independent "header_tail_step h final" tail_finished "own_step h" effect "\<lambda>p. True" good for h
proof
  fix p and s :: 't
  assume "good s"
  then show "header_tail_step h final p s = res_map (\<lambda>(p', es). (p', fold effect es s)) (own_step h p)"
    by (cases "tp_phase p")
      (auto simp: own_step_def header_tail_step_def final_own res_map_map comp_def split: prod.split intro!: res_map_cong)
next
  fix p p' es and s :: 't
  assume "good s" "own_step h p = Ok (p', es)"
  then show "good (fold effect es s)"
    by (cases "tp_phase p") (auto simp: own_step_def header_tail_step_def res_map_Ok_iff dest: final_good)
qed simp

context own_final
begin

text \<open>Alone and in any company: a chain comes to the closure's end with the headers that are read.\<close>

lemma chain_reports:
  assumes "chain_ends (own_step h) tail_finished (tail_chain j) (Ok (q, es))"
  shows "\<exists>header oh j' e. header_then_tail (read_chain h) (host_be h) j = Ok ((header, oh), j') \<and>
    own header oh j' = Ok e \<and> es = [e]"
proof -
  let ?ends = "\<lambda>ph j. chain_ends (own_step h) tail_finished \<lparr>tp_phase = ph, tp_bufs = j\<rparr>"
  have printed: "?ends Printed j r \<longleftrightarrow> r = Ok (\<lparr>tp_phase = Printed, tp_bufs = j\<rparr>, [])" for j r
    by (subst chain_ends_one) (simp add: tail_finished_def)
  have printing: "?ends (Printing header oh) j (Ok (q, es)) \<Longrightarrow> \<exists>e. own header oh j = Ok e \<and> es = [e]" for header oh j es
    by (subst (asm) chain_ends_one, cases "own header oh j")
      (auto simp: tail_finished_def own_step_def header_tail_step_def printed)
  have reading: "?ends (Reading_Tail header) j (Ok (q, es)) \<Longrightarrow> \<exists>oh j'.
      journal_get_object_header (read_chain h) (host_be h) (tail_object_offset header) j = Ok (oh, j') \<and>
      ?ends (Printing header oh) j' (Ok (q, es))" for header j es
    by (subst (asm) chain_ends_one, cases "journal_get_object_header (read_chain h) (host_be h) (tail_object_offset header) j")
      (auto simp: tail_finished_def own_step_def header_tail_step_def)
  have "\<exists>header j'. journal_get_header (read_chain h) (host_be h) j = Ok (header, j') \<and>
      ?ends (Reading_Tail header) j' (Ok (q, es))"
    using assms unfolding tail_chain_def
    by (subst (asm) chain_ends_one, cases "journal_get_header (read_chain h) (host_be h) j")
      (auto simp: tail_finished_def own_step_def header_tail_step_def)
  then obtain header j1 oh j2 e where "journal_get_header (read_chain h) (host_be h) j = Ok (header, j1)"
    "journal_get_object_header (read_chain h) (host_be h) (tail_object_offset header) j1 = Ok (oh, j2)"
    "own header oh j2 = Ok e" "es = [e]"
    using reading printing by blast
  then show ?thesis by (auto simp: header_then_tail_def)
qed

end

end
