(* ===== verification/Tail_Waste_Schedule.thy ===== *)
theory Tail_Waste_Schedule
  imports Report_Tail_Waste Header_Tail_Chain
begin

text \<open>
  \<^verbatim>\<open>report-tail-waste.c\<close> over several journals as one run: each chain reads the header, then the header of
  the tail object, then prints its line and adds to the shared sums.
\<close>

section \<open>The chains of the report\<close>

definition tail_begin :: "(journal, tail_proc list \<times> string \<times> tail_waste) closure" where
  "tail_begin jr s = Ok (fst s @ [\<lparr>tp_phase = Reading_Header, tp_bufs = jr\<rparr>], snd s)"

definition tail_step :: "host \<Rightarrow> (journal \<Rightarrow> u64 option) \<Rightarrow> (tail_proc, string \<times> tail_waste) chain" where
  "tail_step h fstat = header_tail_step h (\<lambda>header oh j s.
     print_tail_waste \<lparr>ti_name = j_name j, ti_stat = fstat j, ti_header = header, ti_tail = oh\<rparr> s)"

definition tail_start :: "unit job list \<Rightarrow> string \<times> tail_waste \<Rightarrow> tail_proc list \<times> string \<times> tail_waste" where
  "tail_start jobs s = (map (\<lambda>b. \<lparr>tp_phase = Reading_Header, tp_bufs = jb_bufs b\<rparr>) jobs, s)"

lemma tail_begin_all: "dispatch_all tail_begin (map jb_bufs jobs) (ps, s) = Ok (ps @ fst (tail_start jobs s), s)"
  by (induction jobs arbitrary: ps) (simp_all add: tail_begin_def tail_start_def)

section \<open>Every chain adds its journal\<close>

definition job_info :: "unit job \<Rightarrow> tail_info" where
  "job_info b = \<lparr>ti_name = j_name (jb_bufs b), ti_stat = Some (jb_size b), ti_header = file_header (jb_content b),
     ti_tail = header_at (jb_content b) (tail_object_offset (file_header (jb_content b)))\<rparr>"

text \<open>A file with a whole header, a state that is one, and a tail object's header inside it.\<close>

definition tail_job_ok :: "host \<Rightarrow> (journal \<Rightarrow> u64 option) \<Rightarrow> unit job \<Rightarrow> bool" where
  "tail_job_ok h fstat b \<longleftrightarrow> served h (jb_content b) (jb_bufs b) (jb_bufs b) \<and>
     sizeof_Header \<le> length (jb_content b) \<and>
     unat (tail_object_offset (file_header (jb_content b))) + sizeof_ObjectHeader \<le> length (jb_content b) \<and>
     unat (h_state (file_header (jb_content b))) < STATE_MAX \<and>
     (\<forall>j. identity j = identity (jb_bufs b) \<longrightarrow> fstat j = Some (jb_size b))"

definition tail_pinv :: "host \<Rightarrow> (journal \<Rightarrow> u64 option) \<Rightarrow> unit job \<Rightarrow> tail_proc \<Rightarrow> bool \<Rightarrow> bool" where
  "tail_pinv h fstat b p l \<longleftrightarrow> tail_job_ok h fstat b \<and> served h (jb_content b) (jb_bufs b) (tp_bufs p) \<and>
     (l \<longleftrightarrow> tail_finished p) \<and>
     (case tp_phase p of
        Reading_Tail header \<Rightarrow> header = ti_header (job_info b)
      | Printing header oh \<Rightarrow> header = ti_header (job_info b) \<and> oh = ti_tail (job_info b)
      | _ \<Rightarrow> True)"

definition printed :: "(unit job \<times> bool) list \<Rightarrow> unit job list" where
  "printed gs = map fst (filter snd gs)"

definition tail_tinv :: "string \<times> tail_waste \<Rightarrow> (unit job \<times> bool) list \<Rightarrow> string \<times> tail_waste \<Rightarrow> bool" where
  "tail_tinv s0 gs s \<longleftrightarrow> (\<exists>order. mset order = mset (printed gs) \<and>
     adds_waste (map job_info order) (snd s0) (snd s) \<and>
     fst s = fst s0 @ concat (map (tail_waste_line \<circ> job_info) order))"

definition tail_left :: "tail_proc \<Rightarrow> bool \<Rightarrow> nat" where
  "tail_left p l = (case tp_phase p of Reading_Header \<Rightarrow> 3 | Reading_Tail _ \<Rightarrow> 2 | Printing _ _ \<Rightarrow> 1 | Printed \<Rightarrow> 0)"

lemma printed_step: "k < length gs \<Longrightarrow> gs ! k = (b, False) \<Longrightarrow> mset (printed (gs[k := (b, True)])) = add_mset b (mset (printed gs))"
proof (induction gs arbitrary: k)
  case (Cons g gs)
  then show ?case by (cases k) (auto simp: printed_def)
qed simp

lemma read_header_step:
  assumes "tail_pinv h fstat b p l" and "tp_phase p = Reading_Header"
  shows "\<exists>p'. tail_step h fstat p s = Ok (p', s) \<and> tail_pinv h fstat b p' l \<and> tail_left p' l < tail_left p l"
proof -
  have ok: "tail_job_ok h fstat b" and srv: "served h (jb_content b) (jb_bufs b) (tp_bufs p)" and l: "\<not> l"
    using assms by (simp_all add: tail_pinv_def tail_finished_def)
  obtain j where "journal_get_header (read_chain h) (host_be h) (tp_bufs p) = Ok (file_header (jb_content b), j)"
    "served h (jb_content b) (jb_bufs b) j"
    by (rule indexed.get_header [OF srv]) (use ok in \<open>auto simp: tail_job_ok_def\<close>)
  then show ?thesis
    using ok l assms(2) by (simp add: tail_step_def header_tail_step_def tail_pinv_def tail_finished_def tail_left_def job_info_def)
qed

lemma read_tail_step:
  assumes "tail_pinv h fstat b p l" and "tp_phase p = Reading_Tail header"
  shows "\<exists>p'. tail_step h fstat p s = Ok (p', s) \<and> tail_pinv h fstat b p' l \<and> tail_left p' l < tail_left p l"
proof -
  let ?c = "jb_content b"
  have ok: "tail_job_ok h fstat b" and srv: "served h ?c (jb_bufs b) (tp_bufs p)" and l: "\<not> l"
    and hd: "header = file_header ?c"
    using assms by (simp_all add: tail_pinv_def tail_finished_def job_info_def)
  let ?off = "tail_object_offset header"
  obtain j where "read_chain h (tp_bufs p) ?off 16 = Ok (segment (unat ?off) 16 ?c, j)" "served h ?c (jb_bufs b) j"
    by (rule indexed.rd_in_range [OF srv, of 16 ?off])
      (use ok hd in \<open>simp_all add: tail_job_ok_def sizeof_ObjectHeader_def max_rw_count_def\<close>)
  moreover have "length (segment (unat ?off) 16 ?c) = 16"
    using ok unfolding hd tail_job_ok_def sizeof_ObjectHeader_def length_segment by linarith
  ultimately have "journal_get_object_header (read_chain h) (host_be h) ?off (tp_bufs p) = Ok (header_at ?c ?off, j)"
    "served h ?c (jb_bufs b) j"
    using got_object_header_parse [of "segment (unat ?off) 16 ?c" "host_be h"]
    by (simp_all add: journal_get_object_header_def header_at_def sizeof_ObjectHeader_def)
  then show ?thesis
    using ok l hd assms(2) by (simp add: tail_step_def header_tail_step_def tail_pinv_def tail_finished_def tail_left_def job_info_def)
qed

lemma print_step:
  assumes "tail_pinv h fstat b p l" and "tp_phase p = Printing header oh" and "tail_waste_ok (snd s)"
  shows "\<exists>p'. tail_step h fstat p s = Ok (p', waste_effect (job_info b) s) \<and> tail_pinv h fstat b p' True \<and>
    tail_left p' True < tail_left p l"
proof -
  have ok: "tail_job_ok h fstat b" and srv: "served h (jb_content b) (jb_bufs b) (tp_bufs p)"
    and hd: "header = ti_header (job_info b)" "oh = ti_tail (job_info b)"
    using assms by (simp_all add: tail_pinv_def)
  have "identity (tp_bufs p) = identity (jb_bufs b)" using srv by (simp add: served_def)
  then have "fstat (tp_bufs p) = Some (jb_size b)" "j_name (tp_bufs p) = j_name (jb_bufs b)"
    using ok unfolding tail_job_ok_def by (blast, simp add: identity_def)
  then have info: "\<lparr>ti_name = j_name (tp_bufs p), ti_stat = fstat (tp_bufs p), ti_header = header, ti_tail = oh\<rparr> = job_info b"
    using hd by (simp add: job_info_def)
  have "tail_info_ok (job_info b)" using ok by (simp add: tail_info_ok_def job_info_def tail_job_ok_def)
  then have "print_tail_waste (job_info b) s = Ok (waste_effect (job_info b) s)"
    by (rule waste_closure.closure_ok [OF _ assms(3)])
  then show ?thesis
    using ok srv assms(2) by (simp add: tail_step_def header_tail_step_def info tail_pinv_def tail_finished_def tail_left_def)
qed

interpretation tail_run: scheduled "tail_step h fstat" tail_finished "tail_pinv h fstat" "tail_tinv s0" tail_left
    "\<lambda>b e. False" for h fstat s0
proof
  fix k and gs :: "(unit job \<times> bool) list" and b l p and s :: "string \<times> tail_waste"
  assume k: "k < length gs" "gs ! k = (b, l)" and inv: "tail_pinv h fstat b p l" and run: "\<not> tail_finished p"
    and t: "tail_tinv s0 gs s"
  have l: "\<not> l" using inv run by (simp add: tail_pinv_def)
  have same: "gs[k := (b, l)] = gs" using k(2) by (metis list_update_id)
  show "(\<exists>p' s' l'. tail_step h fstat p s = Ok (p', s') \<and> tail_pinv h fstat b p' l' \<and>
      tail_tinv s0 (gs[k := (b, l')]) s' \<and> tail_left p' l' < tail_left p l) \<or>
    (\<exists>e. tail_step h fstat p s = Fail e \<and> False)"
  proof (cases "tp_phase p")
    case Reading_Header
    from read_header_step [OF inv this, of s] t same show ?thesis by metis
  next
    case (Reading_Tail header)
    from read_tail_step [OF inv this, of s] t same show ?thesis by metis
  next
    case (Printing header oh)
    obtain order where order: "mset order = mset (printed gs)" "adds_waste (map job_info order) (snd s0) (snd s)"
      "fst s = fst s0 @ concat (map (tail_waste_line \<circ> job_info) order)"
      using t by (auto simp: tail_tinv_def)
    have ok: "tail_waste_ok (snd s)" using order(2) by (simp add: adds_waste_def)
    have "tail_info_ok (job_info b)" using inv by (simp add: tail_pinv_def tail_info_ok_def job_info_def tail_job_ok_def)
    then have "adds_waste (map job_info (order @ [b])) (snd s0) (snd (waste_effect (job_info b) s))"
      using adds_waste_append [OF order(2) adds_waste_effect [OF _ ok]] by simp
    moreover have "mset (order @ [b]) = mset (printed (gs[k := (b, True)]))"
      using printed_step [OF k(1)] k(2) l order(1) by simp
    moreover have "fst (waste_effect (job_info b) s) = fst s0 @ concat (map (tail_waste_line \<circ> job_info) (order @ [b]))"
      using order(3) by (simp add: waste_effect_def)
    ultimately have "tail_tinv s0 (gs[k := (b, True)]) (waste_effect (job_info b) s)"
      unfolding tail_tinv_def by blast
    with print_step [OF inv Printing ok] show ?thesis by blast
  qed (use run in \<open>simp add: tail_finished_def\<close>)
qed

lemma tail_start_inv:
  assumes "\<forall>b\<in>set jobs. tail_job_ok h fstat b" and "tail_waste_ok (snd s)"
  shows "tail_run.run_inv h fstat s (map (\<lambda>b. (b, False)) jobs) (tail_start jobs s)"
proof -
  have "tail_pinv h fstat b \<lparr>tp_phase = Reading_Header, tp_bufs = jb_bufs b\<rparr> False" if "b \<in> set jobs" for b
    using assms(1) that by (simp add: tail_pinv_def tail_finished_def tail_job_ok_def)
  moreover have "printed (map (\<lambda>b. (b, False)) jobs) = []" by (induction jobs) (simp_all add: printed_def)
  ultimately show ?thesis
    using assms(2) unfolding tail_run.run_inv_def
    by (simp add: tail_start_def list_all2_conv_all_nth tail_tinv_def adds_waste_Nil)
qed

text \<open>What every outcome of a run is.\<close>

lemma tail_waste_outcomes:
  assumes "\<forall>b\<in>set jobs. tail_job_ok h fstat b" and "tail_waste_ok (snd s)"
  shows "(\<exists>r. run_ends (tail_step h fstat) tail_finished (tail_start jobs s) r) \<and>
    (\<forall>r. run_ends (tail_step h fstat) tail_finished (tail_start jobs s) r \<longrightarrow>
      (\<exists>ps order tw. r = Ok (ps, fst s @ concat (map (tail_waste_line \<circ> job_info) order), tw) \<and>
        mset order = mset jobs \<and> adds_waste (map job_info order) (snd s) tw))"
proof -
  note start = tail_start_inv [OF assms]
  have "\<exists>ps order tw. r = Ok (ps, fst s @ concat (map (tail_waste_line \<circ> job_info) order), tw) \<and>
        mset order = mset jobs \<and> adds_waste (map job_info order) (snd s) tw"
    if run: "run_ends (tail_step h fstat) tail_finished (tail_start jobs s) r" for r
  proof -
    obtain ps t gs where r: "r = Ok (ps, t)" "tail_run.run_inv h fstat s gs (ps, t)" "map fst gs = jobs"
      "\<forall>p\<in>set ps. tail_finished p"
      using tail_run.outcomes [OF run start] by (auto simp: comp_def)
    have all: "list_all2 (\<lambda>g p. tail_pinv h fstat (fst g) p (snd g)) gs ps" and t: "tail_tinv s gs t"
      using r(2) unfolding tail_run.run_inv_def by simp_all
    have "snd g" if "g \<in> set gs" for g
      using all r(4) that by (fastforce simp: list_all2_conv_all_nth in_set_conv_nth tail_pinv_def)
    then have "printed gs = jobs" using r(3) by (simp add: printed_def filter_id_conv [THEN iffD2])
    then show ?thesis using r(1) t by (cases t) (auto simp: tail_tinv_def)
  qed
  then show ?thesis using tail_run.outcome_exists [OF start] by blast
qed

section \<open>An example\<close>

text \<open>Two copies of a journal of state 0 whose tail object ends at 344, in files of 350 and 400 bytes.\<close>

definition tail_job :: "nat \<Rightarrow> unit job" where
  "tail_job i = \<lparr>jb_content = sample_journal, jb_objs = [], jb_size = (if i = 0 then 350 else 400), jb_iter = zero_iter,
     jb_bufs = (link_bufs (calloc_journal ''a''))\<lparr>j_idx := i\<rparr>, jb_data = ()\<rparr>"

lemma tail_waste_outcomes_example:
  "\<exists>ps out tw. run_ends (tail_step (file_host False sample_journal) (\<lambda>j. Some (if j_idx j = 0 then 350 else 400)))
      tail_finished (tail_start [tail_job 0, tail_job 1] ([], zero_tail_waste)) (Ok (ps, out, tw)) \<and>
    waste_total tw = 62 \<and> per_state_counts tw ! 0 = 2"
proof -
  let ?fstat = "\<lambda>j. Some (if j_idx j = 0 then 350 else 400 :: u64)" and ?jobs = "[tail_job 0, tail_job 1]"
  have len: "length sample_journal < 2 ^ 63" by (simp add: length_sample_journal)
  have hd: "h_state (file_header sample_journal) = 0"
    by (simp add: file_header_def parse_header_def header_with_def sample_journal_def segment_def sizeof_Header_def
      nth_append)
  have ok: "tail_job_ok (file_host False sample_journal) ?fstat (tail_job i)" for i
    using len by (simp add: tail_job_ok_def tail_job_def file_host_served coherent_j_idx link_bufs_coherent hd
      length_sample_journal sizeof_Header_def sizeof_ObjectHeader_def sample_journal_header STATE_MAX_def identity_def)
  then have oks: "\<forall>b\<in>set ?jobs. tail_job_ok (file_host False sample_journal) ?fstat b" by simp
  have z: "tail_waste_ok (snd ([] :: string, zero_tail_waste))" by (simp add: tail_waste_ok_def zero_tail_waste_def)
  obtain ps order tw where run: "run_ends (tail_step (file_host False sample_journal) ?fstat) tail_finished
      (tail_start ?jobs ([], zero_tail_waste)) (Ok (ps, [] @ concat (map (tail_waste_line \<circ> job_info) order), tw))"
    and order: "mset order = mset ?jobs" and tw: "adds_waste (map job_info order) zero_tail_waste tw"
    using tail_waste_outcomes [OF oks z] by force
  have "order = ?jobs \<or> order = [tail_job 1, tail_job 0]"
    using order by (cases order; cases "tl order") (auto simp: add_eq_conv_ex)
  moreover have "waste_of (job_info (tail_job 0)) = 6" "waste_of (job_info (tail_job 1)) = 56"
    "state_of (job_info (tail_job i)) = 0" for i
    by (simp_all add: waste_of_def state_of_def size_of_def job_info_def tail_job_def hd tail_end_def sample_journal_header
      header_at_def) (simp_all add: sample_journal_def two_objects_def segment_def parse_object_header_def le64_at_def
      ALIGN64_def sizeof_ObjectHeader_def)
  ultimately have "waste_total tw = 62 \<and> per_state_counts tw ! 0 = 2"
    using tw by (auto simp: adds_waste_def zero_tail_waste_def STATE_MAX_def)
  then show ?thesis using run by blast
qed

end
