(* ===== verification/Single_Journal.thy ===== *)
theory Single_Journal
  imports Report_Schedule Layout_Schedule Entry_Array_Schedule Verify_Schedule Tail_Waste_Schedule
begin

text \<open>
  With one journal the transition system of \<open>Schedule\<close> and the loops of the \<open>per_journal\<close> definitions are two
  accounts of one thing: what the loop returns is what \<open>iou_run\<close> returns, and the loop does not return
  exactly when the run goes on for ever.  Nothing is assumed of the file or of the host.
\<close>

section \<open>One chain\<close>

text \<open>The machine of a journal alone, phase by phase.\<close>

lemma run_finished:
  "run_ends (chain_step reset act h) has_finished ([\<lparr>pr_phase = Finished, pr_iter = it, pr_bufs = j, pr_data = d\<rparr>], t) x \<longleftrightarrow>
     x = Ok ([\<lparr>pr_phase = Finished, pr_iter = it, pr_bufs = j, pr_data = d\<rparr>], t)"
  by (subst run_ends_one) (simp add: has_finished_def)

lemma run_dispatching:
  "run_ends (chain_step reset act h) has_finished
      ([\<lparr>pr_phase = Dispatching header, pr_iter = it, pr_bufs = j, pr_data = d\<rparr>], t) x \<longleftrightarrow>
     (case act header it j d t of
        Fail e \<Rightarrow> x = Fail e
      | Ok (j', d', t') \<Rightarrow>
          if it_offset it = 0 then x = Ok ([\<lparr>pr_phase = Finished, pr_iter = it, pr_bufs = j', pr_data = d'\<rparr>], t')
          else run_ends (chain_step reset act h) has_finished
            ([\<lparr>pr_phase = Stepping header, pr_iter = it, pr_bufs = j', pr_data = d'\<rparr>], t') x)"
  by (subst run_ends_one) (auto simp: has_finished_def chain_step_def run_finished split: res.split)

lemma run_stepping:
  "run_ends (chain_step reset act h) has_finished
      ([\<lparr>pr_phase = Stepping header, pr_iter = it, pr_bufs = j, pr_data = d\<rparr>], t) x \<longleftrightarrow>
     (case journal_iter_next_object (read_chain h) (host_be h) header it j of
        Fail e \<Rightarrow> x = Fail e
      | Ok (it', j') \<Rightarrow> run_ends (chain_step reset act h) has_finished
          ([\<lparr>pr_phase = Dispatching header, pr_iter = it', pr_bufs = j', pr_data = d\<rparr>], t) x)"
  by (subst run_ends_one) (auto simp: has_finished_def chain_step_def split: res.split)

lemma run_loading:
  "run_ends (chain_step reset act h) has_finished ([start_chain it d j], t) x \<longleftrightarrow>
     (case journal_get_header (read_chain h) (host_be h) j of
        Fail e \<Rightarrow> x = Fail e
      | Ok (header, j') \<Rightarrow> run_ends (chain_step reset act h) has_finished
          ([\<lparr>pr_phase = Stepping header, pr_iter = (if reset then it\<lparr>it_offset := 0\<rparr> else it), pr_bufs = j',
             pr_data = d\<rparr>], t) x)"
  by (subst run_ends_one) (auto simp: has_finished_def chain_step_def start_chain_def split: res.split)

text \<open>The end of the machine of a journal for the result of a loop.\<close>

definition ended_run :: "(iter \<times> journal \<times> 'p \<times> 't) res \<Rightarrow> ('p proc list \<times> 't) res" where
  "ended_run = res_map (\<lambda>(it, j, p, t). ([\<lparr>pr_phase = Finished, pr_iter = it, pr_bufs = j, pr_data = p\<rparr>], t))"

lemma ended_run_inject: "ended_run r = ended_run r' \<longleftrightarrow> r = r'"
  by (cases r; cases r') (auto simp: ended_run_def)

text \<open>What a run over one journal returns: the state of its thunk, and what the journals share.\<close>

definition alone_result :: "('p proc list \<times> 't) res \<Rightarrow> ('p \<times> 't) res" where
  "alone_result = res_map (\<lambda>(ps, t). (pr_data (hd ps), t))"

definition shown :: "(iter \<times> journal \<times> 'p \<times> 't) res \<Rightarrow> ('p \<times> 't) res" where
  "shown = res_map (\<lambda>(it, j, p, t). (p, t))"

lemma shown_simps [simp]: "shown (Ok (it, j, p, t)) = Ok (p, t)" "shown (Fail e) = Fail e"
  by (simp_all add: shown_def)

lemma alone_result_ended: "alone_result (ended_run r) = shown r"
  by (cases r) (auto simp: alone_result_def ended_run_def)

text \<open>
  The body of a loop that dispatches for \<open>it\<close>, then steps the iterator, and so on; and what a property of
  its results has to satisfy to hold of the least such loop.
\<close>

definition loop_body ::
  "('p, 't) act \<Rightarrow> host \<Rightarrow> Header \<Rightarrow> (iter \<Rightarrow> journal \<Rightarrow> 'p \<Rightarrow> 't \<Rightarrow> (iter \<times> journal \<times> 'p \<times> 't) res option)
     \<Rightarrow> iter \<Rightarrow> journal \<Rightarrow> 'p \<Rightarrow> 't \<Rightarrow> (iter \<times> journal \<times> 'p \<times> 't) res option" where
  "loop_body act h header loop it j p t =
     (case act header it j p t of
        Fail e \<Rightarrow> Some (Fail e)
      | Ok (j', p', t') \<Rightarrow>
          if it_offset it = 0 then Some (Ok (it, j', p', t'))
          else case journal_iter_next_object (read_chain h) (host_be h) header it j' of
                 Fail e \<Rightarrow> Some (Fail e)
               | Ok (it', j'') \<Rightarrow> loop it' j'' p' t')"

definition loop_law ::
  "('p, 't) act \<Rightarrow> host \<Rightarrow> Header \<Rightarrow> (iter \<Rightarrow> journal \<Rightarrow> 'p \<Rightarrow> 't \<Rightarrow> (iter \<times> journal \<times> 'p \<times> 't) res \<Rightarrow> bool) \<Rightarrow> bool" where
  "loop_law act h header Q \<longleftrightarrow> (\<forall>it j p t.
     case act header it j p t of
       Fail e \<Rightarrow> Q it j p t (Fail e)
     | Ok (j', p', t') \<Rightarrow>
         if it_offset it = 0 then Q it j p t (Ok (it, j', p', t'))
         else case journal_iter_next_object (read_chain h) (host_be h) header it j' of
                Fail e \<Rightarrow> Q it j p t (Fail e)
              | Ok (it', j'') \<Rightarrow> \<forall>r. Q it' j'' p' t' r \<longrightarrow> Q it j p t r)"

locale one_chain =
  fixes act :: "('p, 't) act" and h :: host
    and loop :: "Header \<Rightarrow> iter \<Rightarrow> journal \<Rightarrow> 'p \<Rightarrow> 't \<Rightarrow> (iter \<times> journal \<times> 'p \<times> 't) res option"
  assumes loop_eq: "loop header it j p t = loop_body act h header (loop header) it j p t"
    and loop_least: "loop_law act h header Q \<Longrightarrow> loop header it j p t = Some r \<Longrightarrow> Q it j p t r"
begin

lemma loop_runs:
  assumes "loop header it j p t = Some r"
  shows "run_ends (chain_step reset act h) has_finished
    ([\<lparr>pr_phase = Dispatching header, pr_iter = it, pr_bufs = j, pr_data = p\<rparr>], t) (ended_run r)"
proof (rule loop_least [OF _ assms])
  let ?Q = "\<lambda>it j p t r. run_ends (chain_step reset act h) has_finished
    ([\<lparr>pr_phase = Dispatching header, pr_iter = it, pr_bufs = j, pr_data = p\<rparr>], t) (ended_run r)"
  show "loop_law act h header ?Q"
    unfolding loop_law_def
  proof (intro allI)
    fix it :: iter and j p t
    show "case act header it j p t of
        Fail e \<Rightarrow> ?Q it j p t (Fail e)
      | Ok (j', p', t') \<Rightarrow>
          if it_offset it = 0 then ?Q it j p t (Ok (it, j', p', t'))
          else case journal_iter_next_object (read_chain h) (host_be h) header it j' of
              Fail e \<Rightarrow> ?Q it j p t (Fail e)
            | Ok (it', j'') \<Rightarrow> \<forall>r. ?Q it' j'' p' t' r \<longrightarrow> ?Q it j p t r"
      unfolding run_dispatching [where it = it and j = j and d = p and t = t]
      by (auto simp: run_stepping ended_run_def split: res.split)
  qed
qed

text \<open>What is left of the loop for a chain that has read its header.\<close>

definition rest :: "'p proc \<Rightarrow> 't \<Rightarrow> (iter \<times> journal \<times> 'p \<times> 't) res option" where
  "rest p t =
     (case pr_phase p of
        Dispatching header \<Rightarrow> loop header (pr_iter p) (pr_bufs p) (pr_data p) t
      | Stepping header \<Rightarrow>
          (case journal_iter_next_object (read_chain h) (host_be h) header (pr_iter p) (pr_bufs p) of
             Fail e \<Rightarrow> Some (Fail e)
           | Ok (it', j') \<Rightarrow> loop header it' j' (pr_data p) t)
      | _ \<Rightarrow> Some (Ok (pr_iter p, pr_bufs p, pr_data p, t)))"

lemma rest_step:
  assumes "\<not> has_finished p" and "pr_phase p \<noteq> Loading_Header"
  shows "case chain_step reset act h p t of
      Fail e \<Rightarrow> rest p t = Some (Fail e)
    | Ok (p', t') \<Rightarrow> rest p t = rest p' t' \<and> pr_phase p' \<noteq> Loading_Header"
  using assms
  by (cases "pr_phase p")
    (auto simp: chain_step_def rest_def has_finished_def loop_eq [of _ "pr_iter p" "pr_bufs p"] loop_body_def split: res.split)

lemma runs_loop:
  assumes "run_ends (chain_step reset act h) has_finished s x" and "s = ([p], t)" and "pr_phase p \<noteq> Loading_Header"
  shows "\<exists>r. x = ended_run r \<and> rest p t = Some r"
  using assms
proof (induction arbitrary: p t rule: run_ends.induct)
  case (all_ended ps t')
  then have "has_finished p" "ps = [p]" "t' = t" by auto
  then show ?case
    by (cases p) (auto simp: has_finished_def rest_def ended_run_def intro!: exI [of _ "Ok (pr_iter p, pr_bufs p, pr_data p, t)"])
next
  case (one_failed k ps t' e)
  then show ?case using rest_step [of p t reset] by (auto simp: less_Suc_eq ended_run_def)
next
  case (onward s s' x)
  then obtain p' t' where "\<not> has_finished p" "chain_step reset act h p t = Ok (p', t')" "s' = ([p'], t')"
    by (auto elim!: run_stepE simp: less_Suc_eq)
  then show ?case using onward rest_step [of p t reset] by auto
qed

lemma dispatching_iff:
  "run_ends (chain_step reset act h) has_finished
      ([\<lparr>pr_phase = Dispatching header, pr_iter = it, pr_bufs = j, pr_data = p\<rparr>], t) x \<longleftrightarrow>
    (\<exists>r. x = ended_run r \<and> loop header it j p t = Some r)"
  using loop_runs runs_loop [of reset _ x "\<lparr>pr_phase = Dispatching header, pr_iter = it, pr_bufs = j, pr_data = p\<rparr>" t]
  by (auto simp: rest_def)

definition whole :: "bool \<Rightarrow> iter \<Rightarrow> journal \<Rightarrow> 'p \<Rightarrow> 't \<Rightarrow> (iter \<times> journal \<times> 'p \<times> 't) res option" where
  "whole reset it j p t =
     (case journal_get_header (read_chain h) (host_be h) j of
        Fail e \<Rightarrow> Some (Fail e)
      | Ok (header, j') \<Rightarrow>
          (case journal_iter_next_object (read_chain h) (host_be h) header (if reset then it\<lparr>it_offset := 0\<rparr> else it) j' of
             Fail e \<Rightarrow> Some (Fail e)
           | Ok (it', j'') \<Rightarrow> loop header it' j'' p t))"

lemma chain_iff:
  "run_ends (chain_step reset act h) has_finished ([start_chain it p j], t) x \<longleftrightarrow>
    (\<exists>r. x = ended_run r \<and> whole reset it j p t = Some r)"
  unfolding run_loading run_stepping dispatching_iff whole_def
  by (auto simp: ended_run_def split: res.split)

lemma result_iff:
  "(\<exists>x. run_ends (chain_step reset act h) has_finished ([start_chain it p j], t) x \<and> r = f (alone_result x)) \<longleftrightarrow>
   map_option (\<lambda>w. f (shown w)) (whole reset it j p t) = Some r"
  unfolding chain_iff by (auto simp: alone_result_ended)

end

section \<open>Closures that \<open>journal_iter_objects\<close> dispatches\<close>

text \<open>\<open>get\<close> is the state of the closure in that of the chain and in the shared one, \<open>put\<close> what it leaves there.\<close>

locale closure_chain =
  fixes closure :: "(iter, 's) closure" and get :: "'p \<Rightarrow> 't \<Rightarrow> 's" and put :: "'s \<Rightarrow> 't \<Rightarrow> 'p \<times> 't" and h :: host
  assumes get_put: "put s t = (p', t') \<Longrightarrow> get p' t' = s"
    and put_put: "put s t = (p', t') \<Longrightarrow> put s' t' = put s' t"
begin

definition act_of :: "('p, 't) act" where
  "act_of header it j p t = res_map (\<lambda>s'. (j, put s' t)) (closure it (get p t))"

definition into :: "'t \<Rightarrow> (iter \<times> journal \<times> 's) res \<Rightarrow> (iter \<times> journal \<times> 'p \<times> 't) res" where
  "into t = res_map (\<lambda>(it', j', s'). (it', j', put s' t))"

lemma into_simps [simp]: "into t (Ok (it', j', s')) = Ok (it', j', put s' t)" "into t (Fail e) = Fail e"
  by (simp_all add: into_def)

definition loop_of :: "Header \<Rightarrow> iter \<Rightarrow> journal \<Rightarrow> 'p \<Rightarrow> 't \<Rightarrow> (iter \<times> journal \<times> 'p \<times> 't) res option" where
  "loop_of header it j p t =
     map_option (into t) (journal_iter_objects_dispatch (read_chain h) (host_be h) header closure it j (get p t))"

lemma loop_of_least:
  assumes "journal_iter_objects_dispatch (read_chain h) (host_be h) header closure it j s = Some r"
    and law: "loop_law act_of h header Q"
  shows "\<forall>p t. get p t = s \<longrightarrow> Q it j p t (into t r)"
proof -
  have "read_chain h = read_chain h \<and> host_be h = host_be h \<and> header = header \<and> closure = closure \<longrightarrow> ?thesis"
  proof (rule journal_iter_objects_dispatch.raw_induct [OF _ assms(1), where P =
        "\<lambda>rd be hd cl it j s r. rd = read_chain h \<and> be = host_be h \<and> hd = header \<and> cl = closure \<longrightarrow>
           (\<forall>p t. get p t = s \<longrightarrow> Q it j p t (into t r))"])
    fix loop rd be hd cl it j s r
    assume IH: "\<And>rd be hd cl it j s r. loop rd be hd cl it j s = Some r \<Longrightarrow>
        rd = read_chain h \<and> be = host_be h \<and> hd = header \<and> cl = closure \<longrightarrow>
          (\<forall>p t. get p t = s \<longrightarrow> Q it j p t (into t r))"
      and body: "(case cl it s of Fail e \<Rightarrow> Some (Fail e)
        | Ok s' \<Rightarrow> if it_offset it = 0 then Some (Ok (it, j, s'))
            else case journal_iter_next_object rd be hd it j of Fail e \<Rightarrow> Some (Fail e)
              | Ok (it', j') \<Rightarrow> loop rd be hd cl it' j' s') = Some r"
    show "rd = read_chain h \<and> be = host_be h \<and> hd = header \<and> cl = closure \<longrightarrow>
        (\<forall>p t. get p t = s \<longrightarrow> Q it j p t (into t r))"
    proof (intro impI allI, elim conjE)
      fix p t
      assume eqs: "rd = read_chain h" "be = host_be h" "hd = header" "cl = closure" and s: "get p t = s"
      note law = law [unfolded loop_law_def act_of_def, THEN spec [of _ it], THEN spec [of _ j], THEN spec [of _ p], THEN spec [of _ t], unfolded s]
      show "Q it j p t (into t r)"
      proof (cases "closure it s")
        case (Ok s')
        obtain p' t' where put: "put s' t = (p', t')" by (cases "put s' t")
        then have into: "into t' = into t" by (simp add: into_def put_put [OF put])
        show ?thesis
          using law body Ok put IH [of "read_chain h" "host_be h" header closure _ _ s' r] get_put [OF put]
          by (auto simp: eqs into [symmetric] put_put [OF put] split: if_splits res.splits)
      qed (use law body eqs in auto)
    qed
  qed
  then show ?thesis by simp
qed

lemma loop_of_law:
  assumes "loop_law act_of h header Q" and "loop_of header it j p t = Some r"
  shows "Q it j p t r"
  using assms(2) loop_of_least [OF _ assms(1), of it j "get p t"] by (auto simp: loop_of_def)

lemma loop_of_eq: "loop_of header it j p t = loop_body act_of h header (loop_of header) it j p t"
proof (cases "closure it (get p t)")
  case (Ok s')
  obtain p' t' where put: "put s' t = (p', t')" by (cases "put s' t")
  then have "into t' = into t" by (simp add: into_def put_put [OF put])
  then show ?thesis
    using Ok put get_put [OF put]
    by (auto simp: loop_body_def loop_of_def act_of_def journal_iter_objects_dispatch.simps [of _ _ _ _ it] split: res.split)
qed (simp add: loop_body_def loop_of_def act_of_def journal_iter_objects_dispatch.simps)

end

sublocale closure_chain \<subseteq> alone: one_chain act_of h loop_of
  by unfold_locales (rule loop_of_eq, rule loop_of_law)

context closure_chain
begin

lemma whole_objects:
  "alone.whole True it j p t = map_option (into t) (header_then_objects (read_chain h) (host_be h) closure it j (get p t))"
  by (auto simp: alone.whole_def header_then_objects_def journal_iter_objects_def loop_of_def split: res.split)

lemma objects_result:
  "(\<exists>x. run_ends (chain_step True act_of h) has_finished ([start_chain it p j], t) x \<and> r = f (alone_result x)) \<longleftrightarrow>
   map_option (\<lambda>w. f (res_map (\<lambda>(it', j', s'). put s' t) w))
     (header_then_objects (read_chain h) (host_be h) closure it j (get p t)) = Some r"
proof -
  have "shown (into t w) = res_map (\<lambda>(it', j', s'). put s' t) w" for w
    by (cases w) (auto simp: shown_def into_def split: prod.split)
  then show ?thesis by (simp add: alone.result_iff whole_objects option.map_comp comp_def)
qed

end

section \<open>Thunks that step the iterator themselves\<close>

text \<open>What every step and every read of a loop keeps holds of the journal that it returns.\<close>

lemma object_loop_kept:
  assumes "object_loop rd be header step it j p = Some (Ok (it', j', p'))" and "Q j"
    and step: "\<And>it j p j' p'. Q j \<Longrightarrow> step it j p = Ok (j', p') \<Longrightarrow> Q j'"
    and nxt: "\<And>it j it' j'. Q j \<Longrightarrow> journal_iter_next_object rd be header it j = Ok (it', j') \<Longrightarrow> Q j'"
  shows "Q j'"
proof -
  let ?P = "\<lambda>rd' be' hd st it j p r. rd' = rd \<longrightarrow> be' = be \<longrightarrow> hd = header \<longrightarrow> st = step \<longrightarrow> Q j \<longrightarrow>
    (\<forall>it' j' p'. r = Ok (it', j', p') \<longrightarrow> Q j')"
  have "?P rd be header step it j p (Ok (it', j', p'))"
  proof (rule object_loop.raw_induct [OF _ assms(1), where P = ?P])
    fix loop rd' be' hd st it j p r
    assume IH: "\<And>rd' be' hd st it j p r. loop rd' be' hd st it j p = Some r \<Longrightarrow> ?P rd' be' hd st it j p r"
      and body: "(if it_offset it = 0 then Some (Ok (it, j, p))
        else case st it j p of Fail e \<Rightarrow> Some (Fail e)
          | Ok (j', s') \<Rightarrow> (case journal_iter_next_object rd' be' hd it j' of Fail e \<Rightarrow> Some (Fail e)
              | Ok (it', j'') \<Rightarrow> loop rd' be' hd st it' j'' s')) = Some r"
    show "?P rd' be' hd st it j p r"
    proof (intro impI allI)
      fix it' j' p'
      assume eqs: "rd' = rd" "be' = be" "hd = header" "st = step" "Q j" "r = Ok (it', j', p')"
      show "Q j'"
      proof (cases "it_offset it = 0")
        case False
        then obtain k1 s1 it1 k2 where moved: "step it j p = Ok (k1, s1)"
          "journal_iter_next_object rd be header it k1 = Ok (it1, k2)" "loop rd be header step it1 k2 s1 = Some r"
          using body eqs by (auto split: res.splits)
        show ?thesis using IH [OF moved(3)] nxt [OF step [OF eqs(5) moved(1)] moved(2)] eqs(6) by simp
      qed (use body eqs in simp)
    qed
  qed
  then show ?thesis using assms(2) by simp
qed

locale stepping_chain =
  fixes step :: "Header \<Rightarrow> (journal, 'p) object_step" and ending :: "journal \<Rightarrow> 'p \<Rightarrow> 't \<Rightarrow> 't res" and h :: host
  assumes step_identity: "step header it j p = Ok (j', p') \<Longrightarrow> identity j' = identity j"
    and ending_identity: "identity j' = identity j \<Longrightarrow> ending j' p t = ending j p t"
begin

definition act_of :: "('p, 't) act" where
  "act_of header it j p t =
     (if it_offset it = 0 then res_map (\<lambda>t'. (j, p, t')) (ending j p t)
      else res_map (\<lambda>(j', p'). (j', p', t)) (step header it j p))"

definition then_end :: "'t \<Rightarrow> (iter \<times> journal \<times> 'p) res \<Rightarrow> (iter \<times> journal \<times> 'p \<times> 't) res" where
  "then_end t r = res_bind r (\<lambda>(it, j, p). res_map (\<lambda>t'. (it, j, p, t')) (ending j p t))"

definition loop_of :: "Header \<Rightarrow> iter \<Rightarrow> journal \<Rightarrow> 'p \<Rightarrow> 't \<Rightarrow> (iter \<times> journal \<times> 'p \<times> 't) res option" where
  "loop_of header it j p t = map_option (then_end t) (object_loop (read_chain h) (host_be h) header (step header) it j p)"

lemma loop_of_eq: "loop_of header it j p t = loop_body act_of h header (loop_of header) it j p t"
proof (cases "it_offset it = 0")
  case True
  then show ?thesis
    by (cases "ending j p t") (auto simp: loop_of_def then_end_def loop_body_def act_of_def object_loop.simps)
next
  case False
  then show ?thesis
    by (auto simp: loop_of_def then_end_def loop_body_def act_of_def object_loop.simps [of _ _ _ _ it] split: res.split)
qed

lemma object_loop_least:
  assumes "object_loop (read_chain h) (host_be h) header (step header) it j p = Some r"
    and law: "loop_law act_of h header Q"
  shows "Q it j p t (then_end t r)"
proof -
  let ?P = "\<lambda>rd be hd st it j p r. rd = read_chain h \<and> be = host_be h \<and> hd = header \<and> st = step header \<longrightarrow>
    Q it j p t (then_end t r)"
  have "?P (read_chain h) (host_be h) header (step header) it j p r"
  proof (rule object_loop.raw_induct [OF _ assms(1), where P = ?P])
    fix loop rd be hd st it j p r
    assume IH: "\<And>rd be hd st it j p r. loop rd be hd st it j p = Some r \<Longrightarrow> ?P rd be hd st it j p r"
      and body: "(if it_offset it = 0 then Some (Ok (it, j, p))
        else case st it j p of Fail e \<Rightarrow> Some (Fail e)
          | Ok (j', s') \<Rightarrow> (case journal_iter_next_object rd be hd it j' of Fail e \<Rightarrow> Some (Fail e)
              | Ok (it', j'') \<Rightarrow> loop rd be hd st it' j'' s')) = Some r"
    note law = law [unfolded loop_law_def act_of_def, THEN spec [of _ it], THEN spec [of _ j], THEN spec [of _ p],
        THEN spec [of _ t]]
    show "?P rd be hd st it j p r"
    proof (cases "it_offset it = 0")
      case True
      then show ?thesis using law body by (cases "ending j p t") (auto simp: then_end_def)
    next
      case False
      then show ?thesis
        using law body IH [of "read_chain h" "host_be h" header "step header" _ _ _ r]
        by (auto simp: then_end_def split: res.splits)
    qed
  qed
  then show ?thesis by simp
qed

lemma loop_of_law:
  assumes "loop_law act_of h header Q" and "loop_of header it j p t = Some r"
  shows "Q it j p t r"
  using assms(2) object_loop_least [OF _ assms(1), of it j p] by (auto simp: loop_of_def)

end

sublocale stepping_chain \<subseteq> alone: one_chain act_of h loop_of
  by unfold_locales (rule loop_of_eq, rule loop_of_law)

context stepping_chain
begin

lemma object_loop_identity:
  "object_loop (read_chain h) (host_be h) header (step header) it j p = Some (Ok (it', j', p')) \<Longrightarrow> identity j' = identity j"
  using object_loop_kept [where Q = "\<lambda>k. identity k = identity j" and j = j, OF _ refl] step_identity next_object_identity
  by metis

lemma whole_loop:
  "alone.whole False it j p t =
     map_option (\<lambda>r. res_bind r (\<lambda>(it', j', p'). res_map (\<lambda>t'. (it', j', p', t')) (ending j p' t)))
       (header_then_loop (read_chain h) (host_be h) step it j p)"
proof (cases "journal_get_header (read_chain h) (host_be h) j")
  case header: (Ok hj)
  obtain header j1 where hj: "hj = (header, j1)" by (cases hj)
  have 1: "identity j1 = identity j" using get_header_identity header hj by simp
  show ?thesis
  proof (cases "journal_iter_next_object (read_chain h) (host_be h) header it j1")
    case (Ok ij)
    obtain it2 j2 where ij: "ij = (it2, j2)" by (cases ij)
    have 2: "identity j2 = identity j" using next_object_identity Ok ij 1 by simp
    let ?loop = "object_loop (read_chain h) (host_be h) header (step header) it2 j2 p"
    have "map_option (then_end t) ?loop =
        map_option (\<lambda>r. res_bind r (\<lambda>(it', j', p'). res_map (\<lambda>t'. (it', j', p', t')) (ending j p' t))) ?loop"
    proof (cases ?loop)
      case (Some r)
      show ?thesis
      proof (cases r)
        case (Ok x)
        obtain it' j' p' where x: "x = (it', j', p')" by (cases x)
        have "identity j' = identity j" using object_loop_identity [of header it2 j2 p it' j' p'] Some Ok x 2 by simp
        from ending_identity [OF this] show ?thesis using Some Ok x by (simp add: then_end_def)
      qed (use Some in \<open>simp add: then_end_def\<close>)
    qed simp
    then show ?thesis
      using header hj Ok ij by (simp add: alone.whole_def header_then_loop_def loop_of_def)
  qed (use header hj in \<open>simp add: alone.whole_def header_then_loop_def\<close>)
qed (simp add: alone.whole_def header_then_loop_def)

lemma loop_result:
  "(\<exists>x. run_ends (chain_step False act_of h) has_finished ([start_chain it p j], t) x \<and> r = f (alone_result x)) \<longleftrightarrow>
   map_option (\<lambda>w. f (res_bind w (\<lambda>(it', j', p'). res_map (Pair p') (ending j p' t))))
     (header_then_loop (read_chain h) (host_be h) step it j p) = Some r"
proof -
  have "shown (res_bind w (\<lambda>(it', j', p'). res_map (\<lambda>t'. (it', j', p', t')) (ending j p' t))) =
      res_bind w (\<lambda>(it', j', p'). res_map (Pair p') (ending j p' t))" for w
  proof (cases w)
    case (Ok x)
    then show ?thesis by (cases "ending j (snd (snd x)) t") (auto simp: shown_def split: prod.splits)
  qed simp
  then show ?thesis by (simp add: alone.result_iff whole_loop option.map_comp comp_def)
qed

end

section \<open>The subcommands\<close>

interpretation usage_alone: closure_chain usage_per_data_object "\<lambda>u t :: usage \<times> u32. (u, fst t)"
  "\<lambda>s t. (fst s, snd s, snd t)" h for h
  by unfold_locales auto

lemma usage_act_of: "usage_alone.act_of = usage_act"
  by (auto simp: fun_eq_iff usage_alone.act_of_def usage_act_def intro!: arg_cong2 [where f = res_map])

lemma usage_alone:
  "usage_per_journal (read_chain h) (host_be h) (Some (jb_size b)) (jb_iter b) (jb_data b) (jb_bufs b) t = Some r \<longleftrightarrow>
   (\<exists>x. run_ends (usage_step h) has_finished (usage_start [b] t) x \<and> r = alone_result x)"
proof -
  have "res_map (\<lambda>(_, _, s'). (fst s', snd s', n)) w = res_map (\<lambda>(_, _, u', tot). (u', tot, n)) w"
    for w :: "(iter \<times> journal \<times> usage \<times> usage) res" and n :: u32
    by (cases w) auto
  then show ?thesis
    using usage_alone.objects_result [where f = "\<lambda>x. x" and p = "usage_init b" and t = "sized_totals [b] t" and r = r]
    by (simp add: usage_per_journal_def usage_step_def usage_start_def usage_act_of begin_chain_def usage_init_def
      sized_totals_def)
qed

interpretation layout_alone: closure_chain layout_per_data_object "\<lambda>out (t :: unit). out" Pair h for h
  by unfold_locales auto

lemma layout_act_of: "layout_alone.act_of = layout_act"
  by (auto simp: fun_eq_iff layout_alone.act_of_def layout_act_def)

lemma layout_alone:
  "layout_per_journal (read_chain h) (host_be h) True None (j_name (jb_bufs b)) (jb_iter b) (jb_bufs b) = Some r \<longleftrightarrow>
   (\<exists>x. run_ends (layout_step h) has_finished (layout_start [b]) x \<and> r = res_map fst (alone_result x))"
proof -
  have "res_map fst (res_map (\<lambda>(it, j, out). (out, ())) w) = res_map (\<lambda>(it, j, out). out) w"
    for w :: "(iter \<times> journal \<times> out_file) res"
    by (cases w) auto
  then show ?thesis
    using layout_alone.objects_result [where f = "res_map fst" and p = "layout_init b" and t = "()" and r = r]
    by (simp add: layout_per_journal_def layout_step_def layout_start_def layout_act_of begin_chain_def layout_init_def)
qed

interpretation ea_alone: stepping_chain "\<lambda>header. entry_array_step sha1 allocs (read_chain h)"
  "\<lambda>j p s. res_map snd (entry_arrays_end (j_name j) p s)" h for sha1 allocs h
  by unfold_locales (auto simp: entry_array_step_def Let_def res_elims identity_def split: if_splits dest!: read_identity)

lemma ea_act_of: "ea_alone.act_of sha1 allocs h = entry_arrays_act sha1 allocs h"
proof (intro ext)
  fix header it j p s
  show "ea_alone.act_of sha1 allocs h header it j p s = entry_arrays_act sha1 allocs h header it j p s"
    by (cases "entry_arrays_end (j_name j) p s") (auto simp: ea_alone.act_of_def entry_arrays_act_def)
qed

lemma entry_arrays_alone:
  "map_option (res_map snd) (entry_arrays_per_journal sha1 allocs (read_chain h) (host_be h) (j_name (jb_bufs b))
      (jb_iter b) (jb_data b) (jb_bufs b) s) = Some r \<longleftrightarrow>
   (\<exists>x. run_ends (ea_chain_step sha1 allocs h) has_finished (entry_arrays_start [b] s) x \<and> r = res_map snd (alone_result x))"
proof -
  have "res_map snd (res_bind w (\<lambda>(it, j, p). res_map (Pair p) (res_map snd (entry_arrays_end name p s)))) =
      res_map snd (res_bind w (\<lambda>(_, _, p). entry_arrays_end name p s))" for w :: "(iter \<times> journal \<times> profile) res" and name
  proof (cases w)
    case (Ok x)
    then show ?thesis by (cases "entry_arrays_end name (snd (snd x)) s") (auto split: prod.splits)
  qed simp
  then show ?thesis
    using ea_alone.loop_result [where f = "res_map snd" and t = s and r = r and p = "jb_data b"]
    by (simp add: entry_arrays_per_journal_def ea_chain_step_def entry_arrays_start_def ea_act_of begin_chain_def
      option.map_comp comp_def)
qed

text \<open>The verification reads objects as the host does.\<close>

definition env_at :: "verify_env \<Rightarrow> host \<Rightarrow> verify_env" where
  "env_at env h = env\<lparr>ve_be := host_be h\<rparr>"

interpretation verify_alone: stepping_chain "verify_step env (read_chain h)"
  "\<lambda>j s out. res_map ((@) out) (verify_end (j_name j) (vs_stats s))" h for env h
  by unfold_locales (auto simp: verify_step_def Let_def res_elims identity_def split: if_splits dest!: get_object_identity)

lemma verify_act_of: "verify_alone.act_of env h = verify_dispatch env h"
proof (intro ext)
  fix header it j s out
  show "verify_alone.act_of env h header it j s out = verify_dispatch env h header it j s out"
    by (cases "verify_end (j_name j) (vs_stats s)") (auto simp: verify_alone.act_of_def verify_dispatch_def)
qed

lemma verify_alone:
  "map_option (res_map (\<lambda>(stats, line). (stats, out @ line))) (verify_per_journal (env_at env h) (read_chain h)
      (j_name (jb_bufs b)) (jb_iter b) (fst (jb_data b)) (snd (jb_data b)) (jb_bufs b)) = Some r \<longleftrightarrow>
   (\<exists>x. run_ends (verify_chain_step (env_at env h) h) has_finished (verify_start [b] out) x \<and>
      r = res_map (\<lambda>(s, out'). (vs_stats s, out')) (alone_result x))"
proof -
  let ?f = "\<lambda>r. res_map (\<lambda>(s, out'). (vs_stats s, out')) r"
  have "?f (res_bind w (\<lambda>(it, j, s). res_map (Pair s) (res_map ((@) out) (verify_end name (vs_stats s))))) =
      res_map (\<lambda>(stats, line). (stats, out @ line))
        (res_bind w (\<lambda>(_, _, s). res_map (Pair (vs_stats s)) (verify_end name (vs_stats s))))"
    for w :: "(iter \<times> journal \<times> verify_state) res" and name
  proof (cases w)
    case (Ok x)
    then show ?thesis by (cases "verify_end name (vs_stats (snd (snd x)))") (auto split: prod.splits)
  qed simp
  then show ?thesis
    using verify_alone.loop_result [where f = ?f and t = out and r = r and p = "verify_init b" and env = "env_at env h"]
    by (simp add: verify_per_journal_def verify_chain_step_def verify_start_def verify_act_of begin_chain_def
      verify_init_def verify_fresh_def env_at_def option.map_comp comp_def)
qed

text \<open>The chain of the tail waste has no loop.\<close>

lemma tail_waste_alone:
  "tail_waste_per_journal (read_chain h) (host_be h) (j_name (jb_bufs b)) (fstat (j_fd (jb_bufs b))) (jb_bufs b) s = r \<longleftrightarrow>
   (\<exists>x. run_ends (tail_step h (\<lambda>j. fstat (j_fd j))) tail_finished (tail_start [b] s) x \<and> r = res_map snd x)"
proof -
  have "res_bind (header_then_tail (read_chain h) (host_be h) (jb_bufs b)) (\<lambda>((header, oh), j').
      print_tail_waste \<lparr>ti_name = j_name j', ti_stat = fstat (j_fd j'), ti_header = header, ti_tail = oh\<rparr> s) =
    tail_waste_per_journal (read_chain h) (host_be h) (j_name (jb_bufs b)) (fstat (j_fd (jb_bufs b))) (jb_bufs b) s"
    unfolding tail_waste_per_journal_def
    by (rule res_bind_cong) (auto dest!: header_then_tail_identity simp: identity_def)
  then show ?thesis
    using header_tail_alone [of h "\<lambda>header oh j. print_tail_waste \<lparr>ti_name = j_name j, ti_stat = fstat (j_fd j),
        ti_header = header, ti_tail = oh\<rparr>" "jb_bufs b" s r]
    by (simp add: tail_step_def tail_start_def)
qed

section \<open>One journal: the run and the loops\<close>

text \<open>For a run over one journal, whatever its file and the host: what the machine of chains of a
  subcommand returns is exactly what the sequential \<open>per_journal\<close> of that subcommand returns, success or
  failure; there is an outcome exactly where the loop of \<open>per_journal\<close> ends.\<close>

lemma single_journal_runs:
  "(usage_per_journal (read_chain h) (host_be h) (Some (jb_size ub)) (jb_iter ub) (jb_data ub) (jb_bufs ub) ut = Some ur \<longleftrightarrow>
     (\<exists>x. run_ends (usage_step h) has_finished (usage_start [ub] ut) x \<and> ur = alone_result x)) \<and>
   (layout_per_journal (read_chain h) (host_be h) True None (j_name (jb_bufs lb)) (jb_iter lb) (jb_bufs lb) = Some lr \<longleftrightarrow>
     (\<exists>x. run_ends (layout_step h) has_finished (layout_start [lb]) x \<and> lr = res_map fst (alone_result x))) \<and>
   (map_option (res_map snd) (entry_arrays_per_journal sha1 allocs (read_chain h) (host_be h) (j_name (jb_bufs eb))
        (jb_iter eb) (jb_data eb) (jb_bufs eb) es) = Some er \<longleftrightarrow>
     (\<exists>x. run_ends (ea_chain_step sha1 allocs h) has_finished (entry_arrays_start [eb] es) x \<and>
        er = res_map snd (alone_result x))) \<and>
   (map_option (res_map (\<lambda>(stats, line). (stats, out @ line))) (verify_per_journal (env_at env h) (read_chain h)
        (j_name (jb_bufs vb)) (jb_iter vb) (fst (jb_data vb)) (snd (jb_data vb)) (jb_bufs vb)) = Some vr \<longleftrightarrow>
     (\<exists>x. run_ends (verify_chain_step (env_at env h) h) has_finished (verify_start [vb] out) x \<and>
        vr = res_map (\<lambda>(s, out'). (vs_stats s, out')) (alone_result x))) \<and>
   (tail_waste_per_journal (read_chain h) (host_be h) (j_name (jb_bufs tb)) (fstat (j_fd (jb_bufs tb))) (jb_bufs tb) ts = tr \<longleftrightarrow>
     (\<exists>x. run_ends (tail_step h (\<lambda>j. fstat (j_fd j))) tail_finished (tail_start [tb] ts) x \<and> tr = res_map snd x))"
  by (intro conjI usage_alone layout_alone entry_arrays_alone verify_alone tail_waste_alone)

end
