(* ===== verification/Run_Outcomes.thy ===== *)
theory Run_Outcomes
  imports Independent_Chains Single_Journal
begin

text \<open>
  Which failure ends a run, over journals of any content, and what a run that does not fail leaves: the chains of every subcommand are
  independent, so a run can end with a failure exactly if one of its journals has it alone, can
  succeed exactly if all of them do, and then leaves what the journals leave when they are processed one after the other.
\<close>

section \<open>The usage report\<close>

definition usage_own_act :: "Header \<Rightarrow> iter \<Rightarrow> journal \<Rightarrow> usage \<Rightarrow> (journal \<times> usage \<times> ObjectHeader list) res" where
  "usage_own_act header it j u = res_map (\<lambda>u'. (j, u', [it_header it])) (count_object (it_header it) u)"

definition count_total :: "ObjectHeader \<Rightarrow> usage \<times> u32 \<Rightarrow> usage \<times> u32" where
  "count_total oh t = (counted oh (fst t), snd t)"

lemma count_object_cases:
  assumes "usage_ok u"
  shows "count_object oh u = (if unat (o_type oh) < OBJECT_TYPE_MAX then Ok (counted oh u) else Fail OutOfBounds)"
  using assms count_object_ok [of oh u] by (auto simp: count_object_def usage_ok_def arr_upd_def)

interpretation usage_own: own_dispatch usage_act usage_own_act count_total usage_ok "\<lambda>t. usage_ok (fst t)"
proof
  fix d and t :: "usage \<times> u32" and header it j
  assume ok: "usage_ok d" "usage_ok (fst t)"
  show "usage_act header it j d t = res_map (\<lambda>(j', d', es). (j', d', fold count_total es t)) (usage_own_act header it j d)"
    using ok by (simp add: usage_act_def usage_own_act_def usage_per_data_object_def count_object_cases count_total_def)
qed (auto simp: usage_own_act_def count_object_cases count_total_def res_map_Ok_iff split: if_splits)

text \<open>What the sequential \<open>per_journal\<close> gives, with the result of \<open>fstat\<close> on the journal's descriptor.\<close>

definition usage_of ::
  "host \<Rightarrow> (int \<Rightarrow> u64 option) \<Rightarrow> usage \<times> u32 \<Rightarrow> usage job \<Rightarrow> (usage \<times> usage \<times> u32) res option" where
  "usage_of h fstat t b =
     usage_per_journal (read_chain h) (host_be h) (fstat (j_fd (jb_bufs b))) (jb_iter b) (jb_data b) (jb_bufs b) t"

text \<open>The totals count objects and file sizes in any order.\<close>

definition sized :: "usage job \<Rightarrow> usage \<times> u32 \<Rightarrow> usage \<times> u32" where
  "sized b t = sized_totals [b] t"

lemma sized_totals_fold: "sized_totals jobs t = fold sized jobs t"
proof (induction jobs arbitrary: t)
  case (Cons b jobs)
  have "sized_totals (b # jobs) t = sized_totals jobs (sized b t)"
    by (simp add: sized_totals_def sized_def add.assoc add.commute)
  then show ?case using Cons.IH by simp
qed (simp add: sized_totals_def)

lemma count_total_commutes: "count_total a \<circ> count_total b = count_total b \<circ> count_total a"
proof (rule ext)
  fix t :: "usage \<times> u32"
  have upd: "xs[i := x + xs ! i, j := y + xs[i := x + xs ! i] ! j] = xs[j := y + xs ! j, i := x + xs[j := y + xs ! j] ! i]"
    for xs :: "u64 list" and i j x y
    by (cases "i = j"; cases "i < length xs") (simp_all add: list_update_swap list_update_beyond ac_simps)
  show "(count_total a \<circ> count_total b) t = (count_total b \<circ> count_total a) t"
    by (simp add: count_total_def counted_def upd add.commute add.left_commute)
qed

lemma sized_count_total: "fold count_total es (sized b t) = sized b (fold count_total es t)"
proof (induction es arbitrary: t)
  case (Cons e es)
  have "count_total e (sized b t) = sized b (count_total e t)"
    by (simp add: count_total_def sized_def sized_totals_def counted_def)
  then show ?case using Cons.IH by simp
qed simp

lemma sized_after: "fold count_total es (fold sized bs t) = fold sized bs (fold count_total es t)"
  by (induction bs arbitrary: t) (simp_all add: sized_count_total)

lemma usage_runs_alone:
  assumes "usage_ok (fst t)" and "\<forall>b\<in>set jobs. usage_ok (jb_data b) \<and> fstat (j_fd (jb_bufs b)) = Some (jb_size b)"
  shows "run_as_alone (run_ends (usage_step h) has_finished (usage_start jobs t)) jobs (usage_of h fstat t) \<and>
    holds_as_alone (run_ends (usage_step h) has_finished (usage_start jobs t)) jobs (usage_of h fstat t) (\<lambda>r p. pr_data p = fst r)"
proof -
  have "run_as_alone (run_ends (usage_step h) has_finished (usage_start jobs t)) jobs
      (\<lambda>b. usage_of h (\<lambda>_. Some (jb_size b)) t b) \<and>
    holds_as_alone (run_ends (usage_step h) has_finished (usage_start jobs t)) jobs
      (\<lambda>b. usage_of h (\<lambda>_. Some (jb_size b)) t b) (\<lambda>r p. pr_data p = fst r)"
    unfolding usage_step_def usage_start_def
  proof (rule usage_own.chains.runs_as_alone_map [where f = "\<lambda>r. r" and g = "\<lambda>x. (pr_data (hd (fst x)), snd x)" and
        ?t1.0 = "\<lambda>b. sized_totals [b] t"])
    show "\<forall>b\<in>set jobs. usage_ok (pr_data (begin_chain usage_init b))"
      using assms(2) by (simp add: begin_chain_def start_chain_def usage_init_def usage_ok_def)
  qed (use assms(1) usage_alone [of h _ t] in
      \<open>auto simp: sized_totals_def usage_ok_def alone_result_def split_beta' usage_step_def usage_start_def usage_of_def\<close>)
  moreover have "usage_of h (\<lambda>_. Some (jb_size b)) t b = usage_of h fstat t b" if "b \<in> set jobs" for b
    using assms(2) that by (simp add: usage_of_def)
  ultimately show ?thesis
    by (simp add: run_as_alone_def holds_as_alone_def list_all2_conv_all_nth cong: ball_cong)
qed

lemma usage_in_turn:
  assumes "usage_ok (fst t)" and "\<forall>b\<in>set jobs. usage_ok (jb_data b) \<and> fstat (j_fd (jb_bufs b)) = Some (jb_size b)"
  shows "run_in_turn (run_ends (usage_step h) has_finished (usage_start jobs t)) jobs
    (\<lambda>b u. map_option (res_map snd) (usage_of h fstat u b)) t"
  unfolding run_in_turn_def
proof (intro allI impI exI conjI, rule refl)
  fix qs t'
  assume "run_ends (usage_step h) has_finished (usage_start jobs t) (Ok (qs, t'))"
  then have run: "run_ends (chain_step True usage_act h) has_finished (map (begin_chain usage_init) jobs, sized_totals jobs t) (Ok (qs, t'))"
    by (simp add: usage_step_def usage_start_def)
  have fine: "usage_ok (pr_data (begin_chain usage_init b))" if "b \<in> set jobs" for b
    using assms(2) that by (simp add: begin_chain_def start_chain_def usage_init_def usage_ok_def)
  have good: "usage_ok (fst (sized_totals bs u))" if "usage_ok (fst u)" for bs and u :: "usage \<times> u32"
    using that by (simp add: sized_totals_def usage_ok_def)
  obtain ess order where e: "length ess = length jobs"
    "\<forall>k<length jobs. chain_ends (usage_own.own_step True h) has_finished (begin_chain usage_init (jobs ! k)) (Ok (qs ! k, ess ! k))"
    "mset order = mset (concat ess)" "t' = fold count_total order (sized_totals jobs t)"
    using usage_own.chains.run_succeeds_alone [OF run _ good [OF assms(1)]] fine by auto
  have t': "t' = fold count_total (concat ess) (fold sized jobs t)"
    unfolding e(4) sized_totals_fold
    by (rule fun_cong [OF fold_multiset_equiv [OF _ e(3)]]) (rule count_total_commutes)
  have turn: "in_turn (\<lambda>b u. map_option (res_map snd) (usage_of h fstat u b)) bs u (fold count_total (concat fs) (fold sized bs u))"
    if "length fs = length bs" "set bs \<subseteq> set jobs" "usage_ok (fst u)"
      "\<forall>k<length bs. \<exists>q. chain_ends (usage_own.own_step True h) has_finished (begin_chain usage_init (bs ! k)) (Ok (q, fs ! k))"
    for bs fs u
    using that
  proof (induction fs bs arbitrary: u rule: list_induct2)
    case (Cons f fs b bs)
    obtain q where q: "chain_ends (usage_own.own_step True h) has_finished (begin_chain usage_init b) (Ok (q, f))"
      using Cons.prems(3) by (metis length_greater_0_conv list.distinct(1) nth_Cons_0)
    have b: "b \<in> set jobs" using Cons.prems(1) by simp
    let ?u = "fold count_total f (sized b u)"
    have su: "usage_ok (fst (sized b u))" using good [OF Cons.prems(2)] by (simp add: sized_def)
    have "run_ends (usage_step h) has_finished (usage_start [b] u) (Ok ([q], ?u))"
      using usage_own.chains.chain_ends_run [OF q fine [OF b] su] by (simp add: usage_step_def usage_start_def sized_def)
    then have "usage_of h fstat u b = Some (Ok (pr_data q, ?u))"
      using usage_alone [of h b u] assms(2) b by (fastforce simp: usage_of_def alone_result_def)
    moreover have "in_turn (\<lambda>b u. map_option (res_map snd) (usage_of h fstat u b)) bs ?u
        (fold count_total (concat fs) (fold sized bs ?u))"
    proof (rule Cons.IH)
      show "usage_ok (fst ?u)" by (rule usage_own.chains.chain_good [OF q fine [OF b] su])
      show "\<forall>k<length bs. \<exists>q. chain_ends (usage_own.own_step True h) has_finished (begin_chain usage_init (bs ! k)) (Ok (q, fs ! k))"
        using Cons.prems(3) by (metis Suc_less_eq length_Cons nth_Cons_Suc)
    qed (use Cons.prems(1) in simp)
    ultimately show ?case by (simp add: sized_after)
  qed simp
  show "in_turn (\<lambda>b u. map_option (res_map snd) (usage_of h fstat u b)) jobs t t'"
    unfolding t' by (rule turn) (use e(1,2) assms(1) in auto)
qed

text \<open>A journal whose \<open>fstat\<close> fails ends the program before any chain makes a step.\<close>

lemma usage_begin_cases:
  assumes "\<forall>b\<in>set jobs. mem (jb_bufs b) = (jb_iter b, jb_data b) \<and> fstat (j_fd (jb_bufs b)) \<in> {None, Some (jb_size b)}"
  shows "dispatch_all (usage_begin (fstat \<circ> j_fd) mem) (map jb_bufs jobs) ([], t) =
    (if \<exists>b\<in>set jobs. fstat (j_fd (jb_bufs b)) = None then Fail (Errno (- 1)) else Ok (usage_start jobs t))"
proof (cases "\<exists>b\<in>set jobs. fstat (j_fd (jb_bufs b)) = None")
  case True
  have "dispatch_all (usage_begin (fstat \<circ> j_fd) mem) (map jb_bufs jobs) s = Fail (Errno (- 1))" for s
    using True
  proof (induction jobs arbitrary: s)
    case (Cons b jobs)
    then show ?case
      by (cases "fstat (j_fd (jb_bufs b))"; cases s) (simp_all add: usage_begin_def)
  qed simp
  then show ?thesis using True by simp
next
  case False
  then have "\<forall>b\<in>set jobs. (fstat \<circ> j_fd) (jb_bufs b) = Some (jb_size b) \<and> mem (jb_bufs b) = (jb_iter b, jb_data b)"
    using assms by fastforce
  from usage_begin_all [OF this, of "[]" t] show ?thesis using False by (auto simp: comp_def)
qed

section \<open>The layout report\<close>

definition layout_own_act :: "Header \<Rightarrow> iter \<Rightarrow> journal \<Rightarrow> out_file \<Rightarrow> (journal \<times> out_file \<times> unit list) res" where
  "layout_own_act header it j out = res_map (\<lambda>out'. (j, out', [])) (layout_per_data_object it out)"

interpretation layout_own: own_dispatch layout_act layout_own_act "\<lambda>e t. t" "\<lambda>out. True" "\<lambda>t. True"
  by unfold_locales (auto simp: layout_act_def layout_own_act_def res_map_map comp_def)

definition layout_of ::
  "host \<Rightarrow> bool \<Rightarrow> (journal \<Rightarrow> int option) \<Rightarrow> unit job \<Rightarrow> out_file res option" where
  "layout_of h malloc fopen b =
     layout_per_journal (read_chain h) (host_be h) malloc (fopen (jb_bufs b)) (j_name (jb_bufs b)) (jb_iter b) (jb_bufs b)"

lemma layout_runs_alone:
  assumes "\<forall>b\<in>set jobs. fopen (jb_bufs b) = None"
  shows "run_as_alone (run_ends (layout_step h) has_finished (layout_start jobs)) jobs (layout_of h True fopen) \<and>
    holds_as_alone (run_ends (layout_step h) has_finished (layout_start jobs)) jobs (layout_of h True fopen) (\<lambda>out p. pr_data p = out)"
proof -
  have "run_as_alone (run_ends (layout_step h) has_finished (layout_start jobs)) jobs (layout_of h True (\<lambda>_. None)) \<and>
    holds_as_alone (run_ends (layout_step h) has_finished (layout_start jobs)) jobs (layout_of h True (\<lambda>_. None)) (\<lambda>out p. pr_data p = out)"
    unfolding layout_step_def layout_start_def
  proof (rule layout_own.chains.runs_as_alone_map [where f = "\<lambda>r. r" and g = "\<lambda>x. pr_data (hd (fst x))" and
        ?t1.0 = "\<lambda>b. ()"])
  qed (use layout_alone [of h] in
      \<open>auto simp: alone_result_def res_map_map comp_def split_beta' layout_step_def layout_start_def layout_of_def\<close>)
  moreover have "layout_of h True (\<lambda>_. None) b = layout_of h True fopen b" if "b \<in> set jobs" for b
    using assms that by (simp add: layout_of_def)
  ultimately show ?thesis
    by (simp add: run_as_alone_def holds_as_alone_def list_all2_conv_all_nth cong: ball_cong)
qed

text \<open>So does one whose layout file cannot be created.\<close>

lemma layout_begin_cases:
  assumes "\<forall>b\<in>set jobs. mem (jb_bufs b) = jb_iter b"
  shows "case dispatch_all (layout_begin malloc fopen mem) (map jb_bufs jobs) ([], ()) of
      Fail e \<Rightarrow> \<exists>b\<in>set jobs. layout_of h malloc fopen b = Some (Fail e)
    | Ok s \<Rightarrow> jobs = [] \<and> s = layout_start jobs \<or> malloc \<and> (\<forall>b\<in>set jobs. fopen (jb_bufs b) = None) \<and> s = layout_start jobs"
proof -
  have "\<exists>b\<in>set jobs. layout_of h malloc fopen b = Some (Fail e)"
    if "dispatch_all (layout_begin malloc fopen mem) (map jb_bufs jobs) s = Fail e" for e s
    using that
  proof (induction jobs arbitrary: s)
    case (Cons b jobs)
    show ?case
    proof (cases "layout_begin malloc fopen mem (jb_bufs b) s")
      case (Ok s')
      then show ?thesis using Cons by simp
    next
      case (Fail e')
      then have "layout_of h malloc fopen b = Some (Fail e')"
        by (auto simp: layout_begin_def layout_of_def layout_per_journal_def split: if_splits option.splits)
      then show ?thesis using Fail Cons.prems by simp
    qed
  qed simp
  moreover have "malloc \<and> (\<forall>b\<in>set jobs. fopen (jb_bufs b) = None) \<or> jobs = []"
    if "dispatch_all (layout_begin malloc fopen mem) (map jb_bufs jobs) s = Ok s'" for s s'
    using that
  proof (induction jobs arbitrary: s)
    case (Cons b jobs)
    then show ?case
      by (cases "layout_begin malloc fopen mem (jb_bufs b) s")
        (fastforce simp: layout_begin_def split: if_splits option.splits)+
  qed simp
  moreover have "dispatch_all (layout_begin malloc fopen mem) (map jb_bufs jobs) ([], ()) = Ok (layout_start jobs)"
    if "malloc \<and> (\<forall>b\<in>set jobs. fopen (jb_bufs b) = None)"
    using layout_begin_all [of jobs fopen mem "[]"] assms that by (simp add: layout_start_def)
  ultimately show ?thesis
    by (cases "dispatch_all (layout_begin malloc fopen mem) (map jb_bufs jobs) ([], ())") (fastforce simp: layout_start_def)+
qed

section \<open>The entry array report\<close>

text \<open>A chain reports, at the end of its journal, what it prints and its statistics.\<close>

definition entry_arrays_own_act ::
  "(bytes \<Rightarrow> bytes) \<Rightarrow> bool \<times> bool \<Rightarrow> host \<Rightarrow> Header \<Rightarrow> iter \<Rightarrow> journal \<Rightarrow> profile
     \<Rightarrow> (journal \<times> profile \<times> (string \<times> ea_stats) list) res" where
  "entry_arrays_own_act sha1 allocs h header it j p =
     (if it_offset it = 0
      then res_map (\<lambda>(stats, out, _). (j, p, [(out, stats)])) (entry_arrays_end (j_name j) p ([], zero_stats 0 0))
      else res_map (\<lambda>(j', p'). (j', p', [])) (entry_array_step sha1 allocs (read_chain h) it j p))"

definition report_stats :: "string \<times> ea_stats \<Rightarrow> string \<times> ea_stats \<Rightarrow> string \<times> ea_stats" where
  "report_stats e s = (fst s @ fst e, add_stats (snd s) (snd e))"

lemma entry_arrays_end_split:
  "entry_arrays_end name p s = res_map (\<lambda>(stats, out, _). (stats, fst s @ out, add_stats (snd s) stats))
     (entry_arrays_end name p ([], zero_stats 0 0))"
proof (cases "journal_stats p")
  case (Ok stats)
  then show ?thesis by (cases "print_stats stats") (simp_all add: entry_arrays_end_def)
qed (simp add: entry_arrays_end_def)

interpretation ea_own: own_dispatch "entry_arrays_act sha1 allocs h" "entry_arrays_own_act sha1 allocs h" report_stats
    "\<lambda>p. True" "\<lambda>s. True" for sha1 allocs h
proof
  fix header it j p and s :: "string \<times> ea_stats"
  show "entry_arrays_act sha1 allocs h header it j p s =
      res_map (\<lambda>(j', p', es). (j', p', fold report_stats es s)) (entry_arrays_own_act sha1 allocs h header it j p)"
    by (subst entry_arrays_act_def, subst entry_arrays_end_split)
      (auto simp: entry_arrays_own_act_def res_map_map report_stats_def intro!: res_map_cong)
qed simp_all

definition entry_arrays_of ::
  "(bytes \<Rightarrow> bytes) \<Rightarrow> bool \<times> bool \<Rightarrow> host \<Rightarrow> string \<times> ea_stats \<Rightarrow> profile job \<Rightarrow> (ea_stats \<times> string \<times> ea_stats) res option" where
  "entry_arrays_of sha1 allocs h s b =
     entry_arrays_per_journal sha1 allocs (read_chain h) (host_be h) (j_name (jb_bufs b)) (jb_iter b) (jb_data b) (jb_bufs b) s"

lemma entry_arrays_runs_alone:
  "run_as_alone (run_ends (ea_chain_step sha1 allocs h) has_finished (entry_arrays_start jobs s)) jobs (entry_arrays_of sha1 allocs h s)"
  unfolding ea_chain_step_def entry_arrays_start_def
proof (rule ea_own.chains.runs_as_alone_map [where f = snd and g = snd and ?t1.0 = "\<lambda>b. s" and seen = "\<lambda>r p. True", THEN conjunct1])
qed (use entry_arrays_alone [of sha1 allocs h _ s] in
    \<open>auto simp: alone_result_def res_map_map comp_def split_beta' ea_chain_step_def entry_arrays_start_def entry_arrays_of_def\<close>)

lemma entry_arrays_in_turn:
  "run_in_turn (run_ends (ea_chain_step sha1 allocs h) has_finished (entry_arrays_start jobs s)) jobs
    (\<lambda>b u. map_option (res_map snd) (entry_arrays_of sha1 allocs h u b)) s"
  unfolding ea_chain_step_def entry_arrays_start_def
proof (rule ea_own.chains.runs_in_turn)
  fix b q es
  assume "chain_ends (ea_own.own_step sha1 allocs h False h) has_finished (begin_chain jb_data b) (Ok (q, es))"
  note once = ea_own.chain_reports_once [OF _ this]
  have "length es = (if it_offset it = 0 then 1 else 0)"
    if "entry_arrays_own_act sha1 allocs h header it j p = Ok (j', p', es)" for header it j p j' p' es
    using that by (auto simp: entry_arrays_own_act_def res_map_Ok_iff split: if_splits)
  from once [OF this] show "length es = 1" by (simp add: begin_chain_def start_chain_def has_finished_def)
next
  fix b u q t'
  assume "run_ends (chain_step False (entry_arrays_act sha1 allocs h) h) has_finished ([begin_chain jb_data b], u) (Ok ([q], t'))"
  then show "map_option (res_map snd) (entry_arrays_of sha1 allocs h u b) = Some (Ok t')"
    using entry_arrays_alone [of sha1 allocs h b u "Ok t'"]
    by (force simp: ea_chain_step_def entry_arrays_start_def entry_arrays_of_def alone_result_def)
qed simp_all

section \<open>The verification\<close>

definition verify_own_dispatch ::
  "verify_env \<Rightarrow> host \<Rightarrow> Header \<Rightarrow> iter \<Rightarrow> journal \<Rightarrow> verify_state \<Rightarrow> (journal \<times> verify_state \<times> string list) res" where
  "verify_own_dispatch env h header it j s =
     (if it_offset it = 0 then res_map (\<lambda>line. (j, s, [line])) (verify_end (j_name j) (vs_stats s))
      else res_map (\<lambda>(j', s'). (j', s', [])) (verify_step env (read_chain h) header it j s))"

interpretation verify_own: own_dispatch "verify_dispatch env h" "verify_own_dispatch env h" "\<lambda>line out. out @ line"
    "\<lambda>s. True" "\<lambda>out. True" for env h
  by unfold_locales
    (auto simp: verify_dispatch_def verify_own_dispatch_def res_map_map intro!: res_map_cong)

definition verify_of :: "verify_env \<Rightarrow> host \<Rightarrow> (u64 \<times> u64) job \<Rightarrow> (verify_stats \<times> string) res option" where
  "verify_of env h b = verify_per_journal (env_at env h) (read_chain h) (j_name (jb_bufs b)) (jb_iter b) (fst (jb_data b))
     (snd (jb_data b)) (jb_bufs b)"

lemma verify_runs_alone:
  "run_as_alone (run_ends (verify_chain_step (env_at env h) h) has_finished (verify_start jobs out)) jobs (verify_of env h) \<and>
   holds_as_alone (run_ends (verify_chain_step (env_at env h) h) has_finished (verify_start jobs out)) jobs (verify_of env h)
     (\<lambda>r p. vs_stats (pr_data p) = fst r)"
  unfolding verify_chain_step_def verify_start_def
proof (rule verify_own.chains.runs_as_alone_map [where f = "\<lambda>r. (fst r, out @ snd r)" and
      g = "\<lambda>x. (vs_stats (pr_data (hd (fst x))), snd x)" and ?t1.0 = "\<lambda>b. out"])
qed (use verify_alone [of out env h] in
    \<open>auto simp: alone_result_def res_map_map comp_def split_beta' verify_chain_step_def verify_start_def verify_of_def\<close>)

lemma verify_in_turn:
  "run_in_turn (run_ends (verify_chain_step (env_at env h) h) has_finished (verify_start jobs out)) jobs
    (\<lambda>b u. map_option (res_map (\<lambda>(stats, line). u @ line)) (verify_of env h b)) out"
  unfolding verify_chain_step_def verify_start_def
proof (rule verify_own.chains.runs_in_turn)
  fix b q es
  assume "chain_ends (verify_own.own_step (env_at env h) h False h) has_finished (begin_chain verify_init b) (Ok (q, es))"
  note once = verify_own.chain_reports_once [OF _ this]
  have "length es = (if it_offset it = 0 then 1 else 0)"
    if "verify_own_dispatch (env_at env h) h header it j s = Ok (j', s', es)" for header it j s j' s' es
    using that by (auto simp: verify_own_dispatch_def res_map_Ok_iff split: if_splits)
  from once [OF this] show "length es = 1" by (simp add: begin_chain_def start_chain_def has_finished_def)
next
  fix b u q t'
  assume run: "run_ends (chain_step False (verify_dispatch (env_at env h) h) h) has_finished ([begin_chain verify_init b], u) (Ok ([q], t'))"
  then have "map_option (res_map (\<lambda>(stats, line). (stats, u @ line))) (verify_of env h b) = Some (Ok (vs_stats (pr_data q), t'))"
    using verify_alone [of u env h b "Ok (vs_stats (pr_data q), t')"]
    by (force simp: verify_chain_step_def verify_start_def verify_of_def alone_result_def)
  then show "map_option (res_map (\<lambda>(stats, line). u @ line)) (verify_of env h b) = Some (Ok t')"
    by (auto simp: res_map_Ok_iff)
qed simp_all

section \<open>The tail waste report\<close>

text \<open>The file size is that of the journal's descriptor.\<close>

lemma print_tail_waste_cases:
  assumes "tail_waste_ok (snd s)"
  shows "print_tail_waste i s =
    (if ti_stat i = None then Fail (Errno (- 1)) else if STATE_MAX \<le> state_of i then Fail OutOfBounds
     else Ok (waste_effect i s))"
proof (cases "tail_info_ok i")
  case True
  then show ?thesis
    using waste_closure.closure_ok [OF True assms] by (simp add: tail_info_ok_def state_of_def)
next
  case False
  then show ?thesis
    using assms by (auto simp: print_tail_waste_def Let_def humane_bytes_str tail_waste_ok_def arr_upd_out tail_info_ok_def state_of_def)
qed

interpretation tail_own: own_final
    "\<lambda>header oh j s. print_tail_waste \<lparr>ti_name = j_name j, ti_stat = fstat (j_fd j), ti_header = header, ti_tail = oh\<rparr> s"
    "\<lambda>header oh j. let i = \<lparr>ti_name = j_name j, ti_stat = fstat (j_fd j), ti_header = header, ti_tail = oh\<rparr>
       in res_map (\<lambda>_. i) (print_tail_waste i ([], zero_tail_waste))"
    waste_effect "\<lambda>s. tail_waste_ok (snd s)" for fstat
  by unfold_locales
    (auto simp: print_tail_waste_cases tail_waste_ok_def zero_tail_waste_def Let_def waste_effect_def split: if_splits)

definition tail_waste_of ::
  "host \<Rightarrow> (int \<Rightarrow> u64 option) \<Rightarrow> string \<times> tail_waste \<Rightarrow> unit job \<Rightarrow> (string \<times> tail_waste) res option" where
  "tail_waste_of h fstat s b =
     Some (tail_waste_per_journal (read_chain h) (host_be h) (j_name (jb_bufs b)) (fstat (j_fd (jb_bufs b))) (jb_bufs b) s)"

lemma tail_waste_runs_alone:
  assumes "tail_waste_ok (snd s)"
  shows "run_as_alone (run_ends (tail_step h (fstat \<circ> j_fd)) tail_finished (tail_start jobs s)) jobs (tail_waste_of h fstat s)"
  unfolding tail_start_def tail_step_def comp_def
proof (rule tail_own.chains.runs_as_alone_map [where f = "\<lambda>r. r" and g = snd and ?t1.0 = "\<lambda>b. s" and seen = "\<lambda>r p. True", THEN conjunct1])
qed (use assms tail_waste_alone [of h _ fstat s] in \<open>auto simp: tail_start_def tail_step_def tail_waste_of_def\<close>)

lemma tail_waste_in_turn:
  assumes "tail_waste_ok (snd s)"
  shows "run_in_turn (run_ends (tail_step h (fstat \<circ> j_fd)) tail_finished (tail_start jobs s)) jobs (\<lambda>b u. tail_waste_of h fstat u b) s"
  unfolding tail_start_def tail_step_def comp_def
proof (rule tail_own.chains.runs_in_turn)
  fix b :: "unit job" and q es
  assume "chain_ends (tail_own.own_step fstat h) tail_finished \<lparr>tp_phase = Reading_Header, tp_bufs = jb_bufs b\<rparr> (Ok (q, es))"
  from tail_own.chain_reports [OF this [folded tail_chain_def]] show "length es = 1" by auto
next
  fix b :: "unit job" and u q t'
  assume "run_ends (header_tail_step h (\<lambda>header oh j s. print_tail_waste
      \<lparr>ti_name = j_name j, ti_stat = fstat (j_fd j), ti_header = header, ti_tail = oh\<rparr> s)) tail_finished
    ([\<lparr>tp_phase = Reading_Header, tp_bufs = jb_bufs b\<rparr>], u) (Ok ([q], t'))"
  then show "tail_waste_of h fstat u b = Some (Ok t')"
    using tail_waste_alone [of h b fstat u "Ok t'"] by (force simp: tail_start_def tail_step_def tail_waste_of_def)
qed (use assms in simp_all)

section \<open>All runs\<close>

text \<open>C27: Whatever the files of the journals hold and whatever the host answers, in whatever order their reads
  complete: if setting up the usage or the layout report fails, on a failing \<open>fstat\<close>, \<open>malloc\<close> or \<open>fopen\<close>, it is with what the sequential
  \<open>per_journal\<close> of a journal returns.  Otherwise, and for the other subcommands, a run over several journals can end with a
  failure exactly if the \<open>per_journal\<close> of one of them returns it, and can succeed exactly if that of every
  journal succeeds.  After a success the statistics and the layout files that the chains hold are those that \<open>per_journal\<close> returns, and the
  totals and standard output are those of processing the journals one after the other in some order.  The
  hypotheses say what the allocated closures hold, and that the arrays of counters have the sizes they are declared with.\<close>

theorem runs_as_their_journals:
  assumes "usage_ok (fst ut)" and "tail_waste_ok (snd ts)"
    and "\<forall>b\<in>set ujobs. usage_ok (jb_data b) \<and> umem (jb_bufs b) = (jb_iter b, jb_data b) \<and>
      fstat (j_fd (jb_bufs b)) \<in> {None, Some (jb_size b)}"
    and "\<forall>b\<in>set ljobs. lmem (jb_bufs b) = jb_iter b"
  shows "(case dispatch_all (usage_begin (fstat \<circ> j_fd) umem) (map jb_bufs ujobs) ([], ut) of
      Fail e \<Rightarrow> \<exists>b\<in>set ujobs. usage_of h fstat ut b = Some (Fail e)
    | Ok s \<Rightarrow> let ends = run_ends (usage_step h) has_finished s in
        run_as_alone ends ujobs (usage_of h fstat ut) \<and>
        holds_as_alone ends ujobs (usage_of h fstat ut) (\<lambda>r p. pr_data p = fst r) \<and>
        run_in_turn ends ujobs (\<lambda>b u. map_option (res_map snd) (usage_of h fstat u b)) ut) \<and>
    (case dispatch_all (layout_begin malloc fopen lmem) (map jb_bufs ljobs) ([], ()) of
      Fail e \<Rightarrow> \<exists>b\<in>set ljobs. layout_of h malloc fopen b = Some (Fail e)
    | Ok s \<Rightarrow> let ends = run_ends (layout_step h) has_finished s in
        run_as_alone ends ljobs (layout_of h malloc fopen) \<and>
        holds_as_alone ends ljobs (layout_of h malloc fopen) (\<lambda>out p. pr_data p = out)) \<and>
    (let ends = run_ends (ea_chain_step sha1 allocs h) has_finished (entry_arrays_start ejobs es) in
        run_as_alone ends ejobs (entry_arrays_of sha1 allocs h es) \<and>
        run_in_turn ends ejobs (\<lambda>b u. map_option (res_map snd) (entry_arrays_of sha1 allocs h u b)) es) \<and>
    (let ends = run_ends (verify_chain_step (env_at env h) h) has_finished (verify_start vjobs out) in
        run_as_alone ends vjobs (verify_of env h) \<and>
        holds_as_alone ends vjobs (verify_of env h) (\<lambda>r p. vs_stats (pr_data p) = fst r) \<and>
        run_in_turn ends vjobs (\<lambda>b u. map_option (res_map (\<lambda>(stats, line). u @ line)) (verify_of env h b)) out) \<and>
    (let ends = run_ends (tail_step h (fstat \<circ> j_fd)) tail_finished (tail_start tjobs ts) in
        run_as_alone ends tjobs (tail_waste_of h fstat ts) \<and>
        run_in_turn ends tjobs (\<lambda>b u. tail_waste_of h fstat u b) ts)"
proof (intro conjI)
  show "case dispatch_all (usage_begin (fstat \<circ> j_fd) umem) (map jb_bufs ujobs) ([], ut) of
      Fail e \<Rightarrow> \<exists>b\<in>set ujobs. usage_of h fstat ut b = Some (Fail e)
    | Ok s \<Rightarrow> let ends = run_ends (usage_step h) has_finished s in
        run_as_alone ends ujobs (usage_of h fstat ut) \<and>
        holds_as_alone ends ujobs (usage_of h fstat ut) (\<lambda>r p. pr_data p = fst r) \<and>
        run_in_turn ends ujobs (\<lambda>b u. map_option (res_map snd) (usage_of h fstat u b)) ut"
  proof (cases "\<exists>b\<in>set ujobs. fstat (j_fd (jb_bufs b)) = None")
    case True
    then have "\<exists>b\<in>set ujobs. usage_of h fstat ut b = Some (Fail (Errno (- 1)))"
      by (auto simp: usage_of_def usage_per_journal_def intro: rev_bexI)
    then show ?thesis using True usage_begin_cases [of ujobs umem fstat ut] assms(3) by simp
  next
    case False
    then have ok: "\<forall>b\<in>set ujobs. usage_ok (jb_data b) \<and> fstat (j_fd (jb_bufs b)) = Some (jb_size b)" using assms(3) by fastforce
    have "dispatch_all (usage_begin (fstat \<circ> j_fd) umem) (map jb_bufs ujobs) ([], ut) = Ok (usage_start ujobs ut)"
      using usage_begin_cases [of ujobs umem fstat ut] assms(3) unfolding if_not_P [OF False] by blast
    then show ?thesis
      using usage_runs_alone [OF assms(1) ok, of h] usage_in_turn [OF assms(1) ok, of h] by (simp add: Let_def)
  qed
  show "case dispatch_all (layout_begin malloc fopen lmem) (map jb_bufs ljobs) ([], ()) of
      Fail e \<Rightarrow> \<exists>b\<in>set ljobs. layout_of h malloc fopen b = Some (Fail e)
    | Ok s \<Rightarrow> let ends = run_ends (layout_step h) has_finished s in
        run_as_alone ends ljobs (layout_of h malloc fopen) \<and>
        holds_as_alone ends ljobs (layout_of h malloc fopen) (\<lambda>out p. pr_data p = out)"
  proof (cases "dispatch_all (layout_begin malloc fopen lmem) (map jb_bufs ljobs) ([], ())")
    case (Ok s)
    then consider "ljobs = []" "s = layout_start ljobs"
      | "malloc" "\<forall>b\<in>set ljobs. fopen (jb_bufs b) = None" "s = layout_start ljobs"
      using layout_begin_cases [OF assms(4), of malloc fopen h] by auto
    then show ?thesis
    proof cases
      case 1
      then show ?thesis using Ok layout_runs_alone [of "[]" fopen h] by (simp add: Let_def run_as_alone_def holds_as_alone_def)
    next
      case 2
      then show ?thesis using Ok layout_runs_alone [OF 2(2), of h] by (simp add: Let_def)
    qed
  next
    case (Fail e)
    then show ?thesis using layout_begin_cases [OF assms(4), of malloc fopen h] by simp
  qed
qed (use entry_arrays_runs_alone entry_arrays_in_turn verify_runs_alone verify_in_turn
    tail_waste_runs_alone [OF assms(2)] tail_waste_in_turn [OF assms(2)] in \<open>simp_all add: Let_def\<close>)

text \<open>Journals whose files are empty: no read of a header succeeds.\<close>

lemma empty_file_fails:
  assumes "coherent [] j"
  shows "\<exists>e. journal_get_header (read_chain (file_host False [])) False j = Fail e"
proof (cases "read_chain (file_host False []) j 0 (of_nat sizeof_Header)")
  case (Ok x)
  obtain bs j' where x: "x = (bs, j')" by (cases x)
  have f: "reads_file (file_host False []) []" by (rule file_host_reads) simp
  show ?thesis
    using read_chain_sound [OF f assms Ok [unfolded x]] by (simp add: segment_def sizeof_Header_def) auto
qed (simp add: journal_get_header_def)

text \<open>Two journals that fail together as they do alone, and two whose tail waste is reported as in turn.\<close>

theorem runs_as_their_journals_witness:
  "(\<exists>s e. dispatch_all (usage_begin ((\<lambda>fd. Some 296) \<circ> j_fd) (\<lambda>jr. (zero_iter, zero_usage)))
        (map jb_bufs [sample_job 0, sample_job 1]) ([], zero_usage, 0) = Ok s \<and>
      run_ends (usage_step (file_host False [])) has_finished s (Fail e) \<and>
      \<not> (\<exists>t. run_ends (usage_step (file_host False [])) has_finished s (Ok t))) \<and>
   (\<exists>ps t order. run_ends (tail_step (file_host False sample_journal) ((\<lambda>fd. Some 296) \<circ> j_fd)) tail_finished
        (tail_start [tail_job 0, tail_job 1] ([], zero_tail_waste)) (Ok (ps, t)) \<and>
      mset order = mset [tail_job 0, tail_job 1] \<and>
      in_turn (\<lambda>b u. tail_waste_of (file_host False sample_journal) (\<lambda>fd. Some 296) u b) order ([], zero_tail_waste) t)"
proof -
  let ?h = "file_host False []" and ?g = "file_host False sample_journal" and ?fstat = "\<lambda>fd :: int. Some (296 :: u64)"
  let ?jobs = "[sample_job 0, sample_job 1]" and ?tails = "[tail_job 0, tail_job 1]"
  let ?begun = "dispatch_all (usage_begin (?fstat \<circ> j_fd) (\<lambda>jr. (zero_iter, zero_usage))) (map jb_bufs ?jobs) ([], zero_usage, 0)"
  have u: "usage_ok (fst (zero_usage, 0 :: u32))"
    "\<forall>b\<in>set ?jobs. usage_ok (jb_data b) \<and> (zero_iter, zero_usage) = (jb_iter b, jb_data b) \<and>
      ?fstat (j_fd (jb_bufs b)) \<in> {None, Some (jb_size b)}"
    by (simp_all add: zero_usage_ok sample_job_def)
  have t: "tail_waste_ok (snd ([] :: string, zero_tail_waste))" by (simp add: tail_waste_ok_def zero_tail_waste_def)
  have l: "\<forall>b\<in>set []. zero_iter = jb_iter b" by simp
  note runs = runs_as_their_journals [OF u(1) t u(2) l, of _ True "\<lambda>j. None" "\<lambda>bs. bs" "(True, True)" "[]" "([], zero_stats 0 0)"
      plain_env "[]" "[]" ?tails]
  obtain s where s: "?begun = Ok s" by (simp add: usage_begin_def)
  have c: "coherent [] ((link_bufs (calloc_journal ''a''))\<lparr>j_idx := i\<rparr>)" for i
    by (simp add: coherent_j_idx link_bufs_coherent)
  obtain e where e: "usage_of ?h ?fstat (zero_usage, 0) (sample_job 0) = Some (Fail e)"
    using empty_file_fails [OF c, of 0]
    by (auto simp: usage_of_def usage_per_journal_def header_then_objects_def sample_job_def file_host_def)
  have alone: "run_as_alone (run_ends (usage_step ?h) has_finished s) ?jobs (usage_of ?h ?fstat (zero_usage, 0))"
    using runs [of ?h, THEN conjunct1] unfolding s by (simp add: Let_def)
  have "sample_job 0 \<in> set ?jobs" by simp
  note fails = run_as_alone_fails [OF alone this, of e, OF e]
  have len: "length sample_journal < 2 ^ 63" by (simp add: length_sample_journal)
  have hd: "h_state (file_header sample_journal) = 0"
    by (simp add: file_header_def parse_header_def header_with_def sample_journal_def segment_def sizeof_Header_def
      nth_append)
  have "\<forall>b\<in>set (map (\<lambda>b. b\<lparr>jb_size := 296\<rparr>) ?tails). tail_job_ok ?g (?fstat \<circ> j_fd) b"
    using len by (simp add: tail_job_ok_def tail_job_def file_host_served coherent_j_idx link_bufs_coherent hd
      length_sample_journal sizeof_Header_def sizeof_ObjectHeader_def sample_journal_header STATE_MAX_def)
  from tail_waste_outcomes [OF this t] obtain ps w where
    "run_ends (tail_step ?g (?fstat \<circ> j_fd)) tail_finished
      (tail_start (map (\<lambda>b. b\<lparr>jb_size := 296\<rparr>) ?tails) ([], zero_tail_waste)) (Ok (ps, w))" by blast
  then have run: "run_ends (tail_step ?g (?fstat \<circ> j_fd)) tail_finished (tail_start ?tails ([], zero_tail_waste)) (Ok (ps, w))"
    by (simp add: tail_start_def)
  have "run_in_turn (run_ends (tail_step ?g (?fstat \<circ> j_fd)) tail_finished (tail_start ?tails ([], zero_tail_waste))) ?tails
      (\<lambda>b u. tail_waste_of ?g ?fstat u b) ([], zero_tail_waste)"
    using runs [of ?g, THEN conjunct2, THEN conjunct2, THEN conjunct2, THEN conjunct2] by (simp only: Let_def)
  then obtain order where "mset order = mset ?tails" "in_turn (\<lambda>b u. tail_waste_of ?g ?fstat u b) order ([], zero_tail_waste) w"
    using run unfolding run_in_turn_def by blast
  then show ?thesis using s fails run by blast
qed

end
