(* ===== verification/Reclaim_Tail_Waste.thy ===== *)
theory Reclaim_Tail_Waste
  imports Report_Tail_Waste
begin

text \<open>
  \<^verbatim>\<open>reclaim-tail-waste.c\<close>: truncating archived journals to the end of their tail object, and the
  summary.  \<open>fstat\<close>, \<open>ftruncate\<close> and \<open>strerror\<close> are arguments.  The subcommand returns before it does
  any of this, which \<open>jio_reclaim_tail_waste\<close> states; the thunks and the summary behind that return
  are modelled as they would run.
\<close>

section \<open>Operations\<close>

record reclaim_stats =
  rc_journals :: u32
  rc_reclaimed :: u32
  rc_ignored :: u32
  rc_errored :: u32
  rc_mules :: u32
  reclaimed_bytes :: u64
  ignored_bytes :: u64
  errored_bytes :: u64

definition zero_reclaim :: reclaim_stats where
  "zero_reclaim = \<lparr>rc_journals = 0, rc_reclaimed = 0, rc_ignored = 0, rc_errored = 0, rc_mules = 0,
     reclaimed_bytes = 0, ignored_bytes = 0, errored_bytes = 0\<rparr>"

record reclaim_info = tail_info +
  ri_truncate :: "int option" \<comment> \<open>the error of \<open>ftruncate\<close>, if it fails\<close>

text \<open>The state of a run: what is printed, the files truncated and to what, and the counters.\<close>

record reclaim_run =
  rr_out :: string
  rr_err :: string
  rr_truncated :: "(string \<times> u64) list"
  rr_stats :: reclaim_stats

definition reclaim_tail_waste :: "(int \<Rightarrow> string) \<Rightarrow> (reclaim_info, reclaim_run) closure" where
  "reclaim_tail_waste strerror i s =
     (case ti_stat i of
        None \<Rightarrow> Fail (Errno (- 1))
      | Some sz \<Rightarrow>
          let st = (rr_stats s)\<lparr>rc_journals := rc_journals (rr_stats s) + 1\<rparr>;
              tail = tail_end (ti_header i) (ti_tail i) in
          if sz = tail then Ok (s\<lparr>rr_stats := st\<lparr>rc_mules := rc_mules st + 1\<rparr>\<rparr>)
          else if unat (h_state (ti_header i)) \<noteq> journal_state_code STATE_ARCHIVED then
            res_map (\<lambda>h1. s\<lparr>rr_out := rr_out s @ ''Ignoring '' @ h1 @ '' of tail-waste on '' @ CHR 0x22 #
                  ti_name i @ CHR 0x22 # '' for not being archived (state='' @
                  journal_state_str (uint (h_state (ti_header i))) @ '')'' @ newline,
                rr_stats := st\<lparr>rc_ignored := rc_ignored st + 1, ignored_bytes := ignored_bytes st + (sz - tail)\<rparr>\<rparr>)
              (humane_bytes (sz - tail))
          else case ri_truncate i of
            Some e \<Rightarrow> Ok (s\<lparr>rr_err := rr_err s @ ''Unable to truncate '' @ CHR 0x22 # ti_name i @ CHR 0x22 #
                  '' to '' @ dec (unat tail) @ '', ignoring: '' @ strerror e @ newline,
                rr_stats := st\<lparr>rc_errored := rc_errored st + 1, errored_bytes := errored_bytes st + (sz - tail)\<rparr>\<rparr>)
          | None \<Rightarrow> Ok (s\<lparr>rr_truncated := rr_truncated s @ [(ti_name i, tail)],
                rr_stats := st\<lparr>rc_reclaimed := rc_reclaimed st + 1,
                  reclaimed_bytes := reclaimed_bytes st + (sz - tail)\<rparr>\<rparr>))"

definition reclaim_per_journal ::
  "(int \<Rightarrow> string) \<Rightarrow> 'j reader \<Rightarrow> bool \<Rightarrow> string \<Rightarrow> u64 option \<Rightarrow> int option \<Rightarrow> 'j \<Rightarrow> reclaim_run \<Rightarrow> reclaim_run res" where
  "reclaim_per_journal strerror rd be name st tr j s =
     res_bind (header_then_tail rd be j) (\<lambda>((header, h), j').
       reclaim_tail_waste strerror
         \<lparr>ti_name = name, ti_stat = st, ti_header = header, ti_tail = h, ri_truncate = tr\<rparr> s)"

definition jio_reclaim_tail_waste :: "int \<times> string" where
  "jio_reclaim_tail_waste =
     (- ENOTSUP, newline @ ''Temporarily disabled: https://github.com/systemd/systemd/pull/17876'' @ newline)"

definition reclaim_summary :: "reclaim_stats \<Rightarrow> string res" where
  "reclaim_summary st =
     res_bind (humane_bytes (ignored_bytes st)) (\<lambda>ig.
     res_bind (humane_bytes (reclaimed_bytes st)) (\<lambda>re.
     res_map (\<lambda>er. newline @ ''Summary:'' @ newline @
         (if rc_journals st = 0 then tab @ ''No journal files opened!'' @ newline else []) @
         (if rc_mules st \<noteq> 0 then tab @ ''Skipped '' @ dec (unat (rc_mules st)) @
            '' journal files free of tail-waste'' @ newline else []) @
         (if rc_ignored st \<noteq> 0 then tab @ ''Ignored '' @ dec (unat (rc_ignored st)) @
            '' unarchived journal files totalling '' @ ig @ '' of tail-waste'' @ newline else []) @
         (if rc_reclaimed st \<noteq> 0 then tab @ ''Reclaimed '' @ re @ '' from '' @ dec (unat (rc_reclaimed st)) @
            '' journal files'' @ newline else []) @
         (if rc_errored st \<noteq> 0 then tab @ ''Failed to relcaim '' @ er @ '' from '' @ dec (unat (rc_errored st)) @
            '' journal files due to errors'' @ newline else []))
       (humane_bytes (errored_bytes st))))"

section \<open>The four outcomes\<close>

datatype outcome = Mule | Ignored | Errored | Reclaimed

definition outcome_of :: "reclaim_info \<Rightarrow> outcome" where
  "outcome_of i =
     (if waste_of (tail_info.truncate i) = 0 then Mule
      else if state_of (tail_info.truncate i) \<noteq> journal_state_code STATE_ARCHIVED then Ignored
      else if ri_truncate i \<noteq> None then Errored else Reclaimed)"

definition with_outcome :: "outcome \<Rightarrow> reclaim_info list \<Rightarrow> reclaim_info list" where
  "with_outcome out is = filter (\<lambda>i. outcome_of i = out) is"

abbreviation waste_in :: "reclaim_info list \<Rightarrow> u64" where
  "waste_in is \<equiv> sum_list (map (\<lambda>i. waste_of (tail_info.truncate i)) is)"

text \<open>The line printed for a journal that is ignored.\<close>

definition ignored_line :: "reclaim_info \<Rightarrow> string" where
  "ignored_line i = ''Ignoring '' @ humane_str (waste_of (tail_info.truncate i)) @ '' of tail-waste on '' @
     CHR 0x22 # ti_name i @ CHR 0x22 # '' for not being archived (state='' @
     journal_state_str (uint (h_state (ti_header i))) @ '')'' @ newline"

text \<open>The counts and bytes of each outcome, the files truncated and what is printed.\<close>

definition adds_reclaim :: "reclaim_info list \<Rightarrow> reclaim_run \<Rightarrow> reclaim_run \<Rightarrow> bool" where
  "adds_reclaim is s s' \<longleftrightarrow>
     rc_journals (rr_stats s') = rc_journals (rr_stats s) + of_nat (length is) \<and>
     rc_mules (rr_stats s') = rc_mules (rr_stats s) + of_nat (length (with_outcome Mule is)) \<and>
     rc_ignored (rr_stats s') = rc_ignored (rr_stats s) + of_nat (length (with_outcome Ignored is)) \<and>
     rc_errored (rr_stats s') = rc_errored (rr_stats s) + of_nat (length (with_outcome Errored is)) \<and>
     rc_reclaimed (rr_stats s') = rc_reclaimed (rr_stats s) + of_nat (length (with_outcome Reclaimed is)) \<and>
     ignored_bytes (rr_stats s') = ignored_bytes (rr_stats s) + waste_in (with_outcome Ignored is) \<and>
     errored_bytes (rr_stats s') = errored_bytes (rr_stats s) + waste_in (with_outcome Errored is) \<and>
     reclaimed_bytes (rr_stats s') = reclaimed_bytes (rr_stats s) + waste_in (with_outcome Reclaimed is) \<and>
     rr_truncated s' = rr_truncated s @
       map (\<lambda>i. (ti_name i, tail_end (ti_header i) (ti_tail i))) (with_outcome Reclaimed is) \<and>
     rr_out s' = rr_out s @ concat (map ignored_line (with_outcome Ignored is))"

text \<open>The outcome as an effect on the state.\<close>

definition reclaim_effect :: "(int \<Rightarrow> string) \<Rightarrow> reclaim_info \<Rightarrow> reclaim_run \<Rightarrow> reclaim_run" where
  "reclaim_effect strerror i s = (case reclaim_tail_waste strerror i s of Ok s' \<Rightarrow> s' | Fail _ \<Rightarrow> s)"

lemma reclaim_tail_waste_outcome:
  assumes "ti_stat i \<noteq> None"
  shows "\<exists>s'. reclaim_tail_waste strerror i s = Ok s' \<and> adds_reclaim [i] s s'"
proof -
  obtain sz where sz: "ti_stat i = Some sz" using assms by blast
  have w: "waste_of (tail_info.truncate i) = sz - tail_end (ti_header i) (ti_tail i)"
    by (simp add: waste_of_def size_of_def tail_info.truncate_def sz)
  have st: "state_of (tail_info.truncate i) = unat (h_state (ti_header i))"
    by (simp add: state_of_def tail_info.truncate_def)
  show ?thesis
    by (cases "outcome_of i")
      (auto simp: reclaim_tail_waste_def sz Let_def humane_bytes_str adds_reclaim_def with_outcome_def
        outcome_of_def ignored_line_def w st split: if_splits option.splits)
qed

interpretation reclaim_closure: summing_closure "reclaim_tail_waste strerror" "\<lambda>i. ti_stat i \<noteq> None"
    "\<lambda>s. True" "reclaim_effect strerror" adds_reclaim for strerror
proof
  fix i :: reclaim_info and s
  assume "ti_stat i \<noteq> None"
  then obtain s' where "reclaim_tail_waste strerror i s = Ok s'" "adds_reclaim [i] s s'"
    using reclaim_tail_waste_outcome by blast
  then show "reclaim_tail_waste strerror i s = Ok (reclaim_effect strerror i s)"
    and "adds_reclaim [i] s (reclaim_effect strerror i s)"
    by (simp_all add: reclaim_effect_def)
qed (simp_all add: adds_reclaim_def with_outcome_def)

section \<open>Properties\<close>

text \<open>Every journal has exactly one of the four outcomes.\<close>

lemma adds_reclaim_sums:
  assumes "adds_reclaim is s s'" and "rr_stats s = zero_reclaim"
  shows "rc_journals (rr_stats s') = rc_mules (rr_stats s') + rc_ignored (rr_stats s') +
      rc_errored (rr_stats s') + rc_reclaimed (rr_stats s')"
proof -
  have "length is = length (with_outcome Mule is) + length (with_outcome Ignored is) +
      length (with_outcome Errored is) + length (with_outcome Reclaimed is)"
    unfolding with_outcome_def
  proof (induction "is")
    case (Cons i "is")
    then show ?case by (cases "outcome_of i") simp_all
  qed simp
  then have "(of_nat (length is) :: u32) = of_nat (length (with_outcome Mule is)) +
      of_nat (length (with_outcome Ignored is)) + of_nat (length (with_outcome Errored is)) +
      of_nat (length (with_outcome Reclaimed is))"
    by (simp only: of_nat_add)
  then show ?thesis using assms by (auto simp: adds_reclaim_def zero_reclaim_def)
qed

lemma reclaim_accounts_for_all:
  assumes "\<forall>i\<in>set is. ti_stat i \<noteq> None" and "rr_stats s = zero_reclaim"
  shows "\<exists>s'. dispatch_all (reclaim_tail_waste strerror) is s = Ok s' \<and> adds_reclaim is s s' \<and>
    rc_journals (rr_stats s') = rc_mules (rr_stats s') + rc_ignored (rr_stats s') +
      rc_errored (rr_stats s') + rc_reclaimed (rr_stats s')"
  by (rule reclaim_closure.dispatch_all_adds [OF assms(1)]) (use adds_reclaim_sums [OF _ assms(2)] in auto)

definition reclaim_sample :: "u8 \<Rightarrow> u64 \<Rightarrow> int option \<Rightarrow> reclaim_info" where
  "reclaim_sample state sz tr = \<lparr>ti_name = ''a'', ti_stat = Some sz,
     ti_header = (parse_header (replicate 256 0))\<lparr>h_state := state, tail_object_offset := 256\<rparr>,
     ti_tail = \<lparr>o_type = 7, o_flags = 0, o_reserved = [], o_size = 60\<rparr>, ri_truncate = tr\<rparr>"

text \<open>A journal without waste, an online one, an archived one whose truncation fails and one that is cut.\<close>

lemma reclaim_accounts_for_all_witness:
  "\<exists>s'. dispatch_all (reclaim_tail_waste (\<lambda>e. ''error'')) [reclaim_sample 2 320 None, reclaim_sample 1 500 None,
      reclaim_sample 2 330 (Some EPERM), reclaim_sample 2 400 None]
      \<lparr>rr_out = [], rr_err = [], rr_truncated = [], rr_stats = zero_reclaim\<rparr> = Ok s' \<and>
    rr_truncated s' = [(''a'', 320)] \<and> rc_journals (rr_stats s') = 4 \<and> reclaimed_bytes (rr_stats s') = 80"
proof -
  let ?is = "[reclaim_sample 2 320 None, reclaim_sample 1 500 None, reclaim_sample 2 330 (Some EPERM),
    reclaim_sample 2 400 None]"
  let ?s = "\<lparr>rr_out = [], rr_err = [], rr_truncated = [], rr_stats = zero_reclaim\<rparr>"
  have 1: "\<forall>i\<in>set ?is. ti_stat i \<noteq> None" by (simp add: reclaim_sample_def)
  have 2: "rr_stats ?s = zero_reclaim" by simp
  have out: "outcome_of (reclaim_sample st sz tr) =
      (if sz = 320 then Mule else if unat st \<noteq> 2 then Ignored else if tr \<noteq> None then Errored else Reclaimed)" for st sz tr
    by (simp add: outcome_of_def reclaim_sample_def waste_of_def size_of_def tail_end_def ALIGN64_def state_of_def
      tail_info.truncate_def)
  from reclaim_accounts_for_all [OF 1 2, of "\<lambda>e. ''error''"] obtain s' where
    run: "dispatch_all (reclaim_tail_waste (\<lambda>e. ''error'')) ?is ?s = Ok s'" and adds: "adds_reclaim ?is ?s s'"
    by blast
  have "with_outcome Reclaimed ?is = [reclaim_sample 2 400 None]" by (simp add: with_outcome_def out)
  then have "rr_truncated s' = [(''a'', 320)] \<and> rc_journals (rr_stats s') = 4 \<and> reclaimed_bytes (rr_stats s') = 80"
    using adds by (simp add: adds_reclaim_def zero_reclaim_def reclaim_sample_def waste_of_def size_of_def
      tail_end_def ALIGN64_def tail_info.truncate_def)
  then show ?thesis using run by blast
qed

text \<open>A file that ends before its tail object's end is made longer: the truncation is to the object's end.\<close>

lemma short_archive_extended:
  "outcome_of (reclaim_sample 2 300 None) = Reclaimed \<and>
     tail_end (ti_header (reclaim_sample 2 300 None)) (ti_tail (reclaim_sample 2 300 None)) = 320"
  by (simp add: outcome_of_def reclaim_sample_def waste_of_def size_of_def tail_end_def ALIGN64_def state_of_def
    tail_info.truncate_def)

end
