(* ===== verification/Reclaim_Schedule.thy ===== *)
theory Reclaim_Schedule
  imports Reclaim_Tail_Waste Header_Tail_Chain
begin

text \<open>
  \<^verbatim>\<open>reclaim-tail-waste.c\<close> over several journals as one run, as it would be without the return at the top of
  \<open>jio_reclaim_tail_waste\<close>: every chain reads the two headers, then decides about its own file and adds to
  the shared counters.  \<open>fstat\<close> and \<open>ftruncate\<close> answer by the descriptor.
\<close>

section \<open>The chains\<close>


definition reclaim_begin :: "(journal, tail_proc list \<times> reclaim_run) closure" where
  "reclaim_begin jr s = Ok (fst s @ [tail_chain jr], snd s)"


lemma reclaim_begin_all: "dispatch_all reclaim_begin jrs (ps, s) = Ok (ps @ map tail_chain jrs, s)"
  by (induction jrs arbitrary: ps) (simp_all add: reclaim_begin_def)



section \<open>In any order\<close>




















end
