(* ===== verification/Jio_Main.thy ===== *)
theory Jio_Main
  imports Report_Entry_Arrays Report_Layout Report_Usage Reclaim_Tail_Waste Verify_Hashed
begin

text \<open>
  \<^verbatim>\<open>jio.c\<close>: the dispatch on the command line and the exit status, composed with the entry points of
  the subcommands.  Arguments are what the world decides: whether \<open>iou_new\<close> succeeds, the result of
  \<open>machid_get\<close>, of the \<open>iou_run\<close> in a subcommand and of the one at the end of \<open>main\<close>, the totals
  that the closures have summed up and what they have printed in that run, \<open>strerror\<close> and the version.
\<close>

section \<open>Operations\<close>

record main_env =
  me_iou :: bool
  me_machid :: int
  me_journals :: int \<comment> \<open>the \<open>iou_run\<close> of the subcommand\<close>
  me_usage :: "usage \<times> u32"
  me_tail :: "string \<times> tail_waste"
  me_entry_arrays :: "string \<times> ea_stats"
  me_verified :: string
  me_run :: int \<comment> \<open>the \<open>iou_run\<close> at the end of \<open>main\<close>\<close>
  me_strerror :: "int \<Rightarrow> string"
  me_version :: string

text \<open>Exit status, standard output, standard error.\<close>

type_synonym outcome3 = "int \<times> string \<times> string"

definition text_lines :: "string list \<Rightarrow> string" where
  "text_lines ls = concat (map (\<lambda>l. l @ newline) ls)"

definition help_text :: string where
  "help_text = text_lines
    ['''',
     '' help                 show this help'',
     '' license              print license header'',
     '' reclaim [subcmd]     reclaim space from journal files'',
     ''         tail-waste   reclaim wasted space from tails of archives'',
     '''',
     '' report  [subcmd]     report statistics about journal files'',
     ''         entry-arrays report statistics about entry array objects per journal'',
     ''         layout       report layout of objects, writes a .layout file per journal'',
     ''         usage        report space used by various object types'',
     ''         tail-waste   report extra space allocated onto tails'',
     '' version              print jio version'',
     '''']"

definition license_text :: string where
  "license_text = text_lines
    ['''',
     '' Copyright (C) 2020 - Vito Caputo - <vcaputo@pengaru.com>'',
     '''',
     '' This program is free software: you can redistribute it and/or modify it'',
     '' under the terms of the GNU General Public License version 3 as published'',
     '' by the Free Software Foundation.'',
     '''',
     '' This program is distributed in the hope that it will be useful,'',
     '' but WITHOUT ANY WARRANTY; without even the implied warranty of'',
     '' MERCHANTABILITY or FITNESS FOR A PARTICULAR PURPOSE.  See the'',
     '' GNU General Public License for more details.'',
     '''',
     '' You should have received a copy of the GNU General Public License'',
     '' along with this program.  If not, see <http://www.gnu.org/licenses/>.'',
     '''']"

text \<open>The end of \<open>main\<close>: outstanding I/O is run after a subcommand that returned 0.\<close>

definition main_finish :: "main_env \<Rightarrow> int \<Rightarrow> string \<Rightarrow> outcome3" where
  "main_finish env r out =
     (let r' = (if r = 0 then me_run env else r) in
      (if r' \<noteq> 0 then 1 else 0, out,
       if r = 0 \<and> r' < 0 then ''iou error: '' @ me_strerror env (- r') @ newline else []))"

text \<open>A subcommand's result: a failure is reported under its name.\<close>

definition main_sub :: "main_env \<Rightarrow> string \<Rightarrow> (int \<times> string) res \<Rightarrow> outcome3 res" where
  "main_sub env doing result =
     res_map (\<lambda>(r, out).
        if r < 0 then (1, out, ''failed to '' @ doing @ '': '' @ me_strerror env (- r) @ newline)
        else main_finish env r out) result"

definition unsupported :: "string \<Rightarrow> string \<Rightarrow> outcome3" where
  "unsupported what arg =
     (1, [], ''Unsupported '' @ what @ '': '' @ CHR 0x22 # arg @ CHR 0x22 # newline)"

text \<open>The command after \<open>iou_new\<close>; \<open>sub\<close> is only looked at where it exists.\<close>

definition main_report :: "main_env \<Rightarrow> string \<Rightarrow> outcome3 res" where
  "main_report env sub =
     (let m = me_machid env; r = me_journals env in
      if sub = ''entry-arrays'' then
        main_sub env ''report entry arrays'' (jio_report_entry_arrays m r (me_entry_arrays env))
      else if sub = ''layout'' then main_sub env ''report layout'' (Ok (jio_report_layout m r, []))
      else if sub = ''tail-waste'' then
        main_sub env ''report tail waste'' (jio_report_tail_waste m r (me_tail env))
      else if sub = ''usage'' then main_sub env ''report usage'' (jio_report_usage m r (me_usage env))
      else Ok (unsupported ''report subcommand'' sub))"

definition main :: "main_env \<Rightarrow> string list \<Rightarrow> outcome3 res" where
  "main env argv =
     (if length argv < 2 then
        Ok (0, ''Usage: '' @ hd argv @ '' {help,reclaim,report,verify} [subcommand-args]'' @ newline, [])
      else if \<not> me_iou env then Ok (1, [], [])
      else let cmd = argv ! 1; sub = argv ! 2 in
        if cmd = ''help'' then Ok (0, help_text, [])
        else if cmd = ''license'' then Ok (0, license_text, [])
        else if cmd = ''reclaim'' then
          (if length argv < 3 then Ok (0, ''Usage: '' @ hd argv @ '' reclaim {tail-waste}'' @ newline, [])
           else if sub = ''tail-waste'' then main_sub env ''reclaim tail waste'' (Ok jio_reclaim_tail_waste)
           else Ok (unsupported ''reclaim subcommand'' sub))
        else if cmd = ''report'' then
          (if length argv < 3 then
             Ok (0, ''Usage: '' @ hd argv @ '' report {entry-arrays,layout,tail-waste,usage}'' @ newline, [])
           else main_report env sub)
        else if cmd = ''verify'' then
          (if length argv < 3 then Ok (0, ''Usage: '' @ hd argv @ '' verify {hashed-objects}'' @ newline, [])
           else if sub = ''hashed-objects'' then
             main_sub env ''verify hashed objects''
               (Ok (jio_verify_hashed_objects (me_machid env) (me_journals env), me_verified env))
           else Ok (unsupported ''verify subcommand'' sub))
        else if cmd = ''version'' then Ok (0, ''jio version '' @ me_version env @ newline, [])
        else Ok (unsupported ''subcommand'' cmd))"

section \<open>Properties\<close>

text \<open>Status of a call that neither asserts nor leaves its memory.\<close>

definition exits :: "outcome3 res \<Rightarrow> bool \<Rightarrow> bool" where
  "exits res success \<longleftrightarrow> (\<exists>st out. res = Ok (st, out) \<and> (st = 0 \<longleftrightarrow> success))"

lemma exits_Ok [simp]: "exits (Ok (st, out)) success \<longleftrightarrow> (st = 0 \<longleftrightarrow> success)"
  by (simp add: exits_def)

lemma exits_unsupported [simp]: "exits (Ok (unsupported what arg)) success \<longleftrightarrow> \<not> success"
  by (simp add: unsupported_def)

lemma exits_sub:
  assumes "result = Ok (r, out)"
  shows "exits (main_sub env doing result) success \<longleftrightarrow> ((r = 0 \<and> me_run env = 0) \<longleftrightarrow> success)"
  using assms by (auto simp: main_sub_def main_finish_def Let_def)

text \<open>Each subcommand returns 0 or the failure of \<open>machid_get\<close> or of its \<open>iou_run\<close>.\<close>

definition runs :: "main_env \<Rightarrow> bool" where
  "runs env \<longleftrightarrow> 0 \<le> me_machid env \<and> 0 \<le> me_journals env"

lemma sub_results:
  "\<exists>r out. jio_report_usage m k s = Ok (r, out) \<and> (r = 0 \<longleftrightarrow> 0 \<le> m \<and> 0 \<le> k)"
  "\<exists>r out. jio_report_tail_waste m k t = Ok (r, out) \<and> (r = 0 \<longleftrightarrow> 0 \<le> m \<and> 0 \<le> k)"
  "\<exists>r out. jio_report_entry_arrays m k e = Ok (r, out) \<and> (r = 0 \<longleftrightarrow> 0 \<le> m \<and> 0 \<le> k)"
  using print_stats_Ok [of "snd e"]
  by (auto simp: jio_report_entry_arrays_def jio_report_usage_def usage_lines_def jio_report_tail_waste_def tail_waste_totals_def
    humane_bytes_str res_concat_Ok Let_def)

lemma sub_codes:
  "jio_report_layout m k = 0 \<longleftrightarrow> 0 \<le> m \<and> 0 \<le> k"
  "jio_verify_hashed_objects m k = 0 \<longleftrightarrow> 0 \<le> m \<and> 0 \<le> k"
  by (auto simp: jio_report_layout_def jio_verify_hashed_objects_def)

definition report_names :: "string set" where
  "report_names = {''entry-arrays'', ''layout'', ''tail-waste'', ''usage''}"

lemma exits_report:
  "exits (main_report env sub) success \<longleftrightarrow>
     ((sub \<in> report_names \<and> runs env \<and> me_run env = 0) \<longleftrightarrow> success)"
proof -
  let ?m = "me_machid env" and ?k = "me_journals env"
  obtain r1 o1 where r1: "jio_report_usage ?m ?k (me_usage env) = Ok (r1, o1)" "r1 = 0 \<longleftrightarrow> runs env"
    unfolding runs_def using sub_results(1) by blast
  obtain r2 o2 where r2: "jio_report_tail_waste ?m ?k (me_tail env) = Ok (r2, o2)" "r2 = 0 \<longleftrightarrow> runs env"
    unfolding runs_def using sub_results(2) by blast
  obtain r3 o3 where r3: "jio_report_entry_arrays ?m ?k (me_entry_arrays env) = Ok (r3, o3)" "r3 = 0 \<longleftrightarrow> runs env"
    unfolding runs_def using sub_results(3) by blast
  show ?thesis
    unfolding main_report_def Let_def report_names_def
    by (simp add: exits_sub [OF refl] exits_sub [OF r1(1)] exits_sub [OF r2(1)] exits_sub [OF r3(1)] r1(2) r2(2) r3(2) sub_codes
      flip: runs_def)
qed

lemma exits_reclaim: "exits (main_sub env doing (Ok jio_reclaim_tail_waste)) success \<longleftrightarrow> \<not> success"
  by (simp add: jio_reclaim_tail_waste_def exits_sub [OF refl] ENOTSUP_def)

lemma exits_verify:
  "exits (main_sub env doing (Ok (jio_verify_hashed_objects (me_machid env) (me_journals env), out))) success \<longleftrightarrow>
     ((runs env \<and> me_run env = 0) \<longleftrightarrow> success)"
  by (simp add: exits_sub [OF refl] sub_codes flip: runs_def)

text \<open>C34: Every call returns a status, and it is 0 exactly for a call without arguments, and, with io_uring
  available, for a command that only prints, a command whose subcommand is missing, and a report or a
  verification for which getting the machine id, running the journals' I/O and the last \<open>iou_run\<close>
  succeed; reclaiming never gives 0, being disabled.\<close>

theorem main_exit_zero_iff:
  "exits (main env argv) (length argv < 2 \<or> me_iou env \<and>
     (argv ! 1 \<in> {''help'', ''license'', ''version''} \<or>
      argv ! 1 \<in> {''reclaim'', ''report'', ''verify''} \<and> length argv = 2 \<or>
      2 < length argv \<and> runs env \<and> me_run env = 0 \<and>
        (argv ! 1 = ''report'' \<and> argv ! 2 \<in> report_names \<or>
         argv ! 1 = ''verify'' \<and> argv ! 2 = ''hashed-objects'')))"
proof (cases "length argv < 2 \<or> \<not> me_iou env")
  case True
  then show ?thesis by (auto simp: main_def)
next
  case False
  then have len: "length argv < 3 \<longleftrightarrow> length argv = 2" "2 < length argv \<longleftrightarrow> length argv \<noteq> 2"
    "\<not> length argv < 2" "me_iou env" by auto
  show ?thesis
    unfolding main_def Let_def using len
    by (simp add: exits_report exits_reclaim exits_verify) blast
qed

end
