(* ===== verification/Readfile.thy ===== *)
theory Readfile
  imports Jio_Prelude
begin

text \<open>
  \<^verbatim>\<open>readfile.c\<close>, \<^verbatim>\<open>machid.c\<close> and \<^verbatim>\<open>bootid.c\<close>: a file read into a buffer, and the machine and boot ids
  taken from it.  The completions of the open and the read are arguments; the thunks that wait for
  them are run in order.  A \<open>char\<close> array is a list of bytes, a C string in it ends at its first 0.
\<close>

section \<open>Reading a file\<close>

record file_env =
  fe_op_new :: "bool \<times> bool" \<comment> \<open>the two \<open>iou_op_new\<close> succeed\<close>
  fe_open :: int \<comment> \<open>result of the open\<close>
  fe_read :: "nat \<Rightarrow> int \<times> bytes" \<comment> \<open>result of a read of so many bytes at 0, bytes transferred\<close>
  fe_strdup :: bool

definition read_done :: "int \<Rightarrow> bytes \<Rightarrow> (bytes \<times> u64) res" where
  "read_done result buf = (if result < 0 then Fail (Errno result) else Ok (buf, word_of_int result))"

definition open_done :: "file_env \<Rightarrow> int \<Rightarrow> bytes \<Rightarrow> u64 \<Rightarrow> (bytes \<times> u64) res" where
  "open_done env result buf sz =
     (if result < 0 then Fail (Errno result)
      else if \<not> snd (fe_op_new env) then Fail (Errno (- ENOMEM))
      else case fe_read env (unat sz) of (r, bs) \<Rightarrow> read_done r (bs @ drop (length bs) buf))"

definition readfile :: "file_env \<Rightarrow> bytes \<Rightarrow> u64 \<Rightarrow> (bytes \<times> u64) res" where
  "readfile env buf sz =
     (if \<not> fst (fe_op_new env) then Fail (Errno (- ENOMEM))
      else open_done env (fe_open env) buf sz)"

text \<open>The documented behaviour of opening and reading a file of this content.\<close>

definition serves :: "file_env \<Rightarrow> bytes \<Rightarrow> bool" where
  "serves env content \<longleftrightarrow> fe_op_new env = (True, True) \<and> 0 \<le> fe_open env \<and>
     (\<forall>n. fe_read env n = (int (length (take n content)), take n content)) \<and> fe_strdup env"

section \<open>Ids\<close>

definition strdup :: "bool \<Rightarrow> bytes \<Rightarrow> bytes res" where
  "strdup ok buf =
     (if 0 \<notin> set buf then Fail OutOfBounds
      else if \<not> ok then Fail (Errno (- ENOMEM))
      else Ok (takeWhile (\<lambda>c. c \<noteq> 0) buf))"

definition have_machid :: "file_env \<Rightarrow> bytes \<Rightarrow> u64 \<Rightarrow> bytes res" where
  "have_machid env buf sz = res_bind (arr_upd buf (unat (sz - 1)) (\<lambda>_. 0)) (strdup (fe_strdup env))"

text \<open>\<open>buf\<close> is the memory of the allocated closure, 4096 bytes.\<close>

definition ID_BUF_SIZE :: nat where "ID_BUF_SIZE = 4096"

definition machid_get :: "file_env \<Rightarrow> bytes \<Rightarrow> bytes res" where
  "machid_get env buf =
     res_bind (readfile env buf (of_nat ID_BUF_SIZE)) (\<lambda>(buf', len). have_machid env buf' len)"

text \<open>The two pointers of \<open>dehyphen\<close> are indices into the array.\<close>

function dehyphen_loop :: "bytes \<Rightarrow> nat \<Rightarrow> nat \<Rightarrow> (bytes \<times> nat) res" where
  "dehyphen_loop buf dest str =
     res_bind (arr_get buf str) (\<lambda>c.
       if c = 0 then Ok (buf, dest)
       else if c = 45 then dehyphen_loop buf dest (str + 1)
       else res_bind (arr_upd buf dest (\<lambda>_. c)) (\<lambda>buf'. dehyphen_loop buf' (dest + 1) (str + 1)))"
  by pat_completeness auto

termination
  by (relation "measure (\<lambda>(buf, dest, str). length buf - str)") (auto simp: res_elims)

declare dehyphen_loop.simps [simp del]

definition dehyphen :: "bytes \<Rightarrow> bytes res" where
  "dehyphen str = res_bind (dehyphen_loop str 0 0) (\<lambda>(buf, dest). arr_upd buf dest (\<lambda>_. 0))"

definition have_bootid :: "file_env \<Rightarrow> bytes \<Rightarrow> u64 \<Rightarrow> bytes res" where
  "have_bootid env buf sz =
     res_bind (arr_upd buf (unat (sz - 1)) (\<lambda>_. 0)) (\<lambda>buf'.
       res_bind (dehyphen buf') (strdup (fe_strdup env)))"

definition bootid_get :: "file_env \<Rightarrow> bytes \<Rightarrow> bytes res" where
  "bootid_get env buf =
     res_bind (readfile env buf (of_nat ID_BUF_SIZE)) (\<lambda>(buf', len). have_bootid env buf' len)"

section \<open>The loop of \<open>dehyphen\<close>\<close>

text \<open>The characters still to come are not overwritten: \<open>dest\<close> never passes \<open>str\<close>.\<close>

lemma dehyphen_loop_filters:
  assumes "drop str buf = s @ 0 # rest" and "0 \<notin> set s" and "dest \<le> str"
  shows "\<exists>buf'. dehyphen_loop buf dest str = Ok (buf', dest + length (filter (\<lambda>c. c \<noteq> 45) s)) \<and>
    length buf' = length buf \<and>
    take (dest + length (filter (\<lambda>c. c \<noteq> 45) s)) buf' = take dest buf @ filter (\<lambda>c. c \<noteq> 45) s"
  using assms
proof (induction s arbitrary: buf dest str)
  case Nil
  then have "str < length buf" "buf ! str = 0"
    by (metis append_Nil drop_all list.distinct(1) not_less, metis append_Nil nth_via_drop)
  then show ?case by (simp add: dehyphen_loop.simps)
next
  case (Cons c s)
  then have str: "str < length buf" "buf ! str = c"
    by (metis append_Cons drop_all list.distinct(1) not_less, metis append_Cons nth_via_drop)
  have nxt: "drop (str + 1) buf = s @ 0 # rest"
    using Cons.prems(1) by (metis Suc_eq_plus1 append_Cons drop_Suc drop_tl list.sel(3) tl_drop)
  have c: "c \<noteq> 0" "0 \<notin> set s" using Cons.prems(2) by auto
  show ?case
  proof (cases "c = 45")
    case True
    then have "dehyphen_loop buf dest str = dehyphen_loop buf dest (str + 1)"
      using str c by (subst dehyphen_loop.simps) simp
    then show ?thesis using Cons.IH [OF nxt c(2)] Cons.prems(3) True by simp
  next
    case False
    let ?buf = "buf[dest := c]"
    have step: "dehyphen_loop buf dest str = dehyphen_loop ?buf (dest + 1) (str + 1)"
      using str c False Cons.prems(3) by (subst dehyphen_loop.simps) simp
    have "drop (str + 1) ?buf = s @ 0 # rest" using nxt Cons.prems(3) by simp
    from Cons.IH [OF this c(2), of "dest + 1"] Cons.prems(3) obtain buf' where
      "dehyphen_loop ?buf (dest + 1) (str + 1) = Ok (buf', dest + 1 + length (filter (\<lambda>c. c \<noteq> 45) s))"
      "length buf' = length buf"
      "take (dest + 1 + length (filter (\<lambda>c. c \<noteq> 45) s)) buf' = take (dest + 1) ?buf @ filter (\<lambda>c. c \<noteq> 45) s"
      by auto
    moreover have "take (dest + 1) ?buf = take dest buf @ [c]"
      using str Cons.prems(3) by (simp add: take_Suc_conv_app_nth)
    ultimately show ?thesis using step False by auto
  qed
qed

lemma dehyphen_string:
  assumes "buf = s @ 0 # rest" and "0 \<notin> set s"
  shows "\<exists>rest'. dehyphen buf = Ok (filter (\<lambda>c. c \<noteq> 45) s @ 0 # rest')"
proof -
  let ?n = "length (filter (\<lambda>c. c \<noteq> 45) s)"
  obtain buf' where b: "dehyphen_loop buf 0 0 = Ok (buf', ?n)" "length buf' = length buf"
    "take ?n buf' = filter (\<lambda>c. c \<noteq> 45) s"
    using dehyphen_loop_filters [of 0 buf s rest 0] assms by auto
  have n: "?n < length buf'"
    using b(2) assms(1) le_less_trans [OF length_filter_le [of "\<lambda>c. c \<noteq> 45" s], of "length buf'"] by simp
  then have "buf'[?n := 0] = filter (\<lambda>c. c \<noteq> 45) s @ 0 # drop (Suc ?n) buf'"
    using b(3) by (simp add: upd_conv_take_nth_drop)
  then show ?thesis using b(1) n by (simp add: dehyphen_def)
qed

section \<open>Properties\<close>

lemma strdup_string: "0 \<notin> set s \<Longrightarrow> strdup True (s @ 0 # rest) = Ok s"
  by (simp add: strdup_def takeWhile_append2 takeWhile_tail) (metis takeWhile_append2 takeWhile.simps(2))

lemma update_last_append: "xs \<noteq> [] \<Longrightarrow> (xs @ ys)[length xs - 1 := x] = butlast xs @ x # ys"
  by (cases xs rule: rev_cases) simp_all

text \<open>What the buffer holds once the last byte read is replaced: the bytes read without the last.\<close>

lemma readfile_terminated:
  assumes "serves env content" and "length buf = ID_BUF_SIZE" and "content \<noteq> []"
  obtains buf' len rest where "readfile env buf (of_nat ID_BUF_SIZE) = Ok (buf', len)"
    and "arr_upd buf' (unat (len - 1)) (\<lambda>_. 0) = Ok (butlast (take ID_BUF_SIZE content) @ 0 # rest)"
proof -
  let ?bs = "take ID_BUF_SIZE content"
  let ?buf = "?bs @ drop (length ?bs) buf"
  have sz: "unat (of_nat ID_BUF_SIZE :: u64) = ID_BUF_SIZE" by (simp add: ID_BUF_SIZE_def)
  have rd: "readfile env buf (of_nat ID_BUF_SIZE) = Ok (?buf, of_nat (length ?bs))"
    using assms(1) by (simp add: readfile_def open_done_def read_done_def serves_def sz)
  have ne: "?bs \<noteq> []" "0 < length ?bs" using assms(3) by (simp_all add: ID_BUF_SIZE_def)
  have le: "length ?bs \<le> 4096" by (simp add: ID_BUF_SIZE_def)
  have len: "unat (of_nat (length ?bs) - 1 :: u64) = length ?bs - 1"
  proof -
    have "unat (of_nat (length ?bs) :: u64) = length ?bs"
      using take_bit_nat_eq_self [of "length ?bs" 64] le by (simp add: unsigned_of_nat)
    moreover from this have "1 \<le> (of_nat (length ?bs) :: u64)"
      using ne(2) by (simp add: word_le_nat_alt Suc_le_eq)
    ultimately show ?thesis by (simp add: unat_sub)
  qed
  have "?buf[length ?bs - 1 := 0] = butlast ?bs @ 0 # drop (length ?bs) buf"
    by (rule update_last_append [OF ne(1)])
  moreover have "length ?bs - 1 < length ?buf" unfolding length_append using ne(2) by linarith
  ultimately have "arr_upd ?buf (unat (of_nat (length ?bs) - 1 :: u64)) (\<lambda>_. 0) =
      Ok (butlast ?bs @ 0 # drop (length ?bs) buf)"
    unfolding len by (simp only: arr_upd_in)
  with rd show ?thesis by (rule that)
qed

lemma machid_id:
  assumes "serves env content" and "length buf = ID_BUF_SIZE" and "content \<noteq> []"
    and "butlast (take ID_BUF_SIZE content) = s @ t" and "0 \<notin> set s" and "t = [] \<or> hd t = 0"
  shows "machid_get env buf = Ok s"
proof -
  obtain buf' len rest where r: "readfile env buf (of_nat ID_BUF_SIZE) = Ok (buf', len)"
    "arr_upd buf' (unat (len - 1)) (\<lambda>_. 0) = Ok (butlast (take ID_BUF_SIZE content) @ 0 # rest)"
    by (rule readfile_terminated [OF assms(1-3)])
  obtain rest' where "butlast (take ID_BUF_SIZE content) @ 0 # rest = s @ 0 # rest'"
    using assms(4,6) by (cases t) auto
  then show ?thesis
    using r assms(1,5) by (simp add: machid_get_def have_machid_def serves_def strdup_string)
qed

text \<open>From an id file that is not empty, in a buffer holding any earlier bytes, \<open>machid_get\<close> gives the
  bytes of its first 4096, without the last one read, up to the first NUL: for an id ended by a
  newline, the id.\<close>

lemma machid_reads_id:
  assumes "serves env content" and "length buf = ID_BUF_SIZE" and "content \<noteq> []"
    and "butlast (take ID_BUF_SIZE content) = s @ t" and "0 \<notin> set s" and "t = [] \<or> hd t = 0"
  shows "machid_get env buf = Ok s"
  by (rule machid_id [OF assms])

definition text_env :: "bytes \<Rightarrow> file_env" where
  "text_env content = \<lparr>fe_op_new = (True, True), fe_open = 3,
     fe_read = (\<lambda>n. (int (length (take n content)), take n content)), fe_strdup = True\<rparr>"

lemma text_env_serves: "serves (text_env content) content"
  by (simp add: serves_def text_env_def)

lemma machid_reads_id_witness:
  "machid_get (text_env [0x33, 0x2d, 0x61, 10]) (replicate ID_BUF_SIZE 7) = Ok [0x33, 0x2d, 0x61]"
  by (rule machid_reads_id [OF text_env_serves, where t = "[]"]) (simp_all add: ID_BUF_SIZE_def)

text \<open>C26: \<open>bootid_get\<close> gives the same bytes without their hyphens, in their order: the removal in place
  loses and repeats nothing.\<close>

theorem bootid_reads_dehyphened:
  assumes "serves env content" and "length buf = ID_BUF_SIZE" and "content \<noteq> []"
    and "butlast (take ID_BUF_SIZE content) = s @ t" and "0 \<notin> set s" and "t = [] \<or> hd t = 0"
  shows "bootid_get env buf = Ok (filter (\<lambda>c. c \<noteq> 45) s)"
proof -
  obtain buf' len rest where r: "readfile env buf (of_nat ID_BUF_SIZE) = Ok (buf', len)"
    "arr_upd buf' (unat (len - 1)) (\<lambda>_. 0) = Ok (butlast (take ID_BUF_SIZE content) @ 0 # rest)"
    by (rule readfile_terminated [OF assms(1-3)])
  obtain rest' where "butlast (take ID_BUF_SIZE content) @ 0 # rest = s @ 0 # rest'"
    using assms(4,6) by (cases t) auto
  moreover obtain rest'' where "dehyphen (s @ 0 # rest') = Ok (filter (\<lambda>c. c \<noteq> 45) s @ 0 # rest'')"
    using dehyphen_string [OF refl assms(5)] by blast
  ultimately show ?thesis
    using r assms(1,5) by (simp add: bootid_get_def have_bootid_def serves_def strdup_string)
qed

theorem bootid_reads_dehyphened_witness:
  "bootid_get (text_env [0x33, 0x2d, 0x61, 0x2d, 0x2d, 0x62, 10]) (replicate ID_BUF_SIZE 45) = Ok [0x33, 0x61, 0x62]"
  using bootid_reads_dehyphened [OF text_env_serves, of "replicate ID_BUF_SIZE 45"
      "[0x33, 0x2d, 0x61, 0x2d, 0x2d, 0x62, 10]" "[0x33, 0x2d, 0x61, 0x2d, 0x2d, 0x62]" "[]"]
  by (simp add: ID_BUF_SIZE_def)

text \<open>C40: An empty id file makes both write before their buffer: the last byte read is taken to exist.\<close>

theorem empty_id_file_overruns:
  assumes "serves env []" and "length buf = ID_BUF_SIZE"
  shows "machid_get env buf = Fail OutOfBounds \<and> bootid_get env buf = Fail OutOfBounds"
proof -
  have "readfile env buf (of_nat ID_BUF_SIZE) = Ok (buf, 0)"
    using assms(1) by (simp add: readfile_def open_done_def read_done_def serves_def)
  moreover have "arr_upd buf (unat (0 - 1 :: u64)) (\<lambda>_. 0) = Fail OutOfBounds"
    by (rule arr_upd_out) (simp add: assms(2) ID_BUF_SIZE_def unsigned_minus_1_eq_mask mask_eq_exp_minus_1)
  ultimately show ?thesis
    by (simp add: machid_get_def have_machid_def bootid_get_def have_bootid_def)
qed

theorem empty_id_file_overruns_witness:
  "machid_get (text_env []) (replicate ID_BUF_SIZE 0) = Fail OutOfBounds"
  using empty_id_file_overruns [OF text_env_serves, of "replicate ID_BUF_SIZE 0"] by simp

end
