(* ===== verification/Subcommand_Run.thy ===== *)
theory Subcommand_Run
  imports Readfile Printf Journal_Chain
begin

text \<open>
  What every subcommand does from its first thunk to the end of \<open>iou_run\<close>: \<open>machid_get\<close> reads the machine
  id, \<open>journals_open\<close> opens the two directories and lists the second, the journals are opened with
  completions in any order, \<open>journals_for_each\<close> begins a chain for each that is open, and the chains run to
  their ends.  What the machine answers is in one record; what a subcommand begins and does in a step is
  a parameter.
\<close>

section \<open>The machine and the run\<close>

record machine =
  mc_id :: file_env
  mc_id_buf :: bytes \<comment> \<open>what the buffer for the id holds before\<close>
  mc_op_new :: "bool \<times> bool" \<comment> \<open>\<open>iou_op_new\<close> in \<open>journals_open\<close> and in \<open>var_opened\<close>\<close>
  mc_openat :: "open_req \<Rightarrow> int"
  mc_dir :: dir_env
  mc_reg :: reg_env

definition machid_dir_req :: "machine \<Rightarrow> bytes \<Rightarrow> open_req res" where
  "machid_dir_req m machid =
     res_bind (journals_open (fst (mc_op_new m))) (\<lambda>req.
       var_opened (mc_openat m req) (snd (mc_op_new m)) (chars machid))"

definition journals_found :: "machine \<Rightarrow> int \<Rightarrow> (int \<times> (journals \<times> open_req list) option) res" where
  "journals_found m flags =
     res_bind (machid_get (mc_id m) (mc_id_buf m)) (\<lambda>machid.
     res_bind (machid_dir_req m machid) (\<lambda>req. get_journals (mc_openat m req) (mc_dir m) flags))"

text \<open>The queued opens with their results.\<close>

definition open_results :: "machine \<Rightarrow> open_req list \<Rightarrow> (nat \<times> int) list" where
  "open_results m reqs = map (\<lambda>i. (i, mc_openat m (reqs ! i))) [0..<length reqs]"

text \<open>
  What the machine lets a subcommand begin, with a state \<open>t\<close> that its chains share: the failure that ends it
  before, or the chains, of which there are none when no journals were stored; and what is printed on standard error by then.
\<close>

inductive subcommand_begins ::
    "machine \<Rightarrow> int \<Rightarrow> (journal, 'p list \<times> 't) closure \<Rightarrow> 't \<Rightarrow> ('p list \<times> 't) res \<Rightarrow> string \<Rightarrow> bool"
  for m flags launch t where
  not_found: "journals_found m flags = Fail e \<Longrightarrow> subcommand_begins m flags launch t (Fail e) []"
| none_stored: "journals_found m flags = Ok (r, None) \<Longrightarrow> subcommand_begins m flags launch t (Ok ([], t)) []"
| not_opened: "journals_found m flags = Ok (r, Some (j, reqs)) \<Longrightarrow> mset cs = mset (open_results m reqs) \<Longrightarrow>
     complete_opens (mc_reg m) cs j = (err, Fail e) \<Longrightarrow> subcommand_begins m flags launch t (Fail e) err"
| opened: "journals_found m flags = Ok (r, Some (j, reqs)) \<Longrightarrow> mset cs = mset (open_results m reqs) \<Longrightarrow>
     complete_opens (mc_reg m) cs j = (err, Ok (j', ds)) \<Longrightarrow>
     subcommand_begins m flags launch t (journals_for_each j' launch ([], t)) err"

text \<open>
  What its run gives: the state its chains share in the end, or the failure that \<open>iou_run\<close> returns, and all that is
  printed on standard error until then; \<open>prints\<close> is what a step prints there.
\<close>

inductive subcommand ::
    "machine \<Rightarrow> int \<Rightarrow> (journal, 'p list \<times> 't) closure \<Rightarrow> ('p, 't) chain \<Rightarrow> ('p \<Rightarrow> bool) \<Rightarrow> ('p \<Rightarrow> string)
       \<Rightarrow> 't \<Rightarrow> 't res \<Rightarrow> string \<Rightarrow> bool"
  for m flags launch step finished prints t where
  not_begun: "subcommand_begins m flags launch t (Fail e) err \<Longrightarrow>
     subcommand m flags launch step finished prints t (Fail e) err"
| begun: "subcommand_begins m flags launch t (Ok s) err \<Longrightarrow> run_prints step finished prints s x err' \<Longrightarrow>
     subcommand m flags launch step finished prints t (res_map snd x) (err @ err')"

inductive_cases subcommandE: "subcommand m flags launch step finished prints t r err"

lemma not_found_begins:
  "journals_found m flags = Fail e \<Longrightarrow> subcommand_begins m flags launch t x err \<longleftrightarrow> x = Fail e \<and> err = []"
  by (auto elim: subcommand_begins.cases intro: subcommand_begins.not_found)

lemma none_stored_begins:
  "journals_found m flags = Ok (k, None) \<Longrightarrow> subcommand_begins m flags launch t x err \<longleftrightarrow> x = Ok ([], t) \<and> err = []"
  by (auto elim: subcommand_begins.cases intro: subcommand_begins.none_stored)

section \<open>A machine with journals\<close>

text \<open>
  The id file can be read and holds a line, the directories can be opened and read, and every journal
  can be opened, or its open is refused; \<open>fds\<close> are the results of the opens.
\<close>

definition machine_ok :: "machine \<Rightarrow> int \<Rightarrow> string list \<Rightarrow> (nat \<Rightarrow> int) \<Rightarrow> bool" where
  "machine_ok m flags names fds \<longleftrightarrow>
     (\<exists>content s t. serves (mc_id m) content \<and> content \<noteq> [] \<and> butlast (take ID_BUF_SIZE content) = s @ t \<and>
        0 \<notin> set s \<and> (t = [] \<or> hd t = 0) \<and>
        (\<forall>req. machid_dir_req m s = Ok req \<longrightarrow> 0 \<le> mc_openat m req)) \<and>
     length (mc_id_buf m) = ID_BUF_SIZE \<and> mc_op_new m = (True, True) \<and>
     0 \<le> mc_openat m \<lparr>at_fd = 0, at_path = PERSISTENT_PATH, at_flags = dir_flags\<rparr> \<and>
     de_fdopendir (mc_dir m) = None \<and> de_second (mc_dir m) = de_first (mc_dir m) \<and>
     names = filter (\<lambda>d. \<not> dot_entry d) (de_first (mc_dir m)) \<and> names \<noteq> [] \<and>
     de_calloc (mc_dir m) \<and> 0 \<le> de_resize (mc_dir m) \<and> (\<forall>i. de_op_new (mc_dir m) i) \<and> reg_ok (mc_reg m) \<and>
     (\<forall>i<length names. tolerated (fds i) \<and>
        mc_openat m \<lparr>at_fd = de_dup (mc_dir m), at_path = names ! i, at_flags = flags\<rparr> = fds i)"

definition listed :: "machine \<Rightarrow> string list \<Rightarrow> journals" where
  "listed m names = \<lparr>dirfd = de_dup (mc_dir m), n_journals = length names, n_allocated = length names, n_opened = 0,
     js = map calloc_journal names\<rparr>"

lemma machine_finds:
  assumes "machine_ok m flags names fds"
  shows "journals_found m flags = Ok (0, Some (listed m names,
    map (\<lambda>name. \<lparr>at_fd = de_dup (mc_dir m), at_path = name, at_flags = flags\<rparr>) names))"
proof -
  obtain content s t where id: "serves (mc_id m) content" "content \<noteq> []" "butlast (take ID_BUF_SIZE content) = s @ t"
    "0 \<notin> set s" "t = [] \<or> hd t = 0" "\<forall>req. machid_dir_req m s = Ok req \<longrightarrow> 0 \<le> mc_openat m req"
    and buf: "length (mc_id_buf m) = ID_BUF_SIZE"
    using assms unfolding machine_ok_def by blast
  have machid: "machid_get (mc_id m) (mc_id_buf m) = Ok s"
    by (rule machid_id [OF id(1) buf id(2-5)])
  have op: "mc_op_new m = (True, True)" "0 \<le> mc_openat m \<lparr>at_fd = 0, at_path = PERSISTENT_PATH, at_flags = dir_flags\<rparr>"
    using assms unfolding machine_ok_def by blast+
  then have "\<exists>req. machid_dir_req m s = Ok req"
    by (simp add: machid_dir_req_def journals_open_def var_opened_def)
  then obtain req where req: "machid_dir_req m s = Ok req" "0 \<le> mc_openat m req" using id(6) by blast
  have "get_journals (mc_openat m req) (mc_dir m) flags = Ok (0, Some (listed m names,
      map (\<lambda>name. \<lparr>at_fd = de_dup (mc_dir m), at_path = name, at_flags = flags\<rparr>) names))"
    unfolding listed_def
    by (rule get_journals_listing [OF req(2)]) (use assms in \<open>unfold machine_ok_def, blast+\<close>)
  then show ?thesis using machid req(1) by (simp add: journals_found_def)
qed

text \<open>The journals whose open succeeded, in the directory's order.\<close>

definition open_journals :: "string list \<Rightarrow> (nat \<Rightarrow> int) \<Rightarrow> journal list" where
  "open_journals names fds = filter (\<lambda>jr. 0 \<le> j_fd jr) (opened_journals names fds)"

text \<open>The lines on standard error for those that were refused, in some order.\<close>

definition refused :: "string list \<Rightarrow> (nat \<Rightarrow> int) \<Rightarrow> string list" where
  "refused names fds = map (\<lambda>i. names ! i) (filter (\<lambda>i. fds i < 0) [0..<length names])"

definition refused_text :: "string list \<Rightarrow> (nat \<Rightarrow> int) \<Rightarrow> string \<Rightarrow> bool" where
  "refused_text names fds err \<longleftrightarrow> (\<exists>order. mset order = mset (refused names fds) \<and> err = concat (map denied_line order))"

lemma denied_lines_refused:
  assumes "mset cs = mset (map (\<lambda>i. (i, fds i)) [0..<length names])"
  shows "refused_text names fds (denied_lines names cs)"
proof -
  let ?order = "map (\<lambda>(i, r). names ! i) (filter (\<lambda>(i, r). r < 0) cs)"
  have "denied_lines names l = concat (map denied_line (map (\<lambda>(i, r). names ! i) (filter (\<lambda>(i, r). r < 0) l)))" for l
    by (induction l) (auto simp: denied_lines_def)
  moreover have "mset ?order = mset (refused names fds)"
  proof -
    have "mset ?order = image_mset (\<lambda>(i, r). names ! i) (filter_mset (\<lambda>(i, r). r < 0) (mset cs))"
      by (simp add: mset_filter)
    also have "\<dots> = mset (map (\<lambda>(i, r). names ! i) (filter (\<lambda>(i, r). r < 0) (map (\<lambda>i. (i, fds i)) [0..<length names])))"
      unfolding assms by (simp add: mset_filter)
    finally show ?thesis by (simp add: refused_def filter_map comp_def)
  qed
  ultimately show ?thesis unfolding refused_text_def by blast
qed

lemma open_journals_coherent:
  assumes "jr \<in> set (open_journals names fds)"
  shows "coherent content jr" and "j_idx jr < length names" and "jr = opened_journals names fds ! j_idx jr"
    and "j_name jr = names ! j_idx jr" and "j_fd jr = fds (j_idx jr)" and "0 \<le> j_fd jr"
proof -
  obtain i where i: "i < length names" "jr = opened_journals names fds ! i" "0 \<le> j_fd jr"
    using assms by (auto simp: open_journals_def in_set_conv_nth)
  note nth = opened_journals_nth [OF i(1), of fds, folded i(2)]
  then have "0 \<le> fds i" using i(3) by (auto split: if_splits)
  then show "coherent content jr" "j_idx jr < length names" "jr = opened_journals names fds ! j_idx jr"
    "j_name jr = names ! j_idx jr" "j_fd jr = fds (j_idx jr)" "0 \<le> j_fd jr"
    using nth i by auto
qed

lemma machine_opens:
  assumes "machine_ok m flags names fds" and "mset cs = mset (open_results m
    (map (\<lambda>name. \<lparr>at_fd = de_dup (mc_dir m), at_path = name, at_flags = flags\<rparr>) names))"
  obtains err j' ds where "complete_opens (mc_reg m) cs (listed m names) = (err, Ok (j', ds))" and "refused_text names fds err"
    and "\<And>closure s. journals_for_each j' closure s = dispatch_all closure (open_journals names fds) s"
proof -
  let ?rs = "map (\<lambda>i. (i, fds i)) [0..<length names]"
  have "\<forall>i<length names. mc_openat m \<lparr>at_fd = de_dup (mc_dir m), at_path = names ! i, at_flags = flags\<rparr> = fds i"
    using assms(1) unfolding machine_ok_def by blast
  then have "open_results m (map (\<lambda>name. \<lparr>at_fd = de_dup (mc_dir m), at_path = name, at_flags = flags\<rparr>) names) = ?rs"
    by (simp add: open_results_def)
  then have cs: "mset cs = mset ?rs" using assms(2) by simp
  then have set: "set cs = set ?rs" by (rule mset_eq_setD)
  have "mset (map fst cs) = mset (map fst ?rs)" unfolding mset_map cs ..
  then have "mset (map fst cs) = mset [0..<length names]" by (simp only: map_map comp_def fst_conv map_ident)
  then have "distinct (map fst cs)" by (metis distinct_upt mset_eq_imp_distinct_iff)
  moreover have "fst ` set cs = {..<length names}" unfolding set by force
  moreover have "\<forall>(i, r)\<in>set cs. r = fds i" unfolding set by auto
  ultimately have "complete_opens (mc_reg m) cs (listed m names) = (denied_lines names cs,
      Ok ((listed m names)\<lparr>n_opened := length names, js := opened_journals names fds\<rparr>,
          replicate (length names - 1) False @ [True]))"
    by (intro opened_journals_complete) (use assms(1) in \<open>auto simp: machine_ok_def listed_def\<close>)
  then show ?thesis
    by (rule that [OF _ denied_lines_refused [OF cs]]) (simp add: journals_for_each_filter open_journals_def listed_def)
qed

text \<open>On such a machine the chains are begun for the open journals, with a line for each of the others.\<close>

lemma machine_begins:
  assumes "machine_ok m flags names fds"
  shows "subcommand_begins m flags launch t x err \<Longrightarrow>
      x = dispatch_all launch (open_journals names fds) ([], t) \<and> refused_text names fds err"
    and "\<exists>err. subcommand_begins m flags launch t (dispatch_all launch (open_journals names fds) ([], t)) err"
proof -
  let ?reqs = "map (\<lambda>name. \<lparr>at_fd = de_dup (mc_dir m), at_path = name, at_flags = flags\<rparr>) names"
  note found = machine_finds [OF assms]
  have opens: "\<exists>err j' ds. complete_opens (mc_reg m) cs (listed m names) = (err, Ok (j', ds)) \<and> refused_text names fds err \<and>
      (\<forall>s. journals_for_each j' launch s = dispatch_all launch (open_journals names fds) s)"
    if "mset cs = mset (open_results m ?reqs)" for cs
    using machine_opens [OF assms that] by metis
  show "x = dispatch_all launch (open_journals names fds) ([], t) \<and> refused_text names fds err"
    if "subcommand_begins m flags launch t x err"
    using that
  proof cases
    case not_opened
    then show ?thesis using found opens by fastforce
  next
    case opened
    then show ?thesis using found opens by fastforce
  qed (use found in simp_all)
  obtain err j' ds where "complete_opens (mc_reg m) (open_results m ?reqs) (listed m names) = (err, Ok (j', ds))"
    "journals_for_each j' launch ([], t) = dispatch_all launch (open_journals names fds) ([], t)" using opens [OF refl] by blast
  then show "\<exists>err. subcommand_begins m flags launch t (dispatch_all launch (open_journals names fds) ([], t)) err"
    using subcommand_begins.opened [OF found refl] by metis
qed

lemma subcommand_runs:
  assumes "machine_ok m flags names fds" and "dispatch_all launch (open_journals names fds) ([], t) = Ok s"
  shows "subcommand m flags launch step finished prints t r err \<Longrightarrow>
      \<exists>x err1 err2. run_prints step finished prints s x err2 \<and> r = res_map snd x \<and> refused_text names fds err1 \<and> err = err1 @ err2"
    and "run_ends step finished s x \<Longrightarrow> \<exists>err. subcommand m flags launch step finished prints t (res_map snd x) err"
proof -
  show "\<exists>x err1 err2. run_prints step finished prints s x err2 \<and> r = res_map snd x \<and> refused_text names fds err1 \<and> err = err1 @ err2"
    if "subcommand m flags launch step finished prints t r err"
    using that
  proof cases
    case not_begun
    then show ?thesis using machine_begins(1) [OF assms(1) not_begun(2)] assms(2) by simp
  next
    case (begun s' err1 x err2)
    then show ?thesis using machine_begins(1) [OF assms(1) begun(3)] assms(2) by auto
  qed
  show "\<exists>err. subcommand m flags launch step finished prints t (res_map snd x) err" if "run_ends step finished s x"
    using machine_begins(2) [OF assms(1), of launch t] run_ends_prints [OF that, of prints] assms(2) by (metis subcommand.begun)
qed

end
