(* ===== verification/Verify_Output.thy ===== *)
theory Verify_Output
  imports Verify_Schedule
begin

text \<open>
  What a verification that fails leaves on standard output: the lines of the journals that had ended, then
  the text of the mismatch that ended the run.
\<close>

section \<open>Output of a failing run\<close>

text \<open>What a chain prints in a step that fails.\<close>

definition verify_prints :: "verify_env \<Rightarrow> host \<Rightarrow> verify_state proc \<Rightarrow> string" where
  "verify_prints env h p =
     (case pr_phase p of
        Dispatching header \<Rightarrow>
          if it_offset (pr_iter p) = 0 then []
          else verify_step_prints env (read_chain h) header (pr_iter p) (pr_bufs p) (pr_data p)
      | _ \<Rightarrow> [])"

text \<open>A run that fails: with what, what is on standard output then, and what was printed on standard error.\<close>

inductive verify_fails ::
  "verify_env \<Rightarrow> host \<Rightarrow> verify_state proc list \<times> string \<Rightarrow> fault \<Rightarrow> string \<Rightarrow> string \<Rightarrow> bool" for env h where
  here: "k < length ps \<Longrightarrow> \<not> has_finished (ps ! k) \<Longrightarrow> verify_chain_step env h (ps ! k) out = Fail e \<Longrightarrow>
     verify_fails env h (ps, out) e (out @ verify_prints env h (ps ! k)) (chain_prints (ps ! k))"
| later: "k < length ps \<Longrightarrow> \<not> has_finished (ps ! k) \<Longrightarrow> verify_chain_step env h (ps ! k) out = Ok (p, out') \<Longrightarrow>
     verify_fails env h (ps[k := p], out') e shown err \<Longrightarrow> verify_fails env h (ps, out) e shown (chain_prints (ps ! k) @ err)"

text \<open>These are the failures that \<open>iou_run\<close> returns.\<close>

lemma verify_fails_iff:
  "run_prints (verify_chain_step env h) has_finished chain_prints s (Fail e) err \<longleftrightarrow> (\<exists>shown. verify_fails env h s e shown err)"
proof
  show "\<exists>shown. verify_fails env h s e shown err"
    if "run_prints (verify_chain_step env h) has_finished chain_prints s (Fail e) err"
    using that
    by (induction s "Fail e :: (verify_state proc list \<times> string) res" err rule: run_prints.induct)
      (blast intro: verify_fails.intros)+
next
  have "run_prints (verify_chain_step env h) has_finished chain_prints s (Fail e) err" if "verify_fails env h s e shown err" for shown
    using that by (induction rule: verify_fails.induct) (blast intro: run_prints.intros)+
  then show "run_prints (verify_chain_step env h) has_finished chain_prints s (Fail e) err" if "\<exists>shown. verify_fails env h s e shown err"
    using that by blast
qed

text \<open>The mismatch a journal ends with: that of its first object whose hash is wrong.\<close>

definition first_mismatch :: "verify_env \<Rightarrow> (u64 \<times> u64) job \<Rightarrow> iter \<Rightarrow> bool" where
  "first_mismatch env b it \<longleftrightarrow> (\<exists>did rest. object_iters (jb_objs b) = did @ it # rest \<and> matches_all env b did \<and>
     hashed_iter it \<and> \<not> hash_matches env (file_header (jb_content b)) (jb_content b) it)"

lemma failing_object_text:
  assumes "served h (jb_content b) (jb_bufs b) j" and "journal_file (jb_content b) (jb_objs b)" and "verify_dinv env b did s"
    and "did @ it # rest = object_iters (jb_objs b)" and "did \<noteq> dispatches b"
    and "verify_step env (read_chain h) (file_header (jb_content b)) it j s = Fail e"
  shows "e = Errno (- EBADMSG) \<and> first_mismatch env b it \<and>
    verify_step_prints env (read_chain h) (file_header (jb_content b)) it j s =
      mismatch_of env (file_header (jb_content b)) (jb_content b) it"
proof -
  let ?c = "jb_content b" and ?hd = "file_header (jb_content b)"
  have env: "env_ok env" and static: "verify_static env b" and did: "matches_all env b did"
    using assms(3,5) by (simp_all add: verify_dinv_def)
  have len: "sizeof_Header \<le> length ?c"
    and chain: "object_chain ?c (header_size ?hd) (tail_object_offset ?hd) (jb_objs b)"
    using assms(2) by (simp_all add: journal_file_def)
  have "it \<in> set (object_iters (jb_objs b))" using assms(4) by (metis in_set_conv_decomp)
  then have it: "iter_of_file env ?c it"
    using chain_iters_of_file [OF chain] static by (auto simp: verify_static_def)
  obtain j' where st: "verify_step env (read_chain h) ?hd it j s = res_map (\<lambda>s'. (j', s')) (verify_act env ?hd ?c it s)"
    "verify_step_prints env (read_chain h) ?hd it j s = fst (verify_act_run env ?hd ?c it s)"
    using indexed.verify_step_act [OF assms(1) env it] by blast
  have fails: "verify_act env ?hd ?c it s = Fail e" using st(1) assms(6) by (cases "verify_act env ?hd ?c it s") simp_all
  have hashed: "hashed_iter it" by (rule ccontr) (use fails in \<open>simp add: verify_act_def verify_act_run_def\<close>)
  obtain s' where run: "verify_act_run env ?hd ?c it s =
      (if hash_matches env ?hd ?c it then ([], Ok s') else (mismatch_of env ?hd ?c it, Fail (Errno (- EBADMSG))))"
    using verify_act_run_result [OF env header_file_id [OF len] it hashed] by blast
  have wrong: "\<not> hash_matches env ?hd ?c it" using fails run by (auto simp: verify_act_def)
  have "first_mismatch env b it" using assms(4) [symmetric] did hashed wrong unfolding first_mismatch_def by blast
  then show ?thesis using fails run wrong st(2) by (simp add: verify_act_def)
qed

lemma failing_step_text:
  assumes inv: "verify_chain.chain_inv h env b p (did, todo)" and run: "\<not> has_finished p"
    and fails: "verify_chain_step env h p out = Fail e"
  shows "e = Errno (- EBADMSG) \<and>
    (\<exists>it. first_mismatch env b it \<and> verify_prints env h p = mismatch_of env (file_header (jb_content b)) (jb_content b) it)"
proof -
  let ?c = "jb_content b" and ?it = "pr_iter p"
  have i: "served h ?c (jb_bufs b) (pr_bufs p)" "journal_file ?c (jb_objs b)" "remaining False ?c (jb_objs b) p todo"
    "did @ todo = dispatches b" "verify_dinv env b did (pr_data p)"
    using inv by (simp_all add: verify_chain.chain_inv_def)
  show ?thesis
  proof (cases "pr_phase p")
    case Loading_Header
    from load_header_step [OF i(1) this i(2,3)] fails show ?thesis unfolding verify_chain_step_def by (metis res.distinct(1))
  next
    case (Stepping header)
    from next_object_step [OF i(1) this i(3)] fails show ?thesis unfolding verify_chain_step_def by (metis res.distinct(1))
  next
    case (Dispatching header)
    obtain rest where todo: "todo = ?it # rest" and hd: "header = file_header ?c"
      using i(3) Dispatching by (auto simp: remaining_def split: if_splits)
    then have more: "did \<noteq> dispatches b" using i(4) by auto
    have disp: "verify_dispatch env h header ?it (pr_bufs p) (pr_data p) out = Fail e"
      using fails Dispatching
      by (cases "verify_dispatch env h header ?it (pr_bufs p) (pr_data p) out")
        (auto simp: verify_chain_step_def chain_step_def)
    have "did @ ?it # rest = dispatches b" using i(4) todo by simp
    then show ?thesis
      using i(2)
    proof (cases rule: dispatches_cases)
      case (object rest')
      then have "verify_step env (read_chain h) (file_header ?c) ?it (pr_bufs p) (pr_data p) = Fail e"
        using disp hd by (cases "verify_step env (read_chain h) header ?it (pr_bufs p) (pr_data p)")
          (auto simp: verify_dispatch_def)
      from failing_object_text [OF i(1,2,5) object(2) more this] show ?thesis
        using Dispatching object(1) hd by (auto simp: verify_prints_def)
    next
      case at_end
      then show ?thesis using disp by (simp add: verify_dispatch_def verify_end_def humane_bytes_str)
    qed
  qed (use run in \<open>simp add: has_finished_def\<close>)
qed

text \<open>When the verification of journals of the format fails, in whatever order they were read, standard
  output holds a line for some of the journals, all of whose hashes are right, and then for the first wrong hash of some
  journal the text with both hashes in hexadecimal and the payload up to its first NUL; the failure is \<open>EBADMSG\<close>, and nothing was printed on
  standard error.\<close>

lemma verify_failure_output:
  assumes "\<forall>b\<in>set jobs. verify_job_ok env h b" and "env_ok env"
    and "verify_fails env h (verify_start jobs out) e shown err"
  shows "e = Errno (- EBADMSG) \<and> err = [] \<and> (\<exists>ends b it. mset ends \<subseteq># mset jobs \<and> (\<forall>b\<in>set ends. job_matches env b) \<and>
    b \<in> set jobs \<and> first_mismatch env b it \<and>
    shown = out @ concat (map job_line ends) @ mismatch_of env (file_header (jb_content b)) (jb_content b) it)"
proof -
  note start = verify_chain.begin_inv [OF verify_ready [OF assms(1,2), of out]]
  have "e = Errno (- EBADMSG) \<and> (\<exists>ends b it. mset ends \<subseteq># mset (map fst gs) \<and> (\<forall>b\<in>set ends. job_matches env b) \<and>
      b \<in> set (map fst gs) \<and> first_mismatch env b it \<and>
      shown = out @ concat (map job_line ends) @ mismatch_of env (file_header (jb_content b)) (jb_content b) it)"
    if "verify_fails env h s e shown err" "verify_chain.sched.run_inv h env out gs s" for s gs
    using that
  proof (induction arbitrary: gs rule: verify_fails.induct)
    case (here k ps out' e)
    have all: "list_all2 (\<lambda>g p. verify_chain.chain_inv h env (fst g) p (snd g)) gs ps"
      and t: "verify_tinv out (verify_chain.made gs) out'"
      using here.prems by (simp_all add: verify_chain.sched.run_inv_def)
    then have k: "k < length gs" using here.hyps(1) list_all2_lengthD by fastforce
    obtain b did todo where g: "gs ! k = (b, did, todo)" by (cases "gs ! k")
    have "verify_chain.chain_inv h env b (ps ! k) (did, todo)" using list_all2_nthD [OF all k] g by simp
    from failing_step_text [OF this here.hyps(2,3)] obtain it where
      it: "e = Errno (- EBADMSG)" "first_mismatch env b it"
        "verify_prints env h (ps ! k) = mismatch_of env (file_header (jb_content b)) (jb_content b) it" by blast
    obtain order where order: "mset order = mset (ended (verify_chain.made gs))" "out' = out @ concat (map job_line order)"
      using t by (auto simp: verify_tinv_def)
    have "ended (verify_chain.made gs) = map fst (filter (\<lambda>(b, did, todo). did = dispatches b) gs)"
      by (auto simp: ended_def verify_chain.made_def filter_map comp_def split_beta' intro!: arg_cong [where f = "map _"])
    then have "mset order \<subseteq># mset (map fst gs)"
      using order(1) by (simp add: mset_filter image_mset_subseteq_mono)
    moreover have "\<forall>b\<in>set order. job_matches env b"
    proof
      fix b assume "b \<in> set order"
      then have "b \<in> set (ended (verify_chain.made gs))" using mset_eq_setD [OF order(1)] by simp
      then obtain todo where "(b, dispatches b, todo) \<in> set gs" by (auto simp: ended_def verify_chain.made_def)
      then obtain i where "i < length gs" "gs ! i = (b, dispatches b, todo)" by (auto simp: in_set_conv_nth)
      then have "verify_chain.chain_inv h env b (ps ! i) (dispatches b, todo)" using list_all2_nthD [OF all] by fastforce
      then show "job_matches env b" by (simp add: verify_chain.chain_inv_def verify_dinv_def)
    qed
    moreover have "b \<in> set (map fst gs)" using nth_mem [OF k] g by force
    ultimately show ?case using it order(2) by (metis append.assoc)
  next
    case (later k ps out' p out'' e shown err)
    have "run_step (verify_chain_step env h) has_finished (ps, out') (ps[k := p], out'')"
      using later.hyps(1-3) by (rule run_step.proceed)
    from verify_chain.sched.run_step_inv [OF this [unfolded verify_chain_step_def] later.prems] obtain gs' where
      "verify_chain.sched.run_inv h env out gs' (ps[k := p], out'')" "map fst gs' = map fst gs" by metis
    from later.IH [OF this(1)] this(2) show ?case by simp
  qed
  note outcome = this [OF assms(3) [unfolded verify_start_def] start]
  have "run_prints (verify_chain_step env h) has_finished chain_prints (verify_start jobs out) (Fail e) err"
    using assms(3) verify_fails_iff by blast
  then have "err = []"
    unfolding verify_chain_step_def verify_start_def
    by (rule verify_chain.run_prints_nothing [OF verify_ready [OF assms(1,2), of out]])
  then show ?thesis using outcome by (simp add: verify_chain.at_start_fst)
qed

section \<open>An example\<close>

text \<open>The journal of the published vector with the last digit of its hash changed; its payload begins with a NUL.\<close>

definition tampered_journal :: bytes where
  "tampered_journal = keyed_journal[272 := 0xe4]"

definition tampered_job :: "(u64 \<times> u64) job" where
  "tampered_job = (keyed_job 0)\<lparr>jb_content := tampered_journal\<rparr>"

lemma length_tampered: "length tampered_journal = length keyed_journal"
  by (simp add: tampered_journal_def)

lemma tampered_segment: "off + n \<le> 272 \<or> 273 \<le> off \<Longrightarrow> segment off n tampered_journal = segment off n keyed_journal"
  by (rule nth_equalityI) (auto simp: segment_def tampered_journal_def nth_list_update)

lemma tampered_header: "file_header tampered_journal = file_header keyed_journal"
  by (simp add: file_header_def tampered_segment sizeof_Header_def)

lemma tampered_header_at: "parse_object_header (segment 256 sizeof_ObjectHeader tampered_journal) =
    parse_object_header (segment 256 sizeof_ObjectHeader keyed_journal)"
  by (simp add: tampered_segment sizeof_ObjectHeader_def)

lemma tampered_file: "journal_file tampered_journal keyed_objects"
proof -
  have "parse_object_header (segment 256 sizeof_ObjectHeader keyed_journal) =
      \<lparr>o_type = 1, o_flags = 0, o_reserved = [0, 0, 0, 0, 0, 0], o_size = 79\<rparr>"
    using keyed_journal_file keyed_journal_header by (simp add: journal_file_def keyed_objects_def)
  then show ?thesis
    using keyed_journal_file tampered_header_at keyed_journal_header
    by (simp add: journal_file_def tampered_header length_tampered keyed_objects_def)
qed

lemma tampered_payload: "payload_bytes tampered_journal keyed_iter = take 15 sip_key"
  using keyed_payload
  by (simp add: payload_bytes_def payload_start_def data_type_1 sizeof_DataObject_def keyed_iter_def tampered_segment)

lemma tampered_job_ok: "verify_job_ok plain_env (file_host False tampered_journal) tampered_job"
proof -
  have len: "length tampered_journal < 2 ^ 63" by (simp add: length_tampered length_keyed_journal)
  have "job_served (file_host False tampered_journal) tampered_job"
    using len tampered_file
    by (simp add: job_served_def tampered_job_def keyed_job_def file_host_served coherent_j_idx link_bufs_coherent)
  moreover have "\<forall>i\<in>set (object_iters keyed_objects). hashed_fits plain_env tampered_journal i"
    using keyed_fits by (simp add: keyed_iters hashed_fits_def tampered_payload keyed_payload length_tampered)
  ultimately show ?thesis
    by (simp add: verify_job_ok_def verify_static_def tampered_job_def keyed_job_def zero_iter_def)
qed

lemma tampered_mismatch:
  "mismatch_of plain_env (file_header tampered_journal) tampered_journal keyed_iter =
    ''mismatch a129ca6149be45e5 != a129ca6149be45e4'' @ newline @ ''contents='' @ [CHR 0x22, CHR 0x22] @ newline"
  "\<not> hash_matches plain_env (file_header tampered_journal) tampered_journal keyed_iter"
proof -
  have h: "reference_hash (file_header keyed_journal) (take 15 sip_key) = 0xa129ca6149be45e5"
    by (simp add: reference_hash_def keyed_journal_header HEADER_INCOMPATIBLE_KEYED_HASH_def sip_hash_vector)
  have "segment 272 8 tampered_journal = (segment 272 8 keyed_journal)[0 := 0xe4]"
    by (rule nth_equalityI) (auto simp: segment_def tampered_journal_def nth_list_update)
  also have "segment 272 8 keyed_journal = [0xe5, 0x45, 0xbe, 0x49, 0x61, 0xca, 0x29, 0xa1]"
    by (simp add: segment_def keyed_journal_def sip_key_def)
  finally have stored: "le64_at 272 tampered_journal = 0xa129ca6149be45e4" by (simp add: le64_at_def)
  have flags: "plain_payload (ve_zstd plain_env) (o_flags (it_header keyed_iter)) bs = Some bs" for bs
    by (simp add: plain_payload_def keyed_iter_def)
  have off: "it_offset keyed_iter = 256" by (simp add: keyed_iter_def)
  show "\<not> hash_matches plain_env (file_header tampered_journal) tampered_journal keyed_iter"
    by (simp add: hash_matches_def tampered_payload tampered_header flags h off stored)
  have hex: "hex_nat 11613035633349379557 = ''a129ca6149be45e5''" "hex_nat 11613035633349379556 = ''a129ca6149be45e4''"
    by (simp_all add: hex_nat.simps hex_char_def char_of_def bit_iff_odd)
  have "shown_payload (take 15 sip_key) = []" by (simp add: shown_payload_def chars_def sip_key_def)
  then show "mismatch_of plain_env (file_header tampered_journal) tampered_journal keyed_iter =
    ''mismatch a129ca6149be45e5 != a129ca6149be45e4'' @ newline @ ''contents='' @ [CHR 0x22, CHR 0x22] @ newline"
    by (simp add: mismatch_of_def tampered_payload tampered_header flags h off stored mismatch_line_def hex)
qed

text \<open>Any job over this journal fails at its only object.\<close>

lemma tampered_wrong:
  assumes "jb_content b = tampered_journal" and "jb_objs b = keyed_objects"
  shows "\<not> job_matches plain_env b" and "first_mismatch plain_env b it \<Longrightarrow> it = keyed_iter"
proof -
  have data: "hashed_iter keyed_iter" by (simp add: hashed_iter_def hashed_type_def keyed_iter_def data_type_1)
  show "\<not> job_matches plain_env b"
    using tampered_mismatch(2) data assms by (simp add: job_matches_def matches_all_def keyed_iters)
  show "first_mismatch plain_env b it \<Longrightarrow> it = keyed_iter"
    using assms by (auto simp: first_mismatch_def keyed_iters Cons_eq_append_conv)
qed

lemma tampered_static:
  "jb_content b = tampered_journal \<Longrightarrow> jb_objs b = keyed_objects \<Longrightarrow> verify_static plain_env b"
  using tampered_job_ok by (simp add: verify_job_ok_def verify_static_def tampered_job_def keyed_job_def)

end
