(* ===== verification/Jio_Runs.thy ===== *)
theory Jio_Runs
  imports Jio_Main Subcommand_Run Report_Schedule Layout_Schedule Entry_Array_Schedule Verify_Output Tail_Waste_Schedule
begin

text \<open>
  The calls of the program as a whole: the run of a subcommand from the machine id to the end of
  \<open>iou_run\<close>, composed with the command line, for the five subcommands that read journals.
\<close>

section \<open>The command line over a run\<close>

text \<open>
  \<open>put\<close> stores the state the chains have shared where the subcommand finds it.  A failure that is a
  negative number is what \<open>iou_run\<close>, or \<open>machid_get\<close>, returns to it; any other ends the program.  What the run
  printed on standard error comes before what \<open>main\<close> prints there.
\<close>

definition run_main ::
  "main_env \<Rightarrow> ('t \<Rightarrow> main_env \<Rightarrow> main_env) \<Rightarrow> string list \<Rightarrow> 't res \<Rightarrow> string \<Rightarrow> outcome3 res" where
  "run_main env put argv r err =
     res_map (\<lambda>(status, out, diag). (status, out, err @ diag))
       (case r of
          Ok t \<Rightarrow> main (put t (env\<lparr>me_machid := 0, me_journals := 0\<rparr>)) argv
        | Fail (Errno e) \<Rightarrow> main (env\<lparr>me_machid := 0, me_journals := e\<rparr>) argv
        | Fail f \<Rightarrow> Fail f)"

text \<open>The program is started with io_uring available, and nothing is outstanding after the subcommand.\<close>

definition env_runs :: "main_env \<Rightarrow> bool" where
  "env_runs env \<longleftrightarrow> me_iou env \<and> me_run env = 0"

section \<open>The journals of a machine as jobs\<close>

definition file_served :: "host \<Rightarrow> (nat \<Rightarrow> bytes) \<Rightarrow> journal \<Rightarrow> bool" where
  "file_served h files jr \<longleftrightarrow> reads_file (only_file (j_idx jr) h) (files (j_idx jr)) \<and>
     reads_fully (only_file (j_idx jr) h) (files (j_idx jr))"

text \<open>Contents and objects by registered index; sizes and memory as the \<open>per_journal\<close> thunks find them.\<close>

definition job_of ::
  "(nat \<Rightarrow> bytes) \<Rightarrow> (nat \<Rightarrow> (u64 \<times> ObjectHeader) list) \<Rightarrow> (journal \<Rightarrow> u64) \<Rightarrow> (journal \<Rightarrow> iter \<times> 'p) \<Rightarrow> journal \<Rightarrow> 'p job" where
  "job_of files objs sizes mem jr =
     \<lparr>jb_content = files (j_idx jr), jb_objs = objs (j_idx jr), jb_size = sizes jr, jb_iter = fst (mem jr),
      jb_bufs = jr, jb_data = snd (mem jr)\<rparr>"

definition jobs_of ::
  "string list \<Rightarrow> (nat \<Rightarrow> int) \<Rightarrow> (nat \<Rightarrow> bytes) \<Rightarrow> (nat \<Rightarrow> (u64 \<times> ObjectHeader) list) \<Rightarrow> (journal \<Rightarrow> u64)
     \<Rightarrow> (journal \<Rightarrow> iter \<times> 'p) \<Rightarrow> 'p job list" where
  "jobs_of names fds files objs sizes mem = map (job_of files objs sizes mem) (open_journals names fds)"

lemma jobs_of_bufs: "map jb_bufs (jobs_of names fds files objs sizes mem) = open_journals names fds"
  by (simp add: jobs_of_def job_of_def comp_def)

lemma jobs_of_begin:
  "\<forall>b\<in>set (jobs_of names fds files objs sizes mem). sizes (jb_bufs b) = jb_size b \<and> mem (jb_bufs b) = (jb_iter b, jb_data b)"
  by (auto simp: jobs_of_def job_of_def)

text \<open>The buffers of a journal that has just been opened are fit to read its file.\<close>

lemma jobs_of_served:
  assumes "\<forall>jr\<in>set (open_journals names fds). file_served h files jr" and "b \<in> set (jobs_of names fds files objs sizes mem)"
  shows "served h (jb_content b) (jb_bufs b) (jb_bufs b)"
  using assms open_journals_coherent(1)
  by (auto simp: jobs_of_def job_of_def served_def file_served_def)

lemma whole_run:
  assumes "machine_ok m flags names fds" and "dispatch_all launch (open_journals names fds) ([], t) = Ok s"
    and "\<exists>x. run_ends step finished s x" and "\<And>x err. run_ends step finished s x \<Longrightarrow> P (res_map snd x) err"
    and "\<And>x err. run_prints step finished prints s x err \<Longrightarrow> err = []"
  shows "(\<exists>r err. subcommand m flags launch step finished prints t r err) \<and>
    (\<forall>r err. subcommand m flags launch step finished prints t r err \<longrightarrow> refused_text names fds err \<and> P r err)"
proof (intro conjI allI impI)
  show "\<exists>r err. subcommand m flags launch step finished prints t r err"
    using subcommand_runs(2) [OF assms(1,2)] assms(3) by blast
  fix r err assume "subcommand m flags launch step finished prints t r err"
  from subcommand_runs(1) [OF assms(1,2) this] obtain x err1 err2 where
    x: "run_prints step finished prints s x err2" "r = res_map snd x" "refused_text names fds err1" "err = err1 @ err2" by blast
  show "refused_text names fds err" using x(3,4) assms(5) [OF x(1)] by simp
  show "P r err" unfolding x(2) by (rule assms(4) [OF run_prints_ends [OF x(1)]])
qed

section \<open>A verification with its output\<close>

text \<open>
  What \<open>iou_run\<close> returns to \<open>jio_verify_hashed_objects\<close>, and what is on standard output and on standard error by
  then: nothing on the first before the chains begin, the lines of the journals in a run that succeeds, and the text of a mismatch after
  some of them.
\<close>

inductive verify_call ::
  "machine \<Rightarrow> (journal \<Rightarrow> iter \<times> u64 \<times> u64) \<Rightarrow> verify_env \<Rightarrow> host \<Rightarrow> string res \<Rightarrow> string \<Rightarrow> string \<Rightarrow> bool"
  for m mem env h where
  not_begun: "subcommand_begins m 0 (verify_begin mem) [] (Fail e) err \<Longrightarrow> verify_call m mem env h (Fail e) [] err"
| all_verified: "subcommand_begins m 0 (verify_begin mem) [] (Ok s) err \<Longrightarrow>
     run_prints (verify_chain_step env h) has_finished chain_prints s (Ok (ps, out)) err' \<Longrightarrow>
     verify_call m mem env h (Ok out) out (err @ err')"
| one_failed: "subcommand_begins m 0 (verify_begin mem) [] (Ok s) err \<Longrightarrow> verify_fails env h s e shown err' \<Longrightarrow>
     verify_call m mem env h (Fail e) shown (err @ err')"

inductive_cases verify_callE: "verify_call m mem env h r shown err"

text \<open>The results are those of the subcommand, and each of these has an output.\<close>

lemma verify_call_subcommand:
  "(\<exists>shown. verify_call m mem env h r shown err) \<longleftrightarrow>
     subcommand m 0 (verify_begin mem) (verify_chain_step env h) has_finished chain_prints [] r err"
proof
  assume "\<exists>shown. verify_call m mem env h r shown err"
  then obtain shown where "verify_call m mem env h r shown err" by blast
  then show "subcommand m 0 (verify_begin mem) (verify_chain_step env h) has_finished chain_prints [] r err"
  proof cases
    case (one_failed s err1 e err2)
    then have "run_prints (verify_chain_step env h) has_finished chain_prints s (Fail e) err2" using verify_fails_iff by blast
    from subcommand.begun [OF one_failed(3) this] one_failed(1,2) show ?thesis by simp
  next
    case (all_verified s err1 ps err2)
    from subcommand.begun [OF all_verified(3,4)] all_verified(1,2) show ?thesis by simp
  qed (auto intro: subcommand.not_begun)
next
  assume "subcommand m 0 (verify_begin mem) (verify_chain_step env h) has_finished chain_prints [] r err"
  then show "\<exists>shown. verify_call m mem env h r shown err"
  proof cases
    case (begun s err1 x err2)
    then show ?thesis
    proof (cases x)
      case (Ok y)
      then show ?thesis using begun by (cases y) (auto intro: verify_call.all_verified)
    next
      case (Fail e)
      then obtain shown where "verify_fails env h s e shown err2" using begun(4) verify_fails_iff by blast
      then show ?thesis using begun Fail by (auto intro: verify_call.one_failed)
    qed
  qed (auto intro: verify_call.not_begun)
qed

text \<open>The program's call: the output is on standard output whatever the run returns.\<close>

definition verify_main :: "main_env \<Rightarrow> string \<Rightarrow> string res \<Rightarrow> string \<Rightarrow> string \<Rightarrow> outcome3 res" where
  "verify_main env prog r shown err =
     run_main (env\<lparr>me_verified := shown\<rparr>) (\<lambda>out e. e\<lparr>me_verified := out\<rparr>) [prog, ''verify'', ''hashed-objects''] r err"

lemma verify_main_outcome:
  assumes "env_runs env"
  shows "verify_main env prog (Ok shown) shown err = Ok (0, shown, err)"
    and "e < 0 \<Longrightarrow> verify_main env prog (Fail (Errno e)) shown err =
      Ok (1, shown, err @ ''failed to verify hashed objects: '' @ me_strerror env (- e) @ newline)"
  using assms by (simp_all add: verify_main_def run_main_def main_def main_sub_def main_finish_def
    jio_verify_hashed_objects_def env_runs_def Let_def)

text \<open>On a machine with journals a call begins chains for those that are open, with a line for each of the others.\<close>

lemma verify_call_begins:
  assumes "machine_ok m 0 names fds" and "dispatch_all (verify_begin mem) (open_journals names fds) ([], []) = Ok s"
    and "verify_call m mem env h r shown err"
  obtains ps err1 err2 where "run_prints (verify_chain_step env h) has_finished chain_prints s (Ok (ps, shown)) err2"
      and "r = Ok shown" and "refused_text names fds err1" and "err = err1 @ err2"
  | e err1 err2 where "verify_fails env h s e shown err2" and "r = Fail e" and "refused_text names fds err1" and "err = err1 @ err2"
  using assms(3)
proof cases
  case (not_begun e)
  then show thesis using machine_begins(1) [OF assms(1) not_begun(3)] assms(2) by simp
next
  case (all_verified s' err1 ps err2)
  then have "s' = s \<and> refused_text names fds err1" using machine_begins(1) [OF assms(1) all_verified(3)] assms(2) by simp
  with all_verified show thesis by (intro that(1)) auto
next
  case (one_failed s' err1 e err2)
  then have "s' = s \<and> refused_text names fds err1" using machine_begins(1) [OF assms(1) one_failed(3)] assms(2) by simp
  with one_failed show thesis by (intro that(2)) auto
qed

section \<open>Properties\<close>

text \<open>C1: \<open>jio report usage\<close> on a machine with journals of the format, from reading the machine id to the exit
  status, whatever the order in which the opens and the reads complete: there is an outcome, and every
  outcome is exit status 0 with the table printed for totals that count the objects of exactly the
  journals that could be opened, the last one of each twice; standard error holds a line for every
  journal whose open was refused, and nothing else.\<close>

theorem usage_whole_run:
  assumes "machine_ok m 0 names fds" and "env_runs env"
    and "jobs = jobs_of names fds files objs sizes mem"
    and "\<forall>jr\<in>set (open_journals names fds). file_served h files jr"
    and "\<forall>b\<in>set jobs. journal_file (jb_content b) (jb_objs b) \<and> usage_ok (jb_data b) \<and>
      (\<forall>hd\<in>set (job_headers b). unat (o_type hd) < OBJECT_TYPE_MAX)"
  shows "(\<exists>r err. subcommand m 0 (usage_begin (Some \<circ> sizes) mem) (usage_step h) has_finished chain_prints (zero_usage, 0) r err) \<and>
    (\<forall>r err. subcommand m 0 (usage_begin (Some \<circ> sizes) mem) (usage_step h) has_finished chain_prints (zero_usage, 0) r err \<longrightarrow>
      refused_text names fds err \<and>
      (\<exists>tot text. adds_usage (concat (map job_headers jobs)) (zero_usage\<lparr>file_size := sum_list (map jb_size jobs)\<rparr>) tot \<and>
        usage_lines tot (of_nat (length (open_journals names fds))) = Ok text \<and>
        run_main env (\<lambda>s e. e\<lparr>me_usage := s\<rparr>) [prog, ''report'', ''usage''] r err = Ok (0, text, err)))"
proof (rule whole_run [OF assms(1)])
  let ?t = "(zero_usage, 0 :: u32)" and ?start = "usage_start jobs (zero_usage, 0)"
  have n: "length jobs = length (open_journals names fds)" using assms(3) by (simp add: jobs_of_def)
  have ok: "\<forall>b\<in>set jobs. job_ok h b"
    using assms(3,4,5) jobs_of_served by (fastforce simp: job_ok_def job_served_def)
  have u: "usage_ok (fst ?t)" by (simp add: zero_usage_ok)
  have tot0: "fst (sized_totals jobs ?t) = zero_usage\<lparr>file_size := sum_list (map jb_size jobs)\<rparr>"
    by (simp add: sized_totals_def zero_usage_def)
  have "dispatch_all (usage_begin (Some \<circ> sizes) mem) (map jb_bufs jobs) ([], ?t) =
      Ok ([] @ fst ?start, snd ?start)"
    by (rule usage_begin_all) (use jobs_of_begin [of names fds files objs sizes mem] in \<open>simp add: assms(3)\<close>)
  then show "dispatch_all (usage_begin (Some \<circ> sizes) mem) (open_journals names fds) ([], ?t) = Ok ?start"
    using assms(3) by (simp add: jobs_of_bufs)
  show "\<exists>x. run_ends (usage_step h) has_finished ?start x" by (rule usage_has_outcome [OF ok u])
  show "err = []" if "run_prints (usage_step h) has_finished chain_prints ?start x err" for x err
    using that unfolding usage_step_def usage_start_def by (rule usage_chain.run_prints_nothing [OF usage_ready [OF ok u]])
  show "\<exists>tot text. adds_usage (concat (map job_headers jobs)) (zero_usage\<lparr>file_size := sum_list (map jb_size jobs)\<rparr>) tot \<and>
      usage_lines tot (of_nat (length (open_journals names fds))) = Ok text \<and>
      run_main env (\<lambda>s e. e\<lparr>me_usage := s\<rparr>) [prog, ''report'', ''usage''] (res_map snd x) err = Ok (0, text, err)"
    if x: "run_ends (usage_step h) has_finished ?start x" for x err
  proof -
    obtain ps tot where r: "x = Ok (ps, tot, of_nat (length jobs))"
      "adds_usage (concat (map job_headers jobs)) (zero_usage\<lparr>file_size := sum_list (map jb_size jobs)\<rparr>) tot"
      by (rule usage_outcome [OF ok u x, unfolded tot0]) simp
    obtain out where out: "usage_lines tot (of_nat (length jobs)) = Ok out"
      by (simp add: usage_lines_def humane_bytes_str res_concat_Ok)
    then have "run_main env (\<lambda>s e. e\<lparr>me_usage := s\<rparr>) [prog, ''report'', ''usage''] (res_map snd x) err = Ok (0, out, err)"
      using assms(2) r(1) by (simp add: run_main_def main_def main_report_def main_sub_def main_finish_def
        jio_report_usage_def env_runs_def Let_def)
    then show ?thesis using r(2) out n by auto
  qed
qed

text \<open>C2: \<open>jio verify hashed-objects\<close> on a machine with journals of the format: there is an outcome, and every
  outcome, whatever the order in which the opens and the reads complete, has exit status 0 and a line for every
  journal that could be opened when the hash stored in every data and field object of these is the
  reference hash of its payload.  Otherwise the exit status is 1, \<open>EBADMSG\<close> is named last on standard error, and standard output
  holds lines of journals without a wrong hash, and then the first wrong hash of one journal, beside the right one, with the
  payload up to its first NUL.  Standard error begins with a line for every journal whose open was refused.\<close>

theorem verify_whole_run:
  assumes "machine_ok m 0 names fds" and "env_runs env" and "env_ok venv"
    and "jobs = jobs_of names fds files objs (\<lambda>_. 0) mem"
    and "\<forall>jr\<in>set (open_journals names fds). file_served h files jr"
    and "\<forall>b\<in>set jobs. journal_file (jb_content b) (jb_objs b) \<and> it_offset (jb_iter b) = 0 \<and> verify_static venv b"
  shows "(\<exists>r shown err. verify_call m mem venv h r shown err) \<and>
    (\<forall>r shown err. verify_call m mem venv h r shown err \<longrightarrow> refused_text names fds err \<and>
      (if \<forall>b\<in>set jobs. job_matches venv b
       then verify_main env prog r shown err = Ok (0, shown, err) \<and>
         (\<exists>order. mset order = mset jobs \<and> shown = concat (map job_line order))
       else verify_main env prog r shown err =
           Ok (1, shown, err @ ''failed to verify hashed objects: '' @ me_strerror env EBADMSG @ newline) \<and>
         (\<exists>ends b it. mset ends \<subseteq># mset jobs \<and> (\<forall>b\<in>set ends. job_matches venv b) \<and>
           b \<in> set jobs \<and> first_mismatch venv b it \<and>
           shown = concat (map job_line ends) @ mismatch_of venv (file_header (jb_content b)) (jb_content b) it)))"
proof -
  let ?start = "verify_start jobs []"
  let ?verified = "\<lambda>r shown err. verify_main env prog r shown err = Ok (0, shown, err) \<and>
    (\<exists>order. mset order = mset jobs \<and> shown = concat (map job_line order))"
  let ?mismatch = "\<lambda>r shown err. verify_main env prog r shown err =
      Ok (1, shown, err @ ''failed to verify hashed objects: '' @ me_strerror env EBADMSG @ newline) \<and>
    (\<exists>ends b it. mset ends \<subseteq># mset jobs \<and> (\<forall>b\<in>set ends. job_matches venv b) \<and>
      b \<in> set jobs \<and> first_mismatch venv b it \<and>
      shown = concat (map job_line ends) @ mismatch_of venv (file_header (jb_content b)) (jb_content b) it)"
  have ok: "\<forall>b\<in>set jobs. verify_job_ok venv h b"
    using assms(4,5,6) jobs_of_served by (fastforce simp: verify_job_ok_def job_served_def)
  have "dispatch_all (verify_begin mem) (map jb_bufs jobs) ([], []) = Ok ([] @ fst ?start, [])"
    by (rule verify_begin_all) (use jobs_of_begin [of names fds files objs "\<lambda>_. 0" mem] in \<open>simp add: assms(4)\<close>)
  then have start: "dispatch_all (verify_begin mem) (open_journals names fds) ([], []) = Ok ?start"
    using assms(4) by (simp add: jobs_of_bufs verify_start_def)
  note outcomes = verify_outcomes [OF ok assms(3), of "[]"]
  have quiet: "err = []" if "run_prints (verify_chain_step venv h) has_finished chain_prints ?start x err" for x err
    using that unfolding verify_chain_step_def verify_start_def
    by (rule verify_chain.run_prints_nothing [OF verify_ready [OF ok assms(3), of "[]"]])
  have "\<exists>x. run_ends (verify_chain_step venv h) has_finished ?start x" using outcomes by blast
  then have "\<exists>r shown err. verify_call m mem venv h r shown err"
    using subcommand_runs(2) [OF assms(1) start] verify_call_subcommand by blast
  moreover have "refused_text names fds err \<and>
      (if \<forall>b\<in>set jobs. job_matches venv b then ?verified r shown err else ?mismatch r shown err)"
    if called: "verify_call m mem venv h r shown err" for r shown err
    using assms(1) start called
  proof (cases rule: verify_call_begins)
    case (1 ps err1 err2)
    then have ends: "run_ends (verify_chain_step venv h) has_finished ?start (Ok (ps, shown))" by (blast dest: run_prints_ends)
    have all: "\<forall>b\<in>set jobs. job_matches venv b"
    proof (rule ccontr)
      assume some: "\<not> (\<forall>b\<in>set jobs. job_matches venv b)"
      show False using outcomes [unfolded if_not_P [OF some]] ends by blast
    qed
    have "?verified (Ok shown) shown err"
      using outcomes [unfolded if_P [OF all]] ends verify_main_outcome(1) [OF assms(2)] by fastforce
    then show ?thesis unfolding if_P [OF all] 1(2) using 1(3,4) quiet [OF 1(1)] by simp
  next
    case (2 e err1 err2)
    then have "run_ends (verify_chain_step venv h) has_finished ?start (Fail e)" using verify_fails_iff run_prints_ends by blast
    then have some: "\<not> (\<forall>b\<in>set jobs. job_matches venv b)" using outcomes by (metis res.distinct(1))
    note failed = verify_failure_output [OF ok assms(3) 2(1)]
    then have "r = Fail (Errno (- EBADMSG))" using 2(2) by blast
    then have "verify_main env prog r shown err =
        Ok (1, shown, err @ ''failed to verify hashed objects: '' @ me_strerror env EBADMSG @ newline)"
      using verify_main_outcome(2) [OF assms(2), of "- EBADMSG"] by (simp add: EBADMSG_def)
    then show ?thesis unfolding if_not_P [OF some] using failed 2(3,4) by simp
  qed
  ultimately show ?thesis by blast
qed

text \<open>C7: \<open>jio report tail-waste\<close> on a machine with journals of known states: there is an outcome, and every
  outcome is exit status 0 with one line for each journal that could be opened, in the order in which they
  completed, and the totals of the bytes past the end of their tail objects; standard error holds a line for every
  journal whose open was refused, and nothing else.\<close>

theorem tail_waste_whole_run:
  assumes "machine_ok m 0 names fds" and "env_runs env" and "jobs = jobs_of names fds files (\<lambda>_. []) sizes mem"
    and "\<forall>b\<in>set jobs. tail_job_ok h (Some \<circ> sizes) b"
  shows "(\<exists>r err. subcommand m 0 tail_begin (tail_step h (Some \<circ> sizes)) tail_finished (\<lambda>p. []) ([], zero_tail_waste) r err) \<and>
    (\<forall>r err. subcommand m 0 tail_begin (tail_step h (Some \<circ> sizes)) tail_finished (\<lambda>p. []) ([], zero_tail_waste) r err \<longrightarrow>
      refused_text names fds err \<and>
      (\<exists>order tw text. mset order = mset jobs \<and> adds_waste (map job_info order) zero_tail_waste tw \<and>
        tail_waste_totals tw = Ok text \<and>
        run_main env (\<lambda>s e. e\<lparr>me_tail := s\<rparr>) [prog, ''report'', ''tail-waste''] r err =
          Ok (0, newline @ ''Per-journal:'' @ newline @ concat (map (tail_waste_line \<circ> job_info) order) @ text, err)))"
proof (rule whole_run [OF assms(1)])
  let ?t = "([] :: string, zero_tail_waste)"
  show "dispatch_all tail_begin (open_journals names fds) ([], ?t) = Ok (tail_start jobs ?t)"
    using tail_begin_all [of jobs "[]" ?t] assms(3) by (simp add: jobs_of_bufs tail_start_def)
  have "tail_waste_ok (snd ?t)" by (simp add: tail_waste_ok_def zero_tail_waste_def)
  note outcomes = tail_waste_outcomes [OF assms(4) this, unfolded fst_conv snd_conv append_Nil]
  then show "\<exists>x. run_ends (tail_step h (Some \<circ> sizes)) tail_finished (tail_start jobs ?t) x" by blast
  show "err = []" if "run_prints (tail_step h (Some \<circ> sizes)) tail_finished (\<lambda>p. []) (tail_start jobs ?t) x err" for x err
    using that by (rule run_prints_silent)
  show "\<exists>order tw text. mset order = mset jobs \<and> adds_waste (map job_info order) zero_tail_waste tw \<and>
      tail_waste_totals tw = Ok text \<and>
      run_main env (\<lambda>s e. e\<lparr>me_tail := s\<rparr>) [prog, ''report'', ''tail-waste''] (res_map snd x) err =
        Ok (0, newline @ ''Per-journal:'' @ newline @ concat (map (tail_waste_line \<circ> job_info) order) @ text, err)"
    if ends: "run_ends (tail_step h (Some \<circ> sizes)) tail_finished (tail_start jobs ?t) x" for x err
  proof -
    obtain ps order tw where x: "x = Ok (ps, concat (map (tail_waste_line \<circ> job_info) order), tw)"
      "mset order = mset jobs" "adds_waste (map job_info order) zero_tail_waste tw"
      using outcomes ends by blast
    obtain out where "tail_waste_totals tw = Ok out"
      by (simp add: tail_waste_totals_def humane_bytes_str res_concat_Ok)
    then show ?thesis
      using x assms(2) by (intro exI [of _ order] exI [of _ tw] exI [of _ out])
        (simp add: run_main_def main_def main_report_def main_sub_def main_finish_def jio_report_tail_waste_def
          env_runs_def Let_def)
  qed
qed

text \<open>C6: \<open>jio report entry-arrays\<close> on a machine with journals whose entry arrays lie in their files: there is an
  outcome, and every outcome is exit status 0 with the statistics printed for totals that count the entry
  arrays of all journals that could be opened and the distinct ones of each; standard error holds a line for every
  journal whose open was refused, and nothing else.\<close>

theorem entry_arrays_whole_run:
  assumes "machine_ok m 0 names fds" and "env_runs env" and "jobs = jobs_of names fds files objs (\<lambda>_. 0) mem"
    and "\<forall>jr\<in>set (open_journals names fds). file_served h files jr"
    and "\<forall>b\<in>set jobs. journal_file (jb_content b) (jb_objs b) \<and> it_offset (jb_iter b) = 0 \<and> ea_static sha1 b \<and>
      jb_data b = zero_profile"
  shows "(\<exists>r err. subcommand m 0 (entry_arrays_begin mem) (ea_chain_step sha1 (True, True) h) has_finished chain_prints
      ([], zero_stats 0 0) r err) \<and>
    (\<forall>r err. subcommand m 0 (entry_arrays_begin mem) (ea_chain_step sha1 (True, True) h) has_finished chain_prints
        ([], zero_stats 0 0) r err \<longrightarrow>
      refused_text names fds err \<and>
      (\<exists>tot text before. adds_journals sha1 (map job_payloads jobs) (zero_stats 0 0) tot \<and> print_stats tot = Ok text \<and>
        run_main env (\<lambda>s e. e\<lparr>me_entry_arrays := s\<rparr>) [prog, ''report'', ''entry-arrays''] r err =
          Ok (0, before @ newline @ newline @ ''Entry-array aggregate totals for all journals'' @ newline @ text, err)))"
proof (rule whole_run [OF assms(1)])
  let ?t = "([] :: string, zero_stats 0 0)"
  have ok: "\<forall>b\<in>set jobs. ea_job_ok sha1 h b"
    using assms(3,4,5) jobs_of_served by (fastforce simp: ea_job_ok_def job_served_def)
  have "dispatch_all (entry_arrays_begin mem) (map jb_bufs jobs) ([], ?t) = Ok ([] @ fst (entry_arrays_start jobs ?t), ?t)"
    by (rule entry_arrays_begin_all) (use jobs_of_begin [of names fds files objs "\<lambda>_. 0" mem] in \<open>simp add: assms(3)\<close>)
  then show "dispatch_all (entry_arrays_begin mem) (open_journals names fds) ([], ?t) = Ok (entry_arrays_start jobs ?t)"
    using assms(3) by (simp add: jobs_of_bufs entry_arrays_start_def)
  have sized: "stats_sized (snd ?t)" by (simp add: stats_sized_def zero_stats_def zero_classes_def)
  note outcomes = entry_arrays_outcomes [OF ok sized, unfolded snd_conv]
  then show "\<exists>x. run_ends (ea_chain_step sha1 (True, True) h) has_finished (entry_arrays_start jobs ?t) x" by blast
  show "err = []"
    if "run_prints (ea_chain_step sha1 (True, True) h) has_finished chain_prints (entry_arrays_start jobs ?t) x err" for x err
    using that unfolding ea_chain_step_def entry_arrays_start_def
    by (rule ea_chain.run_prints_nothing [OF ea_ready [OF ok sized]])
  show "\<exists>tot text before. adds_journals sha1 (map job_payloads jobs) (zero_stats 0 0) tot \<and> print_stats tot = Ok text \<and>
      run_main env (\<lambda>s e. e\<lparr>me_entry_arrays := s\<rparr>) [prog, ''report'', ''entry-arrays''] (res_map snd x) err =
        Ok (0, before @ newline @ newline @ ''Entry-array aggregate totals for all journals'' @ newline @ text, err)"
    if ends: "run_ends (ea_chain_step sha1 (True, True) h) has_finished (entry_arrays_start jobs ?t) x" for x err
  proof -
    obtain ps before tot where x: "x = Ok (ps, before, tot)" "adds_journals sha1 (map job_payloads jobs) (zero_stats 0 0) tot"
      using outcomes ends by blast
    obtain out where "print_stats tot = Ok out" using print_stats_Ok by blast
    then show ?thesis
      using x assms(2) by (intro exI [of _ tot] exI [of _ out] exI [of _ before])
        (simp add: run_main_def main_def main_report_def main_sub_def main_finish_def jio_report_entry_arrays_def
          env_runs_def Let_def)
  qed
qed

lemma main_of_report: "me_iou env \<Longrightarrow> main env [prog, ''report'', sub] = main_report env sub"
  by (simp add: main_def Let_def)

lemma main_of_verify: "me_iou env \<Longrightarrow> main env [prog, ''verify'', ''hashed-objects''] =
    main_sub env ''verify hashed objects'' (Ok (jio_verify_hashed_objects (me_machid env) (me_journals env), me_verified env))"
  by (simp add: main_def Let_def)

text \<open>A failure of the run is reported under the name of the subcommand.\<close>

lemma main_sub_fails:
  "e < 0 \<Longrightarrow> main_sub env doing (Ok (e, out)) = Ok (1, out, ''failed to '' @ doing @ '': '' @ me_strerror env (- e) @ newline)"
  by (simp add: main_sub_def)

lemma failed_runs:
  assumes "e < 0"
  shows "jio_report_entry_arrays 0 e s1 = Ok (e, fst s1)" and "jio_report_layout 0 e = e"
    and "jio_report_tail_waste 0 e s2 = Ok (e, newline @ ''Per-journal:'' @ newline @ fst s2)"
    and "jio_report_usage 0 e s3 = Ok (e, [])" and "jio_verify_hashed_objects 0 e = e"
  using assms by (simp_all add: jio_report_entry_arrays_def jio_report_layout_def jio_report_tail_waste_def
    jio_report_usage_def jio_verify_hashed_objects_def Let_def)

lemma main_report_fails:
  assumes "e < 0" and "me_machid env = 0" and "me_journals env = e" and "sub \<in> report_names"
  shows "\<exists>out doing. main_report env sub = Ok (1, out, ''failed to '' @ doing @ '': '' @ me_strerror env (- e) @ newline)"
proof -
  have "\<exists>out doing. main_report env sub = main_sub env doing (Ok (e, out))"
    using assms(4) unfolding report_names_def main_report_def Let_def assms(2,3)
    by (elim insertE emptyE) (auto simp: failed_runs [OF assms(1)])
  then show ?thesis using main_sub_fails [OF assms(1)] by metis
qed

text \<open>C20: Where the directory of the journals cannot be opened, every outcome of every subcommand that reads journals
  is that failure, with its text on standard error and exit status 1, whatever the subcommand has set up.\<close>

theorem missing_directory_exits_1:
  assumes "machid_get (mc_id m) (mc_id_buf m) = Ok machid" and "fst (mc_op_new m)"
    and "mc_openat m \<lparr>at_fd = 0, at_path = PERSISTENT_PATH, at_flags = dir_flags\<rparr> = e" and "e < 0" and "env_runs env"
    and "argv = [prog, ''report'', sub] \<and> sub \<in> report_names \<or> argv = [prog, ''verify'', ''hashed-objects'']"
  shows "(subcommand m flags launch step fin prints t r err \<longleftrightarrow> r = Fail (Errno e) \<and> err = []) \<and>
    (\<exists>out doing. run_main env put argv (Fail (Errno e)) [] =
      Ok (1, out, ''failed to '' @ doing @ '': '' @ me_strerror env (- e) @ newline))"
proof
  have found: "journals_found m flags = Fail (Errno e)"
    using assms(1-4) by (simp add: journals_found_def machid_dir_req_def journals_open_def var_opened_def)
  show "subcommand m flags launch step fin prints t r err \<longleftrightarrow> r = Fail (Errno e) \<and> err = []"
  proof
    assume "subcommand m flags launch step fin prints t r err"
    then show "r = Fail (Errno e) \<and> err = []" by cases (simp_all add: not_found_begins [OF found])
  qed (simp add: subcommand.not_begun not_found_begins [OF found])
  let ?env = "env\<lparr>me_machid := 0, me_journals := e\<rparr>"
  have iou: "me_iou ?env" using assms(5) by (simp add: env_runs_def)
  have run: "run_main env put argv (Fail (Errno e)) [] = main ?env argv"
    by (cases "main ?env argv") (auto simp: run_main_def)
  show "\<exists>out doing. run_main env put argv (Fail (Errno e)) [] =
      Ok (1, out, ''failed to '' @ doing @ '': '' @ me_strerror env (- e) @ newline)"
    unfolding run using assms(6)
  proof
    assume "argv = [prog, ''report'', sub] \<and> sub \<in> report_names"
    then show "\<exists>out doing. main ?env argv = Ok (1, out, ''failed to '' @ doing @ '': '' @ me_strerror env (- e) @ newline)"
      using main_report_fails [OF assms(4), of ?env sub] main_of_report [OF iou, of prog sub] by simp
  next
    assume "argv = [prog, ''verify'', ''hashed-objects'']"
    then show "\<exists>out doing. main ?env argv = Ok (1, out, ''failed to '' @ doing @ '': '' @ me_strerror env (- e) @ newline)"
      using main_sub_fails [OF assms(4), of ?env] main_of_verify [OF iou, of prog] by (simp add: failed_runs [OF assms(4)])
  qed
qed

text \<open>C21: Where the directory cannot be read, or holds no journal, \<open>jio report usage\<close> prints a table of zeros and
  its exit status is 0: the failure of \<open>fdopendir\<close> is returned as a positive number, which nobody checks.\<close>

theorem unreadable_directory_exits_0:
  assumes "machid_get (mc_id m) (mc_id_buf m) = Ok machid" and "machid_dir_req m machid = Ok req"
    and "0 \<le> mc_openat m req" and "env_runs env"
    and "de_fdopendir (mc_dir m) \<noteq> None \<or> (\<forall>d\<in>set (de_first (mc_dir m)). dot_entry d)"
  shows "(subcommand m flags launch step fin prints (zero_usage, 0) r err \<longleftrightarrow> r = Ok (zero_usage, 0) \<and> err = []) \<and>
    (\<exists>text. usage_lines zero_usage 0 = Ok text \<and>
      run_main env (\<lambda>s e. e\<lparr>me_usage := s\<rparr>) [prog, ''report'', ''usage''] (Ok (zero_usage, 0)) [] = Ok (0, text, []))"
proof
  obtain k where found: "journals_found m flags = Ok (k, None)"
    using assms(1,2,3,5)
    by (cases "de_fdopendir (mc_dir m)") (auto simp: journals_found_def get_journals_def Let_def count_entries_eq)
  note begins = none_stored_begins [OF found, of launch "(zero_usage, 0)"]
  show "subcommand m flags launch step fin prints (zero_usage, 0) r err \<longleftrightarrow> r = Ok (zero_usage, 0) \<and> err = []"
  proof
    assume "subcommand m flags launch step fin prints (zero_usage, 0) r err"
    then show "r = Ok (zero_usage, 0) \<and> err = []"
      by cases (auto simp: begins run_prints_none)
  next
    have "subcommand_begins m flags launch (zero_usage, 0) (Ok ([], zero_usage, 0)) []" by (simp add: begins)
    from subcommand.begun [OF this, of step fin prints "Ok ([], zero_usage, 0)" "[]"]
    show "r = Ok (zero_usage, 0) \<and> err = [] \<Longrightarrow> subcommand m flags launch step fin prints (zero_usage, 0) r err"
      by (simp add: run_prints_none)
  qed
  obtain out where "usage_lines zero_usage 0 = Ok out"
    by (simp add: usage_lines_def humane_bytes_str res_concat_Ok)
  then show "\<exists>text. usage_lines zero_usage 0 = Ok text \<and>
      run_main env (\<lambda>s e. e\<lparr>me_usage := s\<rparr>) [prog, ''report'', ''usage''] (Ok (zero_usage, 0)) [] = Ok (0, text, [])"
    using assms(4) by (simp add: run_main_def main_def main_report_def main_sub_def main_finish_def
      jio_report_usage_def env_runs_def Let_def)
qed

section \<open>A machine\<close>

text \<open>Of the two journals in its directory the second may not be opened.\<close>

definition sample_machine :: machine where
  "sample_machine = \<lparr>mc_id = text_env [0x33, 0x2d, 0x61, 10], mc_id_buf = replicate ID_BUF_SIZE 0, mc_op_new = (True, True),
     mc_openat = (\<lambda>req. if at_path req = ''b'' then - EACCES else 5),
     mc_dir = \<lparr>de_fdopendir = None, de_first = [''.'', ''a'', ''b''], de_second = [''.'', ''a'', ''b''], de_calloc = True,
       de_dup = 7, de_resize = 0, de_op_new = \<lambda>i. True\<rparr>,
     mc_reg = \<lparr>re_malloc_fds = True, re_register_files = \<lambda>fds. 0, re_malloc_bufs = True, re_register_buffers = \<lambda>n. 0\<rparr>\<rparr>"

definition sample_fds :: "nat \<Rightarrow> int" where
  "sample_fds i = (if i = 0 then 5 else - EACCES)"

definition sample_env :: main_env where
  "sample_env = \<lparr>me_iou = True, me_machid = 0, me_journals = 0, me_usage = (zero_usage, 0), me_tail = ([], zero_tail_waste),
     me_entry_arrays = ([], zero_stats 0 0), me_verified = [], me_run = 0, me_strerror = (\<lambda>e. ''error''), me_version = ''1''\<rparr>"

lemma sample_env_runs: "env_runs sample_env"
  by (simp add: env_runs_def sample_env_def)

lemma sample_machine_sel:
  "mc_openat sample_machine req = (if at_path req = ''b'' then - EACCES else 5)" "mc_op_new sample_machine = (True, True)"
  "machid_dir_req sample_machine [0x33, 0x2d, 0x61] = Ok \<lparr>at_fd = 5, at_path = ''3-a'', at_flags = dir_flags\<rparr>"
  by (simp_all add: sample_machine_def machid_dir_req_def journals_open_def var_opened_def PERSISTENT_PATH_def chars_def
    char_of_def bit_iff_odd)

lemma sample_machine_ok: "machine_ok sample_machine 0 [''a'', ''b''] sample_fds"
proof -
  let ?id = "[0x33, 0x2d, 0x61, 10] :: bytes"
  have "\<exists>content s t. serves (mc_id sample_machine) content \<and> content \<noteq> [] \<and> butlast (take ID_BUF_SIZE content) = s @ t \<and>
      0 \<notin> set s \<and> (t = [] \<or> hd t = 0) \<and> (\<forall>req. machid_dir_req sample_machine s = Ok req \<longrightarrow> 0 \<le> mc_openat sample_machine req)"
    by (intro exI [of _ ?id] exI [of _ "butlast ?id"] exI [of _ "[]"])
      (simp add: sample_machine_sel ID_BUF_SIZE_def, simp add: sample_machine_def text_env_serves)
  moreover have "tolerated (sample_fds i)" for i by (simp add: sample_fds_def tolerated_def)
  moreover have "\<forall>i<2. mc_openat sample_machine \<lparr>at_fd = 7, at_path = [''a'', ''b''] ! i, at_flags = 0\<rparr> = sample_fds i"
    by (simp add: sample_machine_sel sample_fds_def less_2_cases_iff all_conj_distrib)
  moreover have "length (mc_id_buf sample_machine) = ID_BUF_SIZE" "reg_ok (mc_reg sample_machine)"
    "mc_dir sample_machine = \<lparr>de_fdopendir = None, de_first = [''.'', ''a'', ''b''], de_second = [''.'', ''a'', ''b''],
       de_calloc = True, de_dup = 7, de_resize = 0, de_op_new = \<lambda>i. True\<rparr>"
    by (simp_all add: sample_machine_def reg_ok_def)
  ultimately show ?thesis
    by (simp add: machine_ok_def sample_machine_sel dot_entry_def PERSISTENT_PATH_def numeral_2_eq_2)
qed

definition sample_opened :: journal where
  "sample_opened = opened_journals [''a'', ''b''] sample_fds ! 0"

lemma sample_open: "open_journals [''a'', ''b''] sample_fds = [sample_opened]"
proof -
  let ?js = "opened_journals [''a'', ''b''] sample_fds"
  have "length ?js = 2" by simp
  then have js: "?js = [?js ! 0, ?js ! 1]" by (cases ?js rule: remdups_adj.cases) auto
  have "0 \<le> j_fd (?js ! 0)" "\<not> 0 \<le> j_fd (?js ! 1)"
    using opened_journals_nth [of 0 "[''a'', ''b'']" sample_fds] opened_journals_nth [of 1 "[''a'', ''b'']" sample_fds]
    by (simp_all add: sample_fds_def EACCES_def)
  then show ?thesis unfolding open_journals_def by (subst js) (simp add: sample_opened_def)
qed

lemma sample_jobs: "jobs_of [''a'', ''b''] sample_fds files objs sizes mem = [job_of files objs sizes mem sample_opened]"
  by (simp add: jobs_of_def sample_open)

lemma sample_served: "length content < 2 ^ 63 \<Longrightarrow> file_served (file_host be content) (\<lambda>i. content) jr"
  using file_host_reads [of content be] file_host_fully [of be content]
  by (simp add: file_served_def only_file_def file_host_def)

lemma sample_refused:
  "refused_text [''a'', ''b''] sample_fds err \<longleftrightarrow> err = ''Permission denied opening '' @ [CHR 0x22, CHR ''b'', CHR 0x22] @
    '', ignoring'' @ newline"
proof -
  have "refused [''a'', ''b''] sample_fds = [''b'']" by (simp add: refused_def sample_fds_def EACCES_def)
  then show ?thesis by (auto simp: refused_text_def denied_line_def)
qed

theorem usage_whole_run_witness:
  "\<exists>r tot text err. subcommand sample_machine 0 (usage_begin (Some \<circ> (\<lambda>jr. 296)) (\<lambda>jr. (zero_iter, zero_usage)))
      (usage_step (file_host True sample_journal)) has_finished chain_prints (zero_usage, 0) r err \<and> use_total tot = 148 \<and>
    usage_lines tot 1 = Ok text \<and>
    run_main sample_env (\<lambda>s e. e\<lparr>me_usage := s\<rparr>) [''jio'', ''report'', ''usage''] r err = Ok (0, text,
      ''Permission denied opening '' @ [CHR 0x22, CHR ''b'', CHR 0x22] @ '', ignoring'' @ newline)"
proof -
  let ?mem = "\<lambda>jr. (zero_iter, zero_usage)" and ?h = "file_host True sample_journal"
  let ?jobs = "jobs_of [''a'', ''b''] sample_fds (\<lambda>i. sample_journal) (\<lambda>i. two_objects_list) (\<lambda>jr. 296 :: u64) ?mem"
  let ?b = "job_of (\<lambda>i. sample_journal) (\<lambda>i. two_objects_list) (\<lambda>jr. 296 :: u64) ?mem sample_opened"
  have hds: "job_headers ?b = job_headers (sample_job 0)" by (simp add: job_headers_def job_of_def sample_job_def)
  have ok: "\<forall>b\<in>set ?jobs. journal_file (jb_content b) (jb_objs b) \<and> usage_ok (jb_data b) \<and>
      (\<forall>hd\<in>set (job_headers b). unat (o_type hd) < OBJECT_TYPE_MAX)"
    unfolding sample_jobs by (simp add: hds sample_job_headers OBJECT_TYPE_MAX_def)
      (simp add: job_of_def sample_journal_file zero_usage_ok)
  have "length sample_journal < 2 ^ 63" by (simp add: length_sample_journal)
  then have "\<forall>jr\<in>set (open_journals [''a'', ''b''] sample_fds). file_served ?h (\<lambda>i. sample_journal) jr"
    by (simp add: sample_served)
  note run = usage_whole_run [OF sample_machine_ok sample_env_runs refl this ok, of "''jio''"]
  have one: "of_nat (length (open_journals [''a'', ''b''] sample_fds)) = (1 :: u32)" by (simp add: sample_open)
  obtain r tot out err where r: "subcommand sample_machine 0 (usage_begin (Some \<circ> (\<lambda>jr. 296)) ?mem) (usage_step ?h) has_finished
      chain_prints (zero_usage, 0) r err"
    "adds_usage (concat (map job_headers ?jobs)) (zero_usage\<lparr>file_size := sum_list (map jb_size ?jobs)\<rparr>) tot"
    "usage_lines tot 1 = Ok out"
    "run_main sample_env (\<lambda>s e. e\<lparr>me_usage := s\<rparr>) [''jio'', ''report'', ''usage''] r err = Ok (0, out, err)"
    "refused_text [''a'', ''b''] sample_fds err"
    using run unfolding one by blast
  have "concat (map job_headers ?jobs) = job_headers (sample_job 0)" by (simp add: sample_jobs hds)
  then have "use_total tot = 148"
    using r(2) by (simp add: sample_job_headers adds_usage_def) (simp add: zero_usage_def)
  then show ?thesis using r(1,3,4) r(5) [unfolded sample_refused] by blast
qed

text \<open>The journal of the published vector, and the same with a digit of the stored hash changed.\<close>

theorem verify_whole_run_witness:
  "let denied = ''Permission denied opening '' @ [CHR 0x22, CHR ''b'', CHR 0x22] @ '', ignoring'' @ newline in
   (\<exists>r shown. verify_call sample_machine (\<lambda>jr. (zero_iter, 0, 0)) plain_env (file_host False keyed_journal) r shown denied \<and>
    verify_main sample_env ''jio'' r shown denied = Ok (0, shown, denied)) \<and>
   (\<exists>r shown. verify_call sample_machine (\<lambda>jr. (zero_iter, 0, 0)) plain_env (file_host False tampered_journal) r shown denied \<and>
    verify_main sample_env ''jio'' r shown denied = Ok (1, ''mismatch a129ca6149be45e5 != a129ca6149be45e4'' @ newline @
      ''contents='' @ [CHR 0x22, CHR 0x22] @ newline, denied @ ''failed to verify hashed objects: error'' @ newline))"
  unfolding Let_def
proof
  let ?denied = "''Permission denied opening '' @ [CHR 0x22, CHR ''b'', CHR 0x22] @ '', ignoring'' @ newline"
  let ?mem = "\<lambda>jr. (zero_iter, 0, 0)"
  let ?jobs = "\<lambda>content. jobs_of [''a'', ''b''] sample_fds (\<lambda>i. content) (\<lambda>i. keyed_objects) (\<lambda>_. 0) ?mem"
  have env: "env_ok plain_env" by (simp add: env_ok_def plain_env_def)
  have served: "\<forall>jr\<in>set (open_journals [''a'', ''b''] sample_fds). file_served (file_host False content) (\<lambda>i. content) jr"
    if "length content = length keyed_journal" for content
    using that by (simp add: sample_served length_keyed_journal)
  have static: "verify_static plain_env b" "job_matches plain_env b"
    if "jb_content b = keyed_journal" "jb_objs b = keyed_objects" for b
    using keyed_job_ok [of 0] keyed_job_matches [of 0] that
    by (simp_all add: verify_job_ok_def verify_static_def job_matches_def matches_all_def keyed_job_def)
  have ok: "\<forall>b\<in>set (?jobs keyed_journal). journal_file (jb_content b) (jb_objs b) \<and> it_offset (jb_iter b) = 0 \<and> verify_static plain_env b"
    unfolding sample_jobs by (simp add: static job_of_def keyed_journal_file) (simp add: zero_iter_def)
  have all: "\<forall>b\<in>set (?jobs keyed_journal). job_matches plain_env b" unfolding sample_jobs by (simp add: static job_of_def)
  note run = verify_whole_run [OF sample_machine_ok sample_env_runs env refl, of _ _ _ ?mem "''jio''"]
  show "\<exists>r shown. verify_call sample_machine ?mem plain_env (file_host False keyed_journal) r shown ?denied \<and>
      verify_main sample_env ''jio'' r shown ?denied = Ok (0, shown, ?denied)"
    using run [OF served [OF refl] ok, unfolded if_P [OF all] sample_refused] by blast
  have bad: "\<forall>b\<in>set (?jobs tampered_journal). journal_file (jb_content b) (jb_objs b) \<and> it_offset (jb_iter b) = 0 \<and> verify_static plain_env b"
    unfolding sample_jobs by (simp add: tampered_static job_of_def tampered_file) (simp add: zero_iter_def)
  have wrong: "\<not> job_matches plain_env b" "jb_content b = tampered_journal" "first_mismatch plain_env b it \<Longrightarrow> it = keyed_iter"
    if "b \<in> set (?jobs tampered_journal)" for b it
    using that tampered_wrong [of b] unfolding sample_jobs by (auto simp: job_of_def)
  have some: "\<not> (\<forall>b\<in>set (?jobs tampered_journal). job_matches plain_env b)" unfolding sample_jobs by (simp add: tampered_wrong job_of_def)
  obtain r shown ends b it where r: "verify_call sample_machine ?mem plain_env (file_host False tampered_journal) r shown ?denied"
    "verify_main sample_env ''jio'' r shown ?denied =
      Ok (1, shown, ?denied @ ''failed to verify hashed objects: '' @ me_strerror sample_env EBADMSG @ newline)"
    "mset ends \<subseteq># mset (?jobs tampered_journal)" "\<forall>b\<in>set ends. job_matches plain_env b"
    "b \<in> set (?jobs tampered_journal)" "first_mismatch plain_env b it"
    "shown = concat (map job_line ends) @ mismatch_of plain_env (file_header (jb_content b)) (jb_content b) it"
    using run [OF served [OF length_tampered] bad, unfolded if_not_P [OF some] sample_refused] by blast
  have "set ends \<subseteq> set (?jobs tampered_journal)" using set_mset_mono [OF r(3)] by simp
  then have "ends = []" using r(4) wrong(1) by (cases ends) auto
  then have "shown = ''mismatch a129ca6149be45e5 != a129ca6149be45e4'' @ newline @ ''contents='' @ [CHR 0x22, CHR 0x22] @ newline"
    using r(7) wrong(2) [OF r(5)] wrong(3) [OF r(5,6)] tampered_mismatch(1) by simp
  moreover have "me_strerror sample_env EBADMSG = ''error''" by (simp add: sample_env_def)
  ultimately show "\<exists>r shown. verify_call sample_machine ?mem plain_env (file_host False tampered_journal) r shown ?denied \<and>
      verify_main sample_env ''jio'' r shown ?denied = Ok (1, ''mismatch a129ca6149be45e5 != a129ca6149be45e4'' @ newline @
        ''contents='' @ [CHR 0x22, CHR 0x22] @ newline, ?denied @ ''failed to verify hashed objects: error'' @ newline)"
    using r(1,2) by auto
qed

theorem tail_waste_whole_run_witness:
  "\<exists>r text err. subcommand sample_machine 0 tail_begin (tail_step (file_host False sample_journal) (Some \<circ> (\<lambda>jr. 350)))
      tail_finished (\<lambda>p. []) ([], zero_tail_waste) r err \<and>
    run_main sample_env (\<lambda>s e. e\<lparr>me_tail := s\<rparr>) [''jio'', ''report'', ''tail-waste''] r err = Ok (0, text,
      ''Permission denied opening '' @ [CHR 0x22, CHR ''b'', CHR 0x22] @ '', ignoring'' @ newline)"
proof -
  let ?h = "file_host False sample_journal"
  let ?jobs = "jobs_of [''a'', ''b''] sample_fds (\<lambda>i. sample_journal) (\<lambda>_. []) (\<lambda>jr. 350 :: u64) (\<lambda>jr. (zero_iter, ()))"
  have hd: "h_state (file_header sample_journal) = 0"
    by (simp add: file_header_def parse_header_def header_with_def sample_journal_def segment_def sizeof_Header_def
      nth_append)
  have "served ?h sample_journal sample_opened sample_opened"
    using sample_served [of sample_journal False sample_opened] open_journals_coherent(1) [of sample_opened "[''a'', ''b'']" sample_fds]
    by (simp add: length_sample_journal sample_open served_def file_served_def)
  then have "tail_job_ok ?h (Some \<circ> (\<lambda>jr. 350)) b" if "b \<in> set ?jobs" for b
    using that unfolding sample_jobs by (simp add: tail_job_ok_def job_of_def hd
      length_sample_journal sizeof_Header_def sizeof_ObjectHeader_def sample_journal_header STATE_MAX_def)
  then have "\<forall>b\<in>set ?jobs. tail_job_ok ?h (Some \<circ> (\<lambda>jr. 350)) b" by blast
  from tail_waste_whole_run [OF sample_machine_ok sample_env_runs refl this, of "''jio''", unfolded sample_refused]
  show ?thesis by blast
qed

theorem entry_arrays_whole_run_witness:
  "\<exists>r tot text err. subcommand sample_machine 0 (entry_arrays_begin (\<lambda>jr. (zero_iter, zero_profile)))
      (ea_chain_step (take 20) (True, True) (file_host False ea_journal)) has_finished chain_prints ([], zero_stats 0 0) r err \<and>
    st_count (tot :: ea_stats) = 2 \<and> st_unique tot = 1 \<and>
    run_main sample_env (\<lambda>s e. e\<lparr>me_entry_arrays := s\<rparr>) [''jio'', ''report'', ''entry-arrays''] r err = Ok (0, text,
      ''Permission denied opening '' @ [CHR 0x22, CHR ''b'', CHR 0x22] @ '', ignoring'' @ newline)"
proof -
  let ?mem = "\<lambda>jr. (zero_iter, zero_profile)" and ?h = "file_host False ea_journal"
  let ?jobs = "jobs_of [''a'', ''b''] sample_fds (\<lambda>i. ea_journal) (\<lambda>i. ea_objects) (\<lambda>_. 0) ?mem"
  let ?b = "job_of (\<lambda>i. ea_journal) (\<lambda>i. ea_objects) (\<lambda>_. 0) ?mem sample_opened"
  have b: "jb_content ?b = jb_content (ea_job 0)" "jb_objs ?b = jb_objs (ea_job 0)"
    by (simp_all add: job_of_def ea_job_def)
  then have pls: "job_payloads ?b = job_payloads (ea_job 0)" by (simp only: job_payloads_def)
  have "ea_static (take 20) ?b" using ea_job_fine [of 0] unfolding ea_job_ok_def ea_static_def b pls by blast
  then have ok: "\<forall>b\<in>set ?jobs. journal_file (jb_content b) (jb_objs b) \<and> it_offset (jb_iter b) = 0 \<and>
      ea_static (take 20) b \<and> jb_data b = zero_profile"
    unfolding sample_jobs by simp (simp add: job_of_def ea_journal_file zero_iter_def)
  have "length ea_journal < 2 ^ 63" by (simp add: length_ea_journal)
  then have "\<forall>jr\<in>set (open_journals [''a'', ''b''] sample_fds). file_served ?h (\<lambda>i. ea_journal) jr"
    by (simp add: sample_served)
  from entry_arrays_whole_run [OF sample_machine_ok sample_env_runs refl this ok, of "''jio''", unfolded sample_refused]
  obtain r tot out before err where r: "subcommand sample_machine 0 (entry_arrays_begin ?mem)
      (ea_chain_step (take 20) (True, True) ?h) has_finished chain_prints ([], zero_stats 0 0) r err"
    "adds_journals (take 20) (map job_payloads ?jobs) (zero_stats 0 0) tot"
    "run_main sample_env (\<lambda>s e. e\<lparr>me_entry_arrays := s\<rparr>) [''jio'', ''report'', ''entry-arrays''] r err =
      Ok (0, before @ newline @ newline @ ''Entry-array aggregate totals for all journals'' @ newline @ out, err)"
    "err = ''Permission denied opening '' @ [CHR 0x22, CHR ''b'', CHR 0x22] @ '', ignoring'' @ newline"
    by blast
  have "st_count tot = 2 \<and> st_unique tot = 1"
    using r(2) unfolding sample_jobs list.map pls
    by (simp add: adds_journals_def ea_job_sel distinct_payloads_def zero_stats_def)
  then show ?thesis using r(1,3) r(4) by blast
qed

lemma sample_machid: "machid_get (mc_id sample_machine) (mc_id_buf sample_machine) = Ok [0x33, 0x2d, 0x61]"
proof -
  have "serves (mc_id sample_machine) [0x33, 0x2d, 0x61, 10]" "length (mc_id_buf sample_machine) = ID_BUF_SIZE"
    by (simp_all add: sample_machine_def text_env_serves)
  then show ?thesis
    by (rule machid_id [where t = "[]"]) (simp_all add: ID_BUF_SIZE_def)
qed

text \<open>\<open>ENOENT\<close> for the directory.\<close>

theorem missing_directory_exits_1_witness:
  "subcommand (sample_machine\<lparr>mc_openat := \<lambda>req. - 2\<rparr>) 0 tail_begin
      (tail_step (file_host False sample_journal) (Some \<circ> (\<lambda>jr. 350))) tail_finished (\<lambda>p. []) ([], zero_tail_waste)
      (Fail (Errno (- 2))) [] \<and>
    (\<exists>out doing. run_main sample_env (\<lambda>s e. e\<lparr>me_tail := s\<rparr>) [''jio'', ''report'', ''tail-waste''] (Fail (Errno (- 2))) [] =
      Ok (1, out, ''failed to '' @ doing @ '': '' @ ''error'' @ newline))"
proof -
  let ?m = "sample_machine\<lparr>mc_openat := \<lambda>req. - 2\<rparr>"
  have "machid_get (mc_id ?m) (mc_id_buf ?m) = Ok [0x33, 0x2d, 0x61]" "fst (mc_op_new ?m)"
    "mc_openat ?m \<lparr>at_fd = 0, at_path = PERSISTENT_PATH, at_flags = dir_flags\<rparr> = - 2" "- 2 < (0 :: int)"
    using sample_machid by (simp_all add: sample_machine_sel)
  moreover have "[''jio'', ''report'', ''tail-waste''] = [''jio'', ''report'', ''tail-waste''] \<and>
      ''tail-waste'' \<in> report_names \<or> [''jio'', ''report'', ''tail-waste''] = [''jio'', ''verify'', ''hashed-objects'']"
    by (simp add: report_names_def)
  moreover have "me_strerror sample_env (- (- 2)) = ''error''" by (simp add: sample_env_def)
  ultimately show ?thesis
    using missing_directory_exits_1 [of ?m _ "- 2" sample_env] sample_env_runs by metis
qed

theorem unreadable_directory_exits_0_witness:
  "\<exists>text. subcommand (sample_machine\<lparr>mc_dir := (mc_dir sample_machine)\<lparr>de_fdopendir := Some 20\<rparr>\<rparr>) 0
      (usage_begin (Some \<circ> (\<lambda>jr. 296)) (\<lambda>jr. (zero_iter, zero_usage))) (usage_step (file_host True sample_journal))
      has_finished chain_prints (zero_usage, 0) (Ok (zero_usage, 0)) [] \<and>
    run_main sample_env (\<lambda>s e. e\<lparr>me_usage := s\<rparr>) [''jio'', ''report'', ''usage''] (Ok (zero_usage, 0)) [] = Ok (0, text, [])"
proof -
  let ?m = "sample_machine\<lparr>mc_dir := (mc_dir sample_machine)\<lparr>de_fdopendir := Some 20\<rparr>\<rparr>"
  have "machid_get (mc_id ?m) (mc_id_buf ?m) = Ok [0x33, 0x2d, 0x61]"
    "machid_dir_req ?m [0x33, 0x2d, 0x61] = Ok \<lparr>at_fd = 5, at_path = ''3-a'', at_flags = dir_flags\<rparr>"
    "0 \<le> mc_openat ?m \<lparr>at_fd = 5, at_path = ''3-a'', at_flags = dir_flags\<rparr>"
    "de_fdopendir (mc_dir ?m) \<noteq> None \<or> (\<forall>d\<in>set (de_first (mc_dir ?m)). dot_entry d)"
    using sample_machid sample_machine_sel(3) by (simp_all add: sample_machine_sel machid_dir_req_def)
  from unreadable_directory_exits_0 [OF this(1-3) sample_env_runs this(4),
      of 0 "usage_begin (Some \<circ> (\<lambda>jr. 296)) (\<lambda>jr. (zero_iter, zero_usage))" "usage_step (file_host True sample_journal)"
        has_finished chain_prints _ _ "''jio''"] show ?thesis by blast
qed

end
