(* ===== verification/Spec2Isabelle.thy ===== *)
theory Spec2Isabelle
  imports Hash_Table Sd_Id128 Struct_Layout Buffer_Types Lookup3_Drivers Run_Outcomes Reclaim_Schedule
    Jio_Runs
begin

text \<open>
  \<^bold>\<open>Verification of jio\<close>, a program that reads systemd journal files through io_uring and reports
  how their space is used, verifies the hashes of their objects, or reclaims the space after the last
  object (sources under \<^verbatim>\<open>src/src\<close>).

  \<^bold>\<open>Parts and how they interact.\<close>
  \<^verbatim>\<open>jio.c\<close> dispatches on the command line.  Every subcommand builds the same chain of thunks:
  \<open>machid_get\<close> (\<^verbatim>\<open>machid.c\<close> over \<^verbatim>\<open>readfile.c\<close>) reads the machine id, \<open>journals_open\<close> (\<^verbatim>\<open>journals.c\<close>) opens
  the journals, \<open>journals_for_each\<close> dispatches a \<open>per_journal\<close> thunk for each; that thunk loads the
  header (\<open>journal_get_header\<close>) and iterates over the objects with a closure of its own.  All reads of a
  journal go through \<open>journal_read\<close> and its eight buffers.  Journals are processed concurrently, the
  reads of one journal one after the other.

  \<^bold>\<open>Theories, in the order of the dependencies.\<close>
  \<^item> \<open>Jio_Prelude\<close>: machine integers, the result \<open>'a res\<close> of code that may return a negative number,
    fail an assertion, leave its memory or follow a null pointer; arrays with bounds; word and list lemmas.
  \<^item> \<open>Endian\<close> (\<^verbatim>\<open>upstream/sparse-endian.h\<close>, \<^verbatim>\<open>upstream/unaligned.h\<close>): byte order on either host; the locale
    \<open>field_codec\<close> is what readers of fields rely on; the round trips of the unaligned accesses.
  \<^item> \<open>Sd_Id128\<close> (\<^verbatim>\<open>upstream/sd-id128.h\<close>): the 128-bit ids and their text form.
  \<^item> \<open>Journal_Def\<close> (\<^verbatim>\<open>upstream/journal-def.h\<close>): the format; \<open>..._of_mem\<close> is a structure as it lies in memory,
    \<open>parse_...\<close> the specification of its fields' values.  \<open>Struct_Layout\<close>: every declaration of that file
    with the layout a C compiler gives it, against which the offsets of the other theories are checked.
  \<^item> \<open>Journal_Buffers\<close>, \<open>Journal_Read\<close>, \<open>Read_Protocol\<close>, \<open>Buffer_Types\<close> (\<^verbatim>\<open>journals.c\<close>: \<open>buf_used\<close>, \<open>journal_read\<close>,
    \<open>buf_got_read\<close>): the buffers and their pointers, refined to a list in order of use; coherence of the
    valid buffers with the file; \<open>read_trans\<close>, the steps of issuing, transferring and completing reads; the
    locales \<open>sound_reader\<close> and \<open>complete_reader\<close>, through which everything above reads, interpreted on
    \<open>read_chain\<close>.  One outstanding read per journal is safe, nine are not; the shape of the buffers is kept
    with any number, and no request whose end does not wrap leaves it.
  \<^item> \<open>Journal_Object\<close>, \<open>Journal_Iter\<close>, \<open>Hash_Table\<close>, \<open>Journal_Open\<close> (the rest of \<^verbatim>\<open>journals.c\<close>): the getters
    with the conversion of every object type, the iteration over the objects, hash tables and their
    chains, and the opening of the journals with completions in any order.
  \<^item> \<open>Siphash\<close>, \<open>Lookup3\<close> (\<^verbatim>\<open>upstream/siphash24.c\<close>, \<^verbatim>\<open>upstream/lookup3.c\<close>): the hashes of the format; streaming
    in chunks is SipHash-2-4 of the message, and every branch by alignment, build and byte order computes
    the hash of the key's bytes (locale \<open>key_reader\<close>, interpreted on each branch).
  \<^item> \<open>Lookup3_Drivers\<close>: the tests behind \<open>SELF_TEST\<close>, \<open>driver1\<close> to \<open>driver5\<close> and their \<open>main\<close>, as functions of the
    text they print.
  \<^item> \<open>Humane\<close> (\<^verbatim>\<open>humane.c\<close>, with the program behind \<open>#if 0\<close>), \<open>Printf\<close> (the conversions for hexadecimal numbers and for
    strings of a given precision), \<open>Single_Float\<close> (the percentages of \<^verbatim>\<open>report-entry-arrays.c\<close>) and \<open>Readfile\<close>
    (\<^verbatim>\<open>readfile.c\<close>, \<^verbatim>\<open>machid.c\<close>, \<^verbatim>\<open>bootid.c\<close>): numbers as text, and the id files.
  \<^item> \<open>Report_Run\<close>, \<open>Object_Loop\<close>: the chains that the subcommands share.  \<open>total_closure\<close> and
    \<open>summing_closure\<close> say when a whole iteration is a fold over the objects of the file;
    \<open>reading_step\<close> extends \<open>complete_reader\<close> to thunks that load each object and step the iterator
    themselves.  Each is interpreted on the thunks of the subcommands.
  \<^item> \<open>Report_Usage\<close>, \<open>Report_Layout\<close>, \<open>Report_Tail_Waste\<close>, \<open>Reclaim_Tail_Waste\<close>, \<open>Report_Entry_Arrays\<close>,
    \<open>Verify_Hashed\<close>: the subcommands, one theory per source file of that name.
  \<^item> \<open>Schedule\<close>, \<open>Journal_Chain\<close>: several journals as one transition system.  \<open>run_step\<close> lets any chain that
    has not ended go on, \<open>run_ends\<close> is what \<open>iou_run\<close> returns; the locale \<open>scheduled\<close> states the law that makes
    every order reach the same end, and \<open>journal_chain\<close>, of which it is a sublocale, reduces it to what a
    subcommand's dispatch does with one object.  \<open>Report_Schedule\<close>, \<open>Layout_Schedule\<close>, \<open>Entry_Array_Schedule\<close>,
    \<open>Verify_Schedule\<close> interpret \<open>journal_chain\<close> and \<open>Tail_Waste_Schedule\<close> interprets \<open>scheduled\<close> on the
    thunks of the subcommands.
  \<^item> \<open>Independent_Chains\<close>: chains that share only what they add to; the locale \<open>independent\<close> proves that a run over them
    fails exactly as one of them does alone and succeeds exactly if all do, whatever the order, and \<open>own_dispatch\<close>
    reduces its laws to the dispatch of a subcommand.  \<open>Header_Tail_Chain\<close>: the chain that reads the two headers for the tail
    waste, which the report and \<open>Reclaim_Schedule\<close> share, with the same reduction (\<open>own_final\<close>).
  \<^item> \<open>Single_Journal\<close>: with one journal these machines and the sequential \<open>per_journal\<close> definitions return the
    same, whatever the file and the host; the locale \<open>one_chain\<close> states it for any loop, and \<open>closure_chain\<close> and
    \<open>stepping_chain\<close>, its sublocales, for the two kinds of iteration, interpreted on the thunks.
  \<^item> \<open>Run_Outcomes\<close>: both together, so that the runs over several journals with files of any content are settled by the
    sequential definitions.  \<open>Verify_Output\<close>: what a failing verification has printed.  \<open>Reclaim_Schedule\<close>: the
    reclaim as a run, were the early return of \<open>jio_reclaim_tail_waste\<close> removed.
  \<^item> \<open>Jio_Main\<close> (\<^verbatim>\<open>jio.c\<close>): the command line over the entry points of the subcommands.
  \<^item> \<open>Subcommand_Run\<close>, \<open>Jio_Runs\<close>: the run of a subcommand from \<open>machid_get\<close> on (\<open>subcommand\<close>, over what the
    machine answers; \<open>verify_call\<close> is that of the verification with its output), composed with the command line into whole calls of the program.

  \<^bold>\<open>Modelling.\<close>
  A queued operation is a value and its completion a definition of its own; a closure is a function of
  what it is dispatched with and of the state it shares, a negative return is a \<open>Fail\<close>.  A chain that
  waits for its read is \<open>res_bind\<close> over a reader \<open>rd\<close>.  Pointers between buffers, and the two pointers of
  \<open>dehyphen\<close>, are indices into the array; memory for keys of hashes is a function of addresses.  Integers
  have the width of the code (\<open>u8\<close>, \<open>u16\<close>, \<open>u32\<close>, \<open>u64\<close>), sizes and sums wrap as they do there.  \<open>be\<close> is the byte order of
  the host and \<open>vg\<close> the valgrind build of lookup3.  \<open>float\<close> is evaluated in single precision.  The
  \<open>per_journal\<close> definitions of the reports run one journal to its end; their thunks are the same ones that
  the machines of the schedules dispatch, and \<open>Single_Journal\<close> proves the two accounts of one journal equal.  A step that
  prints and then fails gives its text beside its result.  The iterations are \<open>partial_function\<close>s: a theorem that
  gives their result \<open>Some\<close> says that they return, and a journal on which they do not is shown as well.
  No fuel is used.

  \<^bold>\<open>What the theorems show.\<close>
  Reads return the file's bytes; headers, objects and tables are the stored ones on either host; iterations
  visit the objects of a journal, and the chains of all buckets but the first, in order; the reports add up
  exactly those objects, and the last one twice in the usage report, in whatever order the journals'
  reads complete; every such run ends; verification accepts a journal
  exactly when all stored hashes are those of the payloads; the exit status is 0 exactly for the calls
  listed.  The theorems of \<open>Jio_Runs\<close> put this together: for a machine on which the id can be read and every
  journal opened or refused, each of these subcommands has an outcome, and every outcome prints what is true
  of the journals that could be opened, with the exit status that follows; and what happens where the
  directory is missing or cannot be read.  Where files hold anything, a run ends with the failure of one of its
  journals or with the success of all, as the sequential loops of the single journals return them; a verification that
  fails has printed the lines of journals whose hashes are right and then the first mismatch of one; the reclaim truncates
  archived journals only, each to the end of its tail object.  The error theorems show what a malformed journal does: sizes below the fixed part, sizes that
  wrap, unknown types and states, empty id files, compressions that are not supported.

  \<^bold>\<open>Arguments of the model.\<close>
  io_uring and libiou (whether an operation is available, what it returns: \<open>reads_file\<close> and \<open>reads_fully\<close>
  state the documented behaviour of reading a file; \<open>iou_run\<close> dispatches completions in any order until
  nothing is outstanding and returns the first failure), the kernel and the directory (\<open>machine\<close>),
  \<open>malloc\<close>, SHA-1, zstd, \<open>strerror\<close>.  The worker thread of \<open>iou_async\<close> is a function on the result of the
  work, the identity where a property assumes that it runs.

  \<^bold>\<open>Not modelled.\<close>
  \<^verbatim>\<open>op.h\<close> is a cast; \<^verbatim>\<open>_sd-common.h\<close> holds compiler attributes, \<^verbatim>\<open>journals.h\<close> and the other headers of the
  subcommands declare what is modelled under their sources, and the functions \<^verbatim>\<open>sd-id128.h\<close> declares are libsystemd's.
  The submodules and libraries are not part of the repository.  The lines printed for the journals that had ended when a run
  fails are followed for the verification only.
\<close>

end
